(* ===== verification/Prelude.thy ===== *)
theory Prelude
  imports Main "HOL-Library.Sublist" "HOL-Library.Word"
begin

section \<open>Shared vocabulary: byte strings, C strings, system calls\<close>

text \<open>
  The generic part of the development: the operations of \<^verbatim>\<open>std::string\<close>, of
  \<^verbatim>\<open><cctype>\<close> and of \<^verbatim>\<open>strtol\<close>/\<^verbatim>\<open>to_string\<close> that the sources call, modelled on
  byte strings (\<^typ>\<open>string\<close>, one \<^typ>\<open>char\<close> per byte), the results of system
  calls, and the theorem collections the component theories extend.
  \<^verbatim>\<open>std::string::npos\<close> is \<^const>\<open>None\<close>.
\<close>

named_theorems str_simps "rewriting of the byte-string operations"
named_theorems conn_simps "rewriting of the connection operations"

subsection \<open>Searching and cutting\<close>

type_synonym bytes = string

text \<open>\<^verbatim>\<open>s.find(pat)\<close>: the least position at which \<open>pat\<close> occurs.\<close>

primrec str_find :: "bytes \<Rightarrow> bytes \<Rightarrow> nat option" where
  "str_find pat [] = (if pat = [] then Some 0 else None)"
| "str_find pat (c # cs) =
     (if prefix pat (c # cs) then Some 0 else map_option Suc (str_find pat cs))"

text \<open>\<^verbatim>\<open>s.find(pat, pos)\<close>: the least such position from \<open>pos\<close> on.\<close>

definition str_find_from :: "bytes \<Rightarrow> bytes \<Rightarrow> nat \<Rightarrow> nat option" where
  "str_find_from pat s pos =
     (if pos \<le> length s then map_option ((+) pos) (str_find pat (drop pos s)) else None)"

text \<open>\<^verbatim>\<open>s.substr(pos, n)\<close> and \<^verbatim>\<open>s.substr(pos)\<close>. The C++ functions throw
  \<^verbatim>\<open>std::out_of_range\<close> when \<open>pos > s.size()\<close>; every call site of the sources stays in
  range, which the parser theory proves.\<close>

definition substr :: "bytes \<Rightarrow> nat \<Rightarrow> nat \<Rightarrow> bytes" where
  "substr s pos n = take n (drop pos s)"

definition substr_to_end :: "bytes \<Rightarrow> nat \<Rightarrow> bytes" where
  "substr_to_end s pos = drop pos s"

text \<open>\<^verbatim>\<open>s.c_str()\<close> read as a C string: the bytes before the first NUL.\<close>

definition c_str :: "bytes \<Rightarrow> bytes" where
  "c_str s = takeWhile (\<lambda>c. c \<noteq> CHR 0x00) s"

definition crlf :: bytes where
  "crlf = [CHR 0x0D, CHR 0x0A]"

definition crlf2 :: bytes where
  "crlf2 = crlf @ crlf"

subsection \<open>Character classes and numbers\<close>

text \<open>\<^verbatim>\<open>std::tolower\<close> in the C locale (the program never calls \<^verbatim>\<open>setlocale\<close>).\<close>

definition char_tolower :: "char \<Rightarrow> char" where
  "char_tolower c =
     (let n = of_char c :: nat in if 65 \<le> n \<and> n \<le> 90 then char_of (n + 32) else c)"

definition isdigit_c :: "char \<Rightarrow> bool" where
  "isdigit_c c = (let n = of_char c :: nat in 48 \<le> n \<and> n \<le> 57)"

definition isspace_c :: "char \<Rightarrow> bool" where
  "isspace_c c = (let n = of_char c :: nat in n = 32 \<or> (9 \<le> n \<and> n \<le> 13))"

definition digit_val :: "char \<Rightarrow> nat" where
  "digit_val c = of_char c - 48"

definition digits_val :: "bytes \<Rightarrow> nat" where
  "digits_val ds = foldl (\<lambda>a c. 10 * a + digit_val c) 0 ds"

text \<open>\<^verbatim>\<open>std::to_string\<close> on a non-negative value: its decimal digits.\<close>

fun to_string :: "nat \<Rightarrow> bytes" where
  "to_string n =
     (if n < 10 then [char_of (48 + n)] else to_string (n div 10) @ [char_of (48 + n mod 10)])"

declare to_string.simps [simp del]

definition long_max :: int where
  "long_max = 2 ^ 63 - 1"

definition long_min :: int where
  "long_min = - (2 ^ 63)"

text \<open>
  \<^verbatim>\<open>strtol(s, &end, 10)\<close> on a NUL-free C string: the value, saturated to \<^verbatim>\<open>long\<close>, and
  the text at \<^verbatim>\<open>end\<close>. Without a digit it returns 0 and \<^verbatim>\<open>end\<close> is the start.
\<close>

definition strtol10 :: "bytes \<Rightarrow> int \<times> bytes" where
  "strtol10 s =
     (let t = dropWhile isspace_c s;
          neg = (t \<noteq> [] \<and> hd t = CHR ''-'');
          u = (if t \<noteq> [] \<and> (hd t = CHR ''-'' \<or> hd t = CHR ''+'') then tl t else t);
          ds = takeWhile isdigit_c u;
          v = (if neg then - int (digits_val ds) else int (digits_val ds))
      in if ds = [] then (0, s) else (max long_min (min long_max v), dropWhile isdigit_c u))"

subsection \<open>System calls\<close>

text \<open>\<^verbatim>\<open>errno\<close> values the sources distinguish; every other one is \<open>EOther\<close>.\<close>

datatype errno = EINTR | EAGAIN | EWOULDBLOCK | EEXIST | EOther nat

datatype 'a sysret = Ret 'a | Err errno

subsection \<open>Lemmas: searching\<close>

lemma str_find_Some_iff:
  "str_find p s = Some i \<longleftrightarrow>
     i \<le> length s \<and> prefix p (drop i s) \<and> (\<forall>j<i. \<not> prefix p (drop j s))"
proof (induction s arbitrary: i)
  case Nil
  then show ?case by auto
next
  case (Cons c cs)
  show ?case
  proof (cases i)
    case 0
    then show ?thesis by simp
  next
    case (Suc k)
    have "(\<forall>j<Suc k. \<not> prefix p (drop j (c # cs))) \<longleftrightarrow>
          \<not> prefix p (c # cs) \<and> (\<forall>j<k. \<not> prefix p (drop j cs))"
      by (metis drop_0 drop_Suc_Cons less_Suc_eq_0_disj)
    with Suc Cons.IH [of k] show ?thesis by auto
  qed
qed

lemma str_find_None_iff: "str_find p s = None \<longleftrightarrow> (\<forall>j\<le>length s. \<not> prefix p (drop j s))"
proof (induction s)
  case Nil
  then show ?case by auto
next
  case (Cons c cs)
  have "(\<forall>j\<le>Suc (length cs). \<not> prefix p (drop j (c # cs))) \<longleftrightarrow>
        \<not> prefix p (c # cs) \<and> (\<forall>j\<le>length cs. \<not> prefix p (drop j cs))"
    by (metis Suc_le_mono drop_0 drop_Suc_Cons le0 not0_implies_Suc)
  with Cons show ?case by simp
qed

lemma str_find_SomeD:
  assumes "str_find p s = Some i"
  shows "i + length p \<le> length s" and "take (length p) (drop i s) = p"
    and "s = take i s @ p @ drop (i + length p) s"
proof -
  from assms have le: "i \<le> length s" and pre: "prefix p (drop i s)"
    by (simp_all add: str_find_Some_iff)
  from pre obtain t where t: "drop i s = p @ t" by (rule prefixE)
  from t have "length (drop i s) = length p + length t" by simp
  with le show "i + length p \<le> length s" by simp
  from t show "take (length p) (drop i s) = p" by simp
  have "drop (i + length p) s = t"
    using t by (metis add.commute append_eq_conv_conj drop_drop)
  with t show "s = take i s @ p @ drop (i + length p) s"
    by (metis append_take_drop_id)
qed

lemma str_find_le: "str_find p s = Some i \<Longrightarrow> i + length p \<le> length s"
  by (rule str_find_SomeD(1))

lemma str_find_char:
  "str_find [c] s = (if c \<in> set s then Some (length (takeWhile (\<lambda>x. x \<noteq> c) s)) else None)"
  by (induction s) auto

lemma str_find_char_append [simp]:
  "c \<notin> set a \<Longrightarrow> str_find [c] (a @ c # b) = Some (length a)"
  by (induction a) auto

lemma str_find_char_None [simp]: "c \<notin> set a \<Longrightarrow> str_find [c] a = None"
  by (simp add: str_find_char)

lemma str_find_skip:
  assumes "p \<noteq> []" and "hd p \<notin> set a"
  shows "str_find p (a @ b) = map_option ((+) (length a)) (str_find p b)"
  using assms
proof (induction a)
  case Nil
  then show ?case by (cases "str_find p b") auto
next
  case (Cons x a)
  then have "\<not> prefix p (x # a @ b)" by (cases p) auto
  with Cons show ?case by (cases "str_find p b") auto
qed

lemma str_find_here [simp]: "str_find p (p @ b) = Some 0"
  by (simp add: str_find_Some_iff)

lemma str_find_from_le:
  "str_find_from p s pos = Some i \<Longrightarrow> pos \<le> i \<and> i + length p \<le> length s"
  by (auto simp: str_find_from_def split: if_splits dest!: str_find_le)

lemma str_find_from_0 [simp]: "str_find_from p s 0 = str_find p s"
  by (simp add: str_find_from_def option.map_ident_strong)

lemma length_substr: "length (substr s pos n) \<le> n"
  by (simp add: substr_def)

lemma set_substr: "set (substr s pos n) \<subseteq> set s"
  unfolding substr_def by (meson dual_order.trans set_drop_subset set_take_subset)

lemma c_str_id: "CHR 0x00 \<notin> set s \<Longrightarrow> c_str s = s"
  unfolding c_str_def by (induction s) auto

lemma c_str_NUL_free: "CHR 0x00 \<notin> set (c_str s)"
  unfolding c_str_def by (induction s) auto

lemma c_str_append: "CHR 0x00 \<notin> set a \<Longrightarrow> c_str (a @ b) = a @ c_str b"
  unfolding c_str_def by (induction a) auto

lemma length_c_str: "length (c_str s) \<le> length s"
  by (simp add: c_str_def length_takeWhile_le)

lemma str_find_append_Some: "str_find p s = Some i \<Longrightarrow> str_find p (s @ t) = Some i"
proof (induction s arbitrary: i)
  case Nil
  then show ?case by (auto split: if_splits simp: str_find_Some_iff)
next
  case (Cons c cs)
  show ?case
  proof (cases "prefix p (c # cs)")
    case True
    then have "prefix p ((c # cs) @ t)" by (rule prefix_prefix)
    with True Cons.prems show ?thesis by simp
  next
    case False
    with Cons.prems obtain k where k: "str_find p cs = Some k" "i = Suc k" by auto
    have "\<not> prefix p ((c # cs) @ t)"
    proof
      assume "prefix p ((c # cs) @ t)"
      moreover have "length p \<le> length (c # cs)" using str_find_le [OF k(1)] by simp
      ultimately have "prefix p (c # cs)" by (metis prefix_length_prefix prefixI)
      with False show False ..
    qed
    with Cons.IH [OF k(1)] k(2) show ?thesis by simp
  qed
qed

lemma length_crlf2 [simp]: "length crlf2 = 4"
  by (simp add: crlf2_def crlf_def)

lemma length_crlf [simp]: "length crlf = 2"
  by (simp add: crlf_def)

subsection \<open>Lemmas: decimal numbers\<close>

lemma digits_val_append: "digits_val (a @ [c]) = 10 * digits_val a + digit_val c"
  by (simp add: digits_val_def)

lemma digit_char: "d < 10 \<Longrightarrow> isdigit_c (char_of (48 + d)) \<and> digit_val (char_of (48 + d)) = d"
  by (simp add: isdigit_c_def digit_val_def of_char_of take_bit_eq_mod)

lemma to_string_digits: "to_string n \<noteq> [] \<and> list_all isdigit_c (to_string n) \<and> digits_val (to_string n) = n"
proof (induction n rule: to_string.induct)
  case (1 n)
  show ?case
  proof (cases "n < 10")
    case True
    then show ?thesis
      using digit_char [of n] by (subst (1 2 3) to_string.simps) (simp add: digits_val_def)
  next
    case False
    with "1" have IH: "list_all isdigit_c (to_string (n div 10))" "digits_val (to_string (n div 10)) = n div 10"
      by auto
    have "to_string n = to_string (n div 10) @ [char_of (48 + n mod 10)]"
      using False by (subst to_string.simps) simp
    with IH digit_char [of "n mod 10"] show ?thesis
      by (simp add: digits_val_append)
  qed
qed

lemma to_string_no_NUL: "CHR 0x00 \<notin> set (to_string n)"
  using to_string_digits [of n] by (auto simp: list_all_iff isdigit_c_def)

lemma isdigit_not_space: "isdigit_c c \<Longrightarrow> \<not> isspace_c c \<and> c \<noteq> CHR ''-'' \<and> c \<noteq> CHR ''+''"
  by (auto simp: isdigit_c_def isspace_c_def Let_def)

lemma strtol10_to_string:
  assumes "int n \<le> long_max" and "list_all isspace_c ws" and "rest = [] \<or> \<not> isdigit_c (hd rest)"
  shows "strtol10 (ws @ to_string n @ rest) = (int n, rest)"
proof -
  from to_string_digits [of n] obtain d ds where ds: "to_string n = d # ds"
    and all: "list_all isdigit_c (d # ds)" and v: "digits_val (d # ds) = n"
    by (cases "to_string n") auto
  have d: "\<not> isspace_c d" "d \<noteq> CHR ''-''" "d \<noteq> CHR ''+''" "isdigit_c d"
    using all isdigit_not_space [of d] by auto
  have drop: "dropWhile isspace_c (ws @ to_string n @ rest) = d # ds @ rest"
    using assms(2) d(1) ds by (simp add: list_all_iff)
  have tk: "takeWhile isdigit_c (d # ds @ rest) = d # ds"
    using all assms(3) d(4) by (cases rest) (auto simp: list_all_iff takeWhile_append2)
  have dr: "dropWhile isdigit_c (d # ds @ rest) = rest"
    using all assms(3) d(4) by (cases rest) (auto simp: list_all_iff dropWhile_append2)
  have "int n \<ge> long_min" by (simp add: long_min_def)
  with assms(1) show ?thesis
    using d by (simp add: strtol10_def drop tk dr v Let_def del: takeWhile.simps dropWhile.simps)
qed

subsection \<open>Invariants of transition systems\<close>

text \<open>The states reachable from the initial ones, for any step relation.\<close>

inductive reach :: "('s \<Rightarrow> bool) \<Rightarrow> ('s \<Rightarrow> 's \<Rightarrow> bool) \<Rightarrow> 's \<Rightarrow> bool"
  for init :: "'s \<Rightarrow> bool" and step :: "'s \<Rightarrow> 's \<Rightarrow> bool" where
  reach_init: "init s \<Longrightarrow> reach init step s"
| reach_step: "reach init step s \<Longrightarrow> step s t \<Longrightarrow> reach init step t"

text \<open>
  The contract between a concurrent component and its safety properties: an inductive
  invariant. The thread pool, the connection pools and the server interpret it.
\<close>

locale inductive_invariant =
  fixes init :: "'s \<Rightarrow> bool"
    and step :: "'s \<Rightarrow> 's \<Rightarrow> bool"
    and inv :: "'s \<Rightarrow> bool"
  assumes inv_init: "init s \<Longrightarrow> inv s"
    and inv_step: "inv s \<Longrightarrow> step s t \<Longrightarrow> inv t"
begin

lemma reach_inv: "reach init step s \<Longrightarrow> inv s"
  by (induction rule: reach.induct) (auto intro: inv_init inv_step)

end

end
