(* ===== verification/Config.thy ===== *)
theory Config
  imports Prelude
begin

section \<open>Configuration\<close>

text \<open>
  \<^verbatim>\<open>src/include/Config.h\<close>: the environment readers \<open>envOr\<close> and \<open>envOrInt\<close>, the
  settings built from them and the compile-time limits. The process environment is the
  parameter \<open>getenv\<close>. \<open>envOrInt\<close> keeps the C types: \<^verbatim>\<open>strtol\<close> saturates to 64 bits and
  the result is converted to a 32-bit \<^verbatim>\<open>int\<close>.
\<close>

type_synonym environ = "bytes \<Rightarrow> bytes option"

definition envOr :: "environ \<Rightarrow> bytes \<Rightarrow> bytes \<Rightarrow> bytes" where
  "envOr getenv name defval =
     (case getenv name of Some v \<Rightarrow> (if v \<noteq> [] then v else defval) | None \<Rightarrow> defval)"

text \<open>The conversion \<^verbatim>\<open>(int)n\<close> of a \<^verbatim>\<open>long\<close>: the low 32 bits, read as signed.\<close>

definition long_to_int :: "int \<Rightarrow> int" where
  "long_to_int n = signed_take_bit 31 n"

definition envOrInt :: "environ \<Rightarrow> bytes \<Rightarrow> int \<Rightarrow> int" where
  "envOrInt getenv name defval =
     (case getenv name of
        None \<Rightarrow> defval
      | Some v \<Rightarrow>
          if v = [] then defval
          else (case strtol10 v of
                  (n, end) \<Rightarrow> if end \<noteq> [] \<or> n \<le> 0 then defval else long_to_int n))"

definition serverHost :: "environ \<Rightarrow> bytes" where
  "serverHost getenv = envOr getenv ''MYSERVER_HOST'' ''127.0.0.1''"

definition serverPort :: "environ \<Rightarrow> int" where
  "serverPort getenv = envOrInt getenv ''MYSERVER_PORT'' 8888"

definition staticDir :: "environ \<Rightarrow> bytes" where
  "staticDir getenv = envOr getenv ''MYSERVER_STATIC_DIR'' ''../static''"

definition kDbThreads :: nat where
  "kDbThreads = 4"

definition dbHost :: "environ \<Rightarrow> bytes" where
  "dbHost getenv = envOr getenv ''MYSERVER_DB_HOST'' ''127.0.0.1''"

definition dbUser :: "environ \<Rightarrow> bytes" where
  "dbUser getenv = envOr getenv ''MYSERVER_DB_USER'' ''root''"

definition dbPasswd :: "environ \<Rightarrow> bytes" where
  "dbPasswd getenv = envOr getenv ''MYSERVER_DB_PASSWD'' ''admin''"

definition dbName :: "environ \<Rightarrow> bytes" where
  "dbName getenv = envOr getenv ''MYSERVER_DB_NAME'' ''myserver''"

definition dbPort :: "environ \<Rightarrow> 32 word" where
  "dbPort getenv = word_of_int (envOrInt getenv ''MYSERVER_DB_PORT'' 3306)"

definition kDbMaxConn :: nat where
  "kDbMaxConn = 8"

definition redisHost :: "environ \<Rightarrow> bytes" where
  "redisHost getenv = envOr getenv ''MYSERVER_REDIS_HOST'' ''127.0.0.1''"

definition redisPort :: "environ \<Rightarrow> 32 word" where
  "redisPort getenv = word_of_int (envOrInt getenv ''MYSERVER_REDIS_PORT'' 6379)"

definition kRedisMaxConn :: nat where
  "kRedisMaxConn = 8"

definition kMaxUsernameLen :: nat where
  "kMaxUsernameLen = 64"

definition kMaxPasswordLen :: nat where
  "kMaxPasswordLen = 128"

definition kUserCacheTtlSec :: nat where
  "kUserCacheTtlSec = 300"

definition kSessionTtlSec :: nat where
  "kSessionTtlSec = 3600"

definition kTokenLen :: nat where
  "kTokenLen = 32"

definition kIdleTimeoutSec :: int where
  "kIdleTimeoutSec = 60"

definition kMaxHeaderBytes :: nat where
  "kMaxHeaderBytes = 16 * 1024"

definition kMaxBodyBytes :: nat where
  "kMaxBodyBytes = 1 * 1024 * 1024"

definition kRateLimitQps :: int where
  "kRateLimitQps = 0"

subsection \<open>Properties\<close>

lemma long_to_int_id: "- (2 ^ 31) \<le> n \<Longrightarrow> n < 2 ^ 31 \<Longrightarrow> long_to_int n = n"
  unfolding long_to_int_def by (rule signed_take_bit_int_eq_self) simp_all

lemma envOrInt_to_string:
  assumes "getenv name = Some (to_string n)" and "0 < n" and "n < 2 ^ 31"
  shows "envOrInt getenv name defval = int n"
proof -
  have "strtol10 (to_string n) = (int n, [])"
    using strtol10_to_string [of n "[]" "[]"] assms by (simp add: long_max_def)
  moreover have "long_to_int (int n) = int n"
    using assms by (intro long_to_int_id) simp_all
  ultimately show ?thesis
    using assms to_string_digits [of n] by (simp add: envOrInt_def)
qed

text \<open>
  A number that is in range is the value used, but a value of \<open>2 ^ 32\<close> passes the validation (it is a number and
  positive as a \<^verbatim>\<open>long\<close>) and the conversion to \<^verbatim>\<open>int\<close> then makes it 0.
\<close>

lemma envOrInt_wraps_to_zero:
  "envOrInt (\<lambda>v. Some ''4294967296'') name defval = 0"
proof -
  have "strtol10 ''4294967296'' = (4294967296, [])"
    by (simp add: strtol10_def isspace_c_def isdigit_c_def digits_val_def digit_val_def
        long_max_def long_min_def)
  then show ?thesis
    by (simp add: envOrInt_def long_to_int_def signed_take_bit_int_eq_self_iff
        signed_take_bit_eq_if_positive)
qed

end
