(* ===== verification/HttpParse.thy ===== *)
theory HttpParse
  imports Config
begin

section \<open>HTTP and JSON parsing\<close>

text \<open>
  The parsing functions of \<^verbatim>\<open>src/Connection.cpp\<close>: request line, header lookup, bearer
  token, the ad-hoc JSON field reader, JSON escaping, \<^verbatim>\<open>Content-Length\<close>, keep-alive, and
  the framing decision at the head of \<open>processRequests\<close>.
\<close>

subsection \<open>Request line and body\<close>

definition parseMethod :: "bytes \<Rightarrow> bytes" where
  "parseMethod request =
     (case str_find '' '' request of None \<Rightarrow> ''GET'' | Some pos \<Rightarrow> substr request 0 pos)"

definition parseUrl :: "bytes \<Rightarrow> bytes" where
  "parseUrl request =
     (case str_find '' '' request of
        None \<Rightarrow> ''/''
      | Some pos1 \<Rightarrow>
          (case str_find_from '' '' request (pos1 + 1) of
             None \<Rightarrow> ''/''
           | Some pos2 \<Rightarrow> substr request (pos1 + 1) (pos2 - pos1 - 1)))"

definition parseBody :: "bytes \<Rightarrow> bytes" where
  "parseBody request =
     (case str_find crlf2 request of None \<Rightarrow> [] | Some pos \<Rightarrow> substr_to_end request (pos + 4))"

text \<open>The text \<open>"key":"\<close> the JSON reader looks for (34 is the double quote).\<close>

definition json_search :: "bytes \<Rightarrow> bytes" where
  "json_search key = [CHR 0x22] @ key @ [CHR 0x22, CHR '':'', CHR 0x22]"

definition getJsonValue :: "bytes \<Rightarrow> bytes \<Rightarrow> bytes" where
  "getJsonValue json key =
     (let search = json_search key
      in case str_find search json of
           None \<Rightarrow> []
         | Some p \<Rightarrow>
             (let pos = p + length search
              in case str_find_from [CHR 0x22] json pos of
                   None \<Rightarrow> []
                 | Some e \<Rightarrow> substr json pos (e - pos)))"

subsection \<open>Headers\<close>

definition is_blank :: "char \<Rightarrow> bool" where
  "is_blank c = (c = CHR '' '' \<or> c = CHR 0x09)"

text \<open>The loop that pops trailing blanks off a field name.\<close>

definition rtrim :: "bytes \<Rightarrow> bytes" where
  "rtrim s = rev (dropWhile is_blank (rev s))"

text \<open>One run of the loop of \<open>findHeader\<close> from position \<open>p\<close>.\<close>

function findHeader_from :: "bytes \<Rightarrow> bytes \<Rightarrow> nat \<Rightarrow> bytes" where
  "findHeader_from headers lowerName p =
     (if p < length headers then
        (let e = (case str_find_from crlf headers p of None \<Rightarrow> length headers | Some e \<Rightarrow> e);
             line = substr headers p (e - p)
         in case str_find '':'' line of
              None \<Rightarrow> findHeader_from headers lowerName (e + 2)
            | Some colon \<Rightarrow>
                (let name = rtrim (map char_tolower (substr line 0 colon))
                 in if name = lowerName then substr_to_end line (colon + 1)
                    else findHeader_from headers lowerName (e + 2)))
      else [])"
  by pat_completeness auto
termination
proof (relation "measure (\<lambda>(headers, lowerName, p). length headers - p)", goal_cases)
  case 1
  then show ?case by simp
next
  case (2 headers lowerName p e line)
  then have "p \<le> e" by (auto split: option.splits dest: str_find_from_le)
  with 2 show ?case by simp
next
  case (3 headers lowerName p e line colon name)
  then have "p \<le> e" by (auto split: option.splits dest: str_find_from_le)
  with 3 show ?case by simp
qed

declare findHeader_from.simps [simp del]

definition findHeader :: "bytes \<Rightarrow> bytes \<Rightarrow> bytes" where
  "findHeader headers lowerName = findHeader_from headers lowerName 0"

text \<open>\<^verbatim>\<open>value.find_first_not_of(" \t")\<close> and \<^verbatim>\<open>token.find_last_not_of(" \t")\<close>.\<close>

definition first_not_blank :: "bytes \<Rightarrow> nat option" where
  "first_not_blank s =
     (if list_all is_blank s then None else Some (length (takeWhile is_blank s)))"

definition last_not_blank :: "bytes \<Rightarrow> nat option" where
  "last_not_blank s = (if list_all is_blank s then None else Some (length (rtrim s) - 1))"

definition parseBearerToken :: "bytes \<Rightarrow> bytes" where
  "parseBearerToken request =
     (let headers = (case str_find crlf2 request of
                       None \<Rightarrow> request
                     | Some headerEnd \<Rightarrow> substr request 0 headerEnd);
          value = findHeader headers ''authorization''
      in case first_not_blank value of
           None \<Rightarrow> []
         | Some b \<Rightarrow>
             (let value = substr_to_end value b;
                  scheme = ''bearer ''
              in if length value < length scheme then []
                 else if map char_tolower (substr value 0 (length scheme)) \<noteq> scheme then []
                 else let token = substr_to_end value (length scheme)
                      in case last_not_blank token of
                           None \<Rightarrow> []
                         | Some e \<Rightarrow>
                             (let token = substr token 0 (e + 1)
                              in if length token > kTokenLen * 2 then [] else token)))"

subsection \<open>JSON escaping\<close>

definition hex_digit :: "nat \<Rightarrow> char" where
  "hex_digit n = (if n < 10 then char_of (48 + n) else char_of (87 + n))"

text \<open>\<^verbatim>\<open>snprintf(buf, 8, "\u%04x", c)\<close> for a byte below 0x20 (92 is the backslash).\<close>

definition json_u_escape :: "char \<Rightarrow> bytes" where
  "json_u_escape c =
     (let n = of_char c in [CHR 0x5C] @ ''u00'' @ [hex_digit (n div 16), hex_digit (n mod 16)])"

definition json_escape_char :: "char \<Rightarrow> bytes" where
  "json_escape_char c =
     (if c = CHR 0x22 then [CHR 0x5C, CHR 0x22]
      else if c = CHR 0x5C then [CHR 0x5C, CHR 0x5C]
      else if c = CHR 0x0A then [CHR 0x5C, CHR ''n'']
      else if c = CHR 0x0D then [CHR 0x5C, CHR ''r'']
      else if c = CHR 0x09 then [CHR 0x5C, CHR ''t'']
      else if (of_char c :: nat) < 0x20 then json_u_escape c
      else [c])"

definition jsonEscape :: "bytes \<Rightarrow> bytes" where
  "jsonEscape s = concat (map json_escape_char s)"

subsection \<open>Length, persistence, framing\<close>

definition requestContentLength :: "bytes \<Rightarrow> nat" where
  "requestContentLength headers =
     (let value = findHeader headers ''content-length''
      in if value = [] then 0
         else let v = fst (strtol10 (c_str value)) in if v > 0 then nat v else 0)"

definition wantKeepAlive :: "bytes \<Rightarrow> bytes \<Rightarrow> bool" where
  "wantKeepAlive request headers =
     (let connVal = map char_tolower (findHeader headers ''connection'')
      in if str_find ''close'' connVal \<noteq> None then False
         else if str_find ''keep-alive'' connVal \<noteq> None then True
         else str_find ''HTTP/1.1'' request \<noteq> None)"

text \<open>
  The head of one round of \<open>processRequests\<close>: what the bytes received so far amount to.
  \<^verbatim>\<open>total\<close> is computed in \<^verbatim>\<open>size_t\<close>, so its wrap-around is written out.
\<close>

datatype frame =
  NeedMore
| HeaderTooLarge
| BodyTooLarge
| Framed (frame_headers: bytes) (frame_request: bytes) (frame_rest: bytes)

definition next_frame :: "bytes \<Rightarrow> frame" where
  "next_frame inputBuffer =
     (case str_find crlf2 inputBuffer of
        None \<Rightarrow>
          if kMaxHeaderBytes > 0 \<and> length inputBuffer > kMaxHeaderBytes then HeaderTooLarge
          else NeedMore
      | Some headerEnd \<Rightarrow>
          (let headers = substr inputBuffer 0 headerEnd;
               bodyLen = requestContentLength headers
           in if kMaxBodyBytes > 0 \<and> bodyLen > kMaxBodyBytes then BodyTooLarge
              else let total = (headerEnd + 4 + bodyLen) mod 2 ^ 64
                   in if length inputBuffer < total then NeedMore
                      else Framed headers (substr inputBuffer 0 total)
                             (substr_to_end inputBuffer total)))"

subsection \<open>Reference notions: lines, fields, JSON string literals\<close>

text \<open>
  What the header scanner should compute, stated on the list of lines: the value of the
  first line whose field name matches. A message is a list of non-empty CR-free lines
  joined by CRLF, an empty line and a body.
\<close>

fun lines_of :: "bytes \<Rightarrow> bytes list" where
  "lines_of s =
     (if s = [] then []
      else case str_find crlf s of
             None \<Rightarrow> [s]
           | Some e \<Rightarrow> take e s # lines_of (drop (e + 2) s))"

declare lines_of.simps [simp del]

definition header_name :: "bytes \<Rightarrow> bytes option" where
  "header_name l =
     map_option (\<lambda>colon. rtrim (map char_tolower (take colon l))) (str_find '':'' l)"

definition header_value :: "bytes \<Rightarrow> bytes" where
  "header_value l = (case str_find '':'' l of None \<Rightarrow> [] | Some colon \<Rightarrow> drop (colon + 1) l)"

definition header_lookup :: "bytes list \<Rightarrow> bytes \<Rightarrow> bytes" where
  "header_lookup ls name =
     (case find (\<lambda>l. header_name l = Some name) ls of None \<Rightarrow> [] | Some l \<Rightarrow> header_value l)"

fun join_crlf :: "bytes list \<Rightarrow> bytes" where
  "join_crlf [] = []"
| "join_crlf [l] = l"
| "join_crlf (l # l' # ls) = l @ crlf @ join_crlf (l' # ls)"

definition good_line :: "bytes \<Rightarrow> bool" where
  "good_line l \<longleftrightarrow> l \<noteq> [] \<and> CHR 0x0D \<notin> set l"

lemma lines_of_Nil [simp]: "lines_of [] = []"
  by (simp add: lines_of.simps)

lemma lines_of_one [simp]: "good_line l \<Longrightarrow> lines_of l = [l]"
  using str_find_skip [of crlf l "[]"]
  by (subst lines_of.simps) (auto simp: good_line_def crlf_def)

lemma lines_of_cons [simp]: "good_line l \<Longrightarrow> lines_of (l @ crlf @ s) = l # lines_of s"
  using str_find_skip [of crlf l "crlf @ s"]
  by (subst lines_of.simps) (auto simp: good_line_def crlf_def)

lemma lines_of_join: "list_all good_line ls \<Longrightarrow> lines_of (join_crlf ls) = ls"
  by (induction ls rule: join_crlf.induct) auto

lemma join_crlf_hd: "ls \<noteq> [] \<Longrightarrow> list_all good_line ls \<Longrightarrow> \<exists>c cs. join_crlf ls = c # cs \<and> c \<noteq> CHR 0x0D"
  by (cases ls rule: join_crlf.cases) (auto simp: good_line_def neq_Nil_conv)

lemma crlf2_skip_crlf:
  assumes "c \<noteq> CHR 0x0D"
  shows "str_find crlf2 (crlf @ c # cs) = map_option ((+) 2) (str_find crlf2 (c # cs))"
  using assms by (cases "str_find crlf2 cs") (simp_all add: crlf2_def crlf_def)

lemma find_crlf2_join:
  assumes "ls \<noteq> []" and "list_all good_line ls"
  shows "str_find crlf2 (join_crlf ls @ crlf2 @ b) = Some (length (join_crlf ls))"
  using assms
proof (induction ls rule: join_crlf.induct)
  case 1
  then show ?case by simp
next
  case (2 l)
  then show ?case
    using str_find_skip [of crlf2 l "crlf2 @ b"] by (simp add: good_line_def) (simp add: crlf2_def crlf_def)
next
  case (3 l l' ls)
  then have l: "CHR 0x0D \<notin> set l" by (simp add: good_line_def)
  obtain c cs where c: "join_crlf (l' # ls) = c # cs" "c \<noteq> CHR 0x0D"
    using join_crlf_hd [of "l' # ls"] 3 by auto
  have "str_find crlf2 (crlf @ join_crlf (l' # ls) @ crlf2 @ b)
          = Some (2 + length (join_crlf (l' # ls)))"
    using crlf2_skip_crlf [OF c(2), of "cs @ crlf2 @ b"] 3 c(1) by simp
  then show ?case
    using str_find_skip [of crlf2 l "crlf @ join_crlf (l' # ls) @ crlf2 @ b"] l
    by (simp add: crlf2_def crlf_def)
qed

lemma take_crlf2_join: "take (length (join_crlf ls)) (join_crlf ls @ x) = join_crlf ls"
  by simp

subsection \<open>The header scanner computes the reference lookup\<close>

lemma findHeader_from_lines:
  "findHeader_from headers n p = header_lookup (lines_of (drop p headers)) n"
proof (induction headers n p rule: findHeader_from.induct)
  case (1 headers n p)
  show ?case
  proof (cases "p < length headers")
    case False
    then show ?thesis by (simp add: findHeader_from.simps [of headers n p] header_lookup_def)
  next
    case True
    define e where "e = (case str_find_from crlf headers p of None \<Rightarrow> length headers | Some e \<Rightarrow> e)"
    define line where "line = substr headers p (e - p)"
    have lines: "lines_of (drop p headers) = line # lines_of (drop (e + 2) headers)"
      using True
      by (subst lines_of.simps)
        (auto simp: e_def line_def substr_def str_find_from_def lines_of.simps [of "[]"] add.assoc
          add.commute split: option.splits)
    have IH1: "str_find '':'' line = None \<Longrightarrow>
        findHeader_from headers n (e + 2) = header_lookup (lines_of (drop (e + 2) headers)) n"
      using "1.IH"(1) [OF True e_def line_def] by simp
    have IH2: "\<And>colon. str_find '':'' line = Some colon \<Longrightarrow>
        rtrim (map char_tolower (substr line 0 colon)) \<noteq> n \<Longrightarrow>
        findHeader_from headers n (e + 2) = header_lookup (lines_of (drop (e + 2) headers)) n"
      using "1.IH"(2) [OF True e_def line_def] by blast
    have unf: "findHeader_from headers n p =
       (case str_find '':'' line of
              None \<Rightarrow> findHeader_from headers n (e + 2)
            | Some colon \<Rightarrow>
                (if rtrim (map char_tolower (substr line 0 colon)) = n then substr_to_end line (colon + 1)
                    else findHeader_from headers n (e + 2)))"
      by (subst findHeader_from.simps) (simp only: True if_True Let_def e_def line_def)
    show ?thesis
    proof (cases "str_find '':'' line")
      case None
      with unf IH1 lines show ?thesis by (simp add: header_lookup_def header_name_def)
    next
      case (Some colon)
      with unf IH2 [OF Some] lines show ?thesis
        by (auto simp: header_lookup_def header_name_def header_value_def substr_def substr_to_end_def)
    qed
  qed
qed

lemma findHeader_lookup: "findHeader headers n = header_lookup (lines_of headers) n"
  by (simp add: findHeader_def findHeader_from_lines)

lemma header_lookup_Nil [simp]: "header_lookup [] n = []"
  by (simp add: header_lookup_def)

lemma header_lookup_Cons [simp]:
  "header_lookup (l # ls) n = (if header_name l = Some n then header_value l else header_lookup ls n)"
  by (simp add: header_lookup_def)

lemma header_name_field [simp]:
  "CHR '':'' \<notin> set nm \<Longrightarrow> header_name (nm @ CHR '':'' # v) = Some (rtrim (map char_tolower nm))"
  by (simp add: header_name_def)

lemma header_value_field [simp]:
  "CHR '':'' \<notin> set nm \<Longrightarrow> header_value (nm @ CHR '':'' # v) = v"
  by (simp add: header_value_def)

subsection \<open>JSON string literals\<close>

text \<open>
  A reader of the body of a JSON string literal, up to its closing quote: it decodes the
  escapes and refuses raw control characters.
\<close>

definition hex_val :: "char \<Rightarrow> nat option" where
  "hex_val c =
     (let n = of_char c in
      if 48 \<le> n \<and> n \<le> 57 then Some (n - 48)
      else if 97 \<le> n \<and> n \<le> 102 then Some (n - 87) else None)"

fun json_read :: "bytes \<Rightarrow> (bytes \<times> bytes) option" where
  "json_read [] = None"
| "json_read (c # cs) =
     (if c = CHR 0x22 then Some ([], cs)
      else if c = CHR 0x5C then
        (case cs of
           [] \<Rightarrow> None
         | e # r \<Rightarrow>
             if e = CHR 0x22 \<or> e = CHR 0x5C then map_option (map_prod ((#) e) id) (json_read r)
             else if e = CHR ''n'' then map_option (map_prod ((#) (CHR 0x0A)) id) (json_read r)
             else if e = CHR ''r'' then map_option (map_prod ((#) (CHR 0x0D)) id) (json_read r)
             else if e = CHR ''t'' then map_option (map_prod ((#) (CHR 0x09)) id) (json_read r)
             else if e = CHR ''u'' then
               (case r of
                  a # b # x # y # r' \<Rightarrow>
                    (case (hex_val a, hex_val b, hex_val x, hex_val y) of
                       (Some 0, Some 0, Some m, Some n) \<Rightarrow>
                         map_option (map_prod ((#) (char_of (16 * m + n))) id) (json_read r')
                     | _ \<Rightarrow> None)
                | _ \<Rightarrow> None)
             else None)
      else if (of_char c :: nat) < 0x20 then None
      else map_option (map_prod ((#) c) id) (json_read cs))"

lemma hex_val_hex_digit: "n < 16 \<Longrightarrow> hex_val (hex_digit n) = Some n"
  by (auto simp: hex_val_def hex_digit_def of_char_of take_bit_eq_mod Let_def)

lemma hex_val_0 [simp]: "hex_val (CHR ''0'') = Some 0"
  by (simp add: hex_val_def)

lemma json_read_escape_char:
  "json_read (json_escape_char c @ t) = map_option (map_prod ((#) c) id) (json_read t)"
proof (cases "json_escape_char c = json_u_escape c \<and> (of_char c :: nat) < 32")
  case True
  then have "(of_char c :: nat) < 32" by simp
  then have "(of_char c :: nat) div 16 < 16" "(of_char c :: nat) mod 16 < 16" by linarith+
  then have "hex_val (hex_digit (of_char c div 16)) = Some (of_char c div 16)"
    "hex_val (hex_digit (of_char c mod 16)) = Some (of_char c mod 16)"
    by (simp_all only: hex_val_hex_digit)
  with True show ?thesis by (simp add: json_u_escape_def Let_def)
next
  case False
  then show ?thesis
    by (auto simp: json_escape_char_def json_u_escape_def Let_def split: if_splits)
qed

lemma json_read_jsonEscape: "json_read (jsonEscape s @ CHR 0x22 # rest) = Some (s, rest)"
proof (induction s)
  case Nil
  then show ?case by (simp add: jsonEscape_def)
next
  case (Cons c s)
  then show ?case
    by (simp add: jsonEscape_def json_read_escape_char del: json_read.simps)
qed

definition http_message :: "bytes list \<Rightarrow> bytes \<Rightarrow> bytes" where
  "http_message ls body = join_crlf ls @ crlf2 @ body"

lemma str_find_crlf2_message [simp]:
  "ls \<noteq> [] \<Longrightarrow> list_all good_line ls \<Longrightarrow>
   str_find crlf2 (http_message ls body) = Some (length (join_crlf ls))"
  by (simp add: http_message_def find_crlf2_join)

lemma str_find_crlf2_message_append [simp]:
  "ls \<noteq> [] \<Longrightarrow> list_all good_line ls \<Longrightarrow>
   str_find crlf2 (http_message ls body @ rest) = Some (length (join_crlf ls))"
  by (rule str_find_append_Some) simp

lemma take_message [simp]: "take (length (join_crlf ls)) (http_message ls body) = join_crlf ls"
  by (simp add: http_message_def)

lemma length_message [simp]:
  "length (http_message ls body) = length (join_crlf ls) + 4 + length body"
  by (simp add: http_message_def)

lemma parseBody_message:
  "ls \<noteq> [] \<Longrightarrow> list_all good_line ls \<Longrightarrow> parseBody (http_message ls body) = body"
  by (simp add: parseBody_def substr_to_end_def) (simp add: http_message_def crlf2_def crlf_def)

subsection \<open>Bearer tokens\<close>

lemma rtrim_blanks [simp]: "list_all is_blank bs \<Longrightarrow> rtrim (a @ bs) = rtrim a"
  by (induction bs rule: rev_induct) (simp_all add: rtrim_def)

lemma rtrim_id: "a = [] \<or> \<not> is_blank (last a) \<Longrightarrow> rtrim a = a"
  by (cases a rule: rev_cases) (auto simp: rtrim_def)

lemma tolower_b_not_blank: "char_tolower c = CHR ''b'' \<Longrightarrow> \<not> is_blank c"
  by (auto simp: is_blank_def char_tolower_def)

lemma parseBearerToken_value:
  assumes "ls \<noteq> []" and "list_all good_line ls"
    and "header_lookup ls ''authorization'' = b1 @ scheme @ token @ b2"
    and "list_all is_blank b1" and "list_all is_blank b2"
    and "map char_tolower scheme = ''bearer ''"
    and "token \<noteq> []" and "\<not> is_blank (last token)" and "length token \<le> 64"
  shows "parseBearerToken (http_message ls body) = token"
proof -
  define val where "val = findHeader (join_crlf ls) ''authorization''"
  have v: "val = b1 @ scheme @ token @ b2"
    using assms(2,3) by (simp add: val_def findHeader_lookup lines_of_join)
  from assms(6) obtain s ss where s: "scheme = s # ss" and "char_tolower s = CHR ''b''"
    by (cases scheme) auto
  then have nb: "\<not> is_blank s" by (simp add: tolower_b_not_blank)
  have len: "length scheme = 7" using arg_cong [OF assms(6), of length] by simp
  have first: "first_not_blank val = Some (length b1)"
    using assms(4) nb by (auto simp: first_not_blank_def v s list_all_iff takeWhile_append2)
  have last: "last_not_blank (token @ b2) = Some (length token - 1)"
    using assms(5,7,8) by (auto simp: last_not_blank_def list_all_iff rtrim_id)
  show ?thesis
    using assms first last len
    by (simp add: parseBearerToken_def substr_def substr_to_end_def val_def [symmetric] v kTokenLen_def)
qed

lemma parseBearerToken_length: "length (parseBearerToken request) \<le> 2 * kTokenLen"
  by (simp add: parseBearerToken_def Let_def split: option.split)

subsection \<open>JSON fields\<close>

lemma prefix_field:
  assumes "q \<notin> set a" "q \<notin> set u"
  shows "prefix (a @ q # x) (u @ q # y) \<longleftrightarrow> a = u \<and> prefix x y"
  using assms
proof (induction a arbitrary: u)
  case Nil
  then show ?case by (cases u) auto
next
  case (Cons c a)
  then show ?case by (cases u) auto
qed

lemma getJsonValue_at:
  assumes "str_find (json_search key) json = Some (length pre)"
    and "json = pre @ json_search key @ v @ CHR 0x22 # rest" and "CHR 0x22 \<notin> set v"
  shows "getJsonValue json key = v"
proof -
  have "str_find_from [CHR 0x22] json (length pre + length (json_search key))
          = Some (length pre + length (json_search key) + length v)"
    using assms(2,3) by (simp add: str_find_from_def)
  with assms show ?thesis
    by (simp add: getJsonValue_def Let_def substr_def)
qed

text \<open>The request body the web page sends: \<^verbatim>\<open>JSON.stringify({username, password})\<close>.\<close>

definition credentials_json :: "bytes \<Rightarrow> bytes \<Rightarrow> bytes" where
  "credentials_json u p =
     ''{'' @ json_search ''username'' @ u @ [CHR 0x22] @ '','' @ json_search ''password'' @ p @ [CHR 0x22] @ ''}''"

lemma getJsonValue_username:
  "CHR 0x22 \<notin> set u \<Longrightarrow> getJsonValue (credentials_json u p) ''username'' = u"
  by (rule getJsonValue_at [of _ _ "''{''"]) (simp_all add: credentials_json_def json_search_def)

lemma getJsonValue_password:
  assumes "CHR 0x22 \<notin> set u" and "CHR 0x22 \<notin> set p"
  shows "getJsonValue (credentials_json u p) ''password'' = p"
proof (rule getJsonValue_at [of _ _ "''{'' @ json_search ''username'' @ u @ [CHR 0x22] @ '',''"])
  let ?s = "json_search ''password''"
  let ?t = "?s @ p @ [CHR 0x22] @ ''}''"
  have q: "\<not> prefix ?s (CHR 0x22 # u @ CHR 0x22 # CHR '','' # ?t)"
    using prefix_field [of "CHR 0x22" "''password''" u "'':'' @ [CHR 0x22]" "CHR '','' # ?t"] assms(1)
    by (simp add: json_search_def)
  have "str_find ?s (u @ CHR 0x22 # CHR '','' # ?t) = Some (length u + 2)"
    using str_find_skip [of ?s u "CHR 0x22 # CHR '','' # ?t"] assms(1) by (simp add: json_search_def)
  with q show "str_find ?s (credentials_json u p) =
      Some (length (''{'' @ json_search ''username'' @ u @ [CHR 0x22] @ '',''))"
    by (simp add: credentials_json_def json_search_def)
qed (simp_all add: credentials_json_def assms)

subsection \<open>Content length and framing\<close>

lemma requestContentLength_lines:
  assumes "list_all good_line ls" and "header_lookup ls ''content-length'' = '' '' @ to_string n"
    and "int n \<le> long_max"
  shows "requestContentLength (join_crlf ls) = n"
proof -
  have "c_str ('' '' @ to_string n) = '' '' @ to_string n"
    by (rule c_str_id) (simp add: to_string_no_NUL)
  moreover have "strtol10 ('' '' @ to_string n) = (int n, [])"
    using strtol10_to_string [of n "'' ''" "[]"] assms(3) by (simp add: isspace_c_def)
  ultimately show ?thesis
    using assms(1,2) by (simp add: requestContentLength_def findHeader_lookup lines_of_join)
qed

lemma next_frame_message:
  assumes "ls \<noteq> []" and "list_all good_line ls"
    and "requestContentLength (join_crlf ls) = length body" and "length body \<le> kMaxBodyBytes"
    and "length (join_crlf ls) < 2 ^ 63"
  shows "next_frame (http_message ls body @ rest) = Framed (join_crlf ls) (http_message ls body) rest"
proof -
  have "(length (join_crlf ls) + 4 + length body) mod 2 ^ 64 = length (join_crlf ls) + 4 + length body"
    using assms(4,5) by (intro mod_less) (simp add: kMaxBodyBytes_def)
  with assms show ?thesis
    by (simp add: next_frame_def Let_def substr_def substr_to_end_def)
qed

lemma next_frame_FramedD:
  assumes "next_frame b = Framed h r rest" and "length b < 2 ^ 63"
  shows "b = r @ rest" and "length h + 4 \<le> length r" and "prefix (h @ crlf2) r"
    and "length r = length h + 4 + requestContentLength h" and "requestContentLength h \<le> kMaxBodyBytes"
proof -
  from assms(1) obtain k where k: "str_find crlf2 b = Some k"
    by (auto simp: next_frame_def split: option.splits if_splits)
  define n where "n = requestContentLength (take k b)"
  from k have le: "k + 4 \<le> length b" and b: "b = take k b @ crlf2 @ drop (k + 4) b"
    using str_find_SomeD [OF k] by simp_all
  have h: "h = take k b" and nb: "n \<le> kMaxBodyBytes"
    and tot: "(k + 4 + n) mod 2 ^ 64 \<le> length b" "r = take ((k + 4 + n) mod 2 ^ 64) b"
       "rest = drop ((k + 4 + n) mod 2 ^ 64) b"
    using assms(1) k
    by (auto simp: next_frame_def Let_def substr_def substr_to_end_def n_def kMaxBodyBytes_def split: if_splits)
  have m: "(k + 4 + n) mod 2 ^ 64 = k + 4 + n"
    using assms(2) le nb by (intro mod_less) (simp add: kMaxBodyBytes_def)
  show "b = r @ rest" using tot by simp
  have lh: "length h = k" using h le by simp
  show l: "length r = length h + 4 + requestContentLength h" using tot m h le n_def lh by simp
  then show "length h + 4 \<le> length r" by simp
  show "requestContentLength h \<le> kMaxBodyBytes" using nb h n_def by simp
  have "take (k + 4) b = h @ crlf2"
    using b h le by (metis append.assoc append_take_drop_id append_eq_append_conv length_append length_crlf2 lh length_take min.absorb2)
  moreover have "prefix (take (k + 4) b) (take (k + 4 + n) b)"
    by (metis le_add1 prefixI take_add)
  ultimately show "prefix (h @ crlf2) r" using tot m by simp
qed

lemma next_frame_append:
  assumes "next_frame b = Framed h r rest"
  shows "next_frame (b @ more) = Framed h r (rest @ more)"
proof -
  from assms obtain k where k: "str_find crlf2 b = Some k"
    by (auto simp: next_frame_def split: option.splits if_splits)
  have "k \<le> length b" using str_find_le [OF k] by simp
  with assms k str_find_append_Some [OF k, of more] show ?thesis
    by (auto simp: next_frame_def Let_def substr_def substr_to_end_def split: if_splits)
qed

subsection \<open>Properties\<close>

lemma bit_one_low [str_simps]: "bit (Suc 0) 0"
  by (simp add: bit_0)

declare good_line_def [str_simps] header_name_def [str_simps] header_value_def [str_simps]
  rtrim_def [str_simps] char_tolower_def [str_simps] is_blank_def [str_simps] char_of_def [str_simps]

text \<open>
  C34: the position-based header scanner computes the reference lookup: the value of the
  first CRLF-delimited line whose lower-cased, right-trimmed field name is the one sought,
  and the empty string when there is none.
\<close>

theorem findHeader_reference:
  "findHeader headers lowerName = header_lookup (lines_of headers) lowerName"
  by (rule findHeader_lookup)

text \<open>
  C35: JSON escaping is faithful and cannot be broken out of: reading the literal
  \<open>jsonEscape s\<close> followed by a quote gives back exactly \<open>s\<close> and stops at that quote,
  whatever bytes \<open>s\<close> holds and whatever follows.
\<close>

theorem jsonEscape_roundtrip:
  "json_read (jsonEscape s @ CHR 0x22 # rest) = Some (s, rest)"
  by (rule json_read_jsonEscape)

text \<open>
  A token sent in an \<^verbatim>\<open>Authorization\<close> header is what \<open>parseBearerToken\<close> returns, for any
  case of the field name and of the scheme, any blanks around the value, any other headers
  and any body.
\<close>

theorem parseBearerToken_roundtrip:
  assumes "ls \<noteq> []" and "list_all good_line ls"
    and "header_lookup ls ''authorization'' = b1 @ scheme @ token @ b2"
    and "list_all is_blank b1" and "list_all is_blank b2"
    and "map char_tolower scheme = ''bearer ''"
    and "token \<noteq> []" and "\<not> is_blank (last token)" and "length token \<le> 2 * kTokenLen"
  shows "parseBearerToken (http_message ls body) = token"
  using assms by (intro parseBearerToken_value [where ?b1.0 = b1 and ?b2.0 = b2]) (simp_all add: kTokenLen_def)

theorem parseBearerToken_roundtrip_witness:
  "parseBearerToken
     (http_message [''GET /profile HTTP/1.1'', ''authORIZATION: BeaRer abc123 ''] ''x'') = ''abc123''"
  by (rule parseBearerToken_roundtrip [where ?b1.0 = "'' ''" and scheme = "''BeaRer ''" and ?b2.0 = "'' ''"])
    (simp_all add: str_simps kTokenLen_def)

text \<open>
  Framing is exact. A message whose \<^verbatim>\<open>Content-Length\<close> is that of its body, followed by
  any bytes (a pipelined request), is cut off exactly: the frame is the message and the
  rest is what follows. The \<^verbatim>\<open>size_t\<close> sum does not wrap.
\<close>

theorem next_frame_exact:
  assumes "ls \<noteq> []" and "list_all good_line ls"
    and "header_lookup ls ''content-length'' = '' '' @ to_string (length body)"
    and "length body \<le> kMaxBodyBytes" and "length (join_crlf ls) < 2 ^ 63"
  shows "next_frame (http_message ls body @ rest) =
    Framed (join_crlf ls) (http_message ls body) rest"
proof (rule next_frame_message)
  have "int (length body) \<le> long_max"
    using assms(4) by (simp add: kMaxBodyBytes_def long_max_def)
  then show "requestContentLength (join_crlf ls) = length body"
    using assms(2,3) by (intro requestContentLength_lines)
qed (use assms in simp_all)

theorem next_frame_exact_witness:
  "next_frame (http_message [''POST /login HTTP/1.1'', ''Content-Length: 2''] ''ab'' @ ''GET'') =
     Framed (join_crlf [''POST /login HTTP/1.1'', ''Content-Length: 2''])
       (http_message [''POST /login HTTP/1.1'', ''Content-Length: 2''] ''ab'') ''GET''"
  by (rule next_frame_exact)
    (simp_all add: str_simps kMaxBodyBytes_def to_string.simps crlf_def)

subsection \<open>Divergences between the comments and the code\<close>

text \<open>
  \<^verbatim>\<open>Config.h\<close> describes \<open>kMaxHeaderBytes\<close> as "reject request headers larger than this", but
  the limit is only tested while no end of headers has been received: a block of any
  size whose terminator is already in the buffer is accepted.
\<close>

lemma oversized_header_accepted:
  "\<exists>h. length h > kMaxHeaderBytes \<and> next_frame (h @ crlf2) = Framed h (h @ crlf2) []"
proof (intro exI conjI)
  let ?h = "replicate 20000 (CHR ''a'')"
  show "length ?h > kMaxHeaderBytes" by (simp add: kMaxHeaderBytes_def)
  have g: "good_line ?h" by (simp add: good_line_def)
  then have "requestContentLength ?h = 0"
    by (simp add: requestContentLength_def findHeader_lookup header_name_def)
  then have "next_frame (http_message [?h] [] @ []) = Framed (join_crlf [?h]) (http_message [?h] []) []"
    using g by (intro next_frame_message) simp_all
  then show "next_frame (?h @ crlf2) = Framed ?h (?h @ crlf2) []"
    by (simp add: http_message_def)
qed

text \<open>
  The comment on \<open>wantKeepAlive\<close> says that HTTP/1.0 defaults to close, but the version is
  searched in the whole request, body included.
\<close>

lemma http10_body_forces_keep_alive:
  "wantKeepAlive (http_message [''POST / HTTP/1.0''] ''HTTP/1.1'') (join_crlf [''POST / HTTP/1.0''])"
  by (simp add: wantKeepAlive_def findHeader_lookup good_line_def header_name_def http_message_def
      crlf2_def crlf_def)

text \<open>
  The comment in \<open>parseBearerToken\<close> says the token is trimmed; only its end is.
\<close>

lemma bearer_token_keeps_leading_blank:
  "parseBearerToken (http_message [''GET /profile HTTP/1.1'', ''Authorization: Bearer  x''] []) = '' x''"
  by (rule parseBearerToken_value [where ?b1.0 = "'' ''" and scheme = "''Bearer ''" and ?b2.0 = "[]"])
    (simp_all add: str_simps)

end
