(* ===== verification/HttpResponse.thy ===== *)
theory HttpResponse
  imports HttpParse
begin

section \<open>HTTP responses and the rate limiter\<close>

text \<open>
  The response side of \<^verbatim>\<open>src/Connection.cpp\<close>: status texts, the response builder, the
  header of a static file, the inline pages, and the fixed-window limiter \<open>allowRequest\<close>.
  The limiter's two atomics are a record; the clock is an argument. The counter keeps its
  C width (\<^verbatim>\<open>std::atomic<int>\<close>, which wraps).
\<close>

definition statusText :: "nat \<Rightarrow> bytes" where
  "statusText statusCode =
     (if statusCode = 200 then ''OK''
      else if statusCode = 400 then ''Bad Request''
      else if statusCode = 401 then ''Unauthorized''
      else if statusCode = 409 then ''Conflict''
      else if statusCode = 413 then ''Payload Too Large''
      else if statusCode = 429 then ''Too Many Requests''
      else if statusCode = 500 then ''Internal Server Error''
      else if statusCode = 503 then ''Service Unavailable''
      else ''Not Found'')"

definition buildHttpResponse :: "nat \<Rightarrow> bytes \<Rightarrow> bytes \<Rightarrow> bool \<Rightarrow> bytes" where
  "buildHttpResponse statusCode contentType body keepAlive =
     ''HTTP/1.1 '' @ to_string statusCode @ '' '' @ statusText statusCode @ crlf @
     ''Content-Type: '' @ contentType @ crlf @
     ''Content-Length: '' @ to_string (length body) @ crlf @
     ''Connection: '' @ (if keepAlive then ''keep-alive'' else ''close'') @ crlf2 @ body"

text \<open>The header block that \<open>sendFile\<close> puts in front of a file of \<open>size\<close> bytes.\<close>

definition fileHeader :: "nat \<Rightarrow> bytes \<Rightarrow> nat \<Rightarrow> bool \<Rightarrow> bytes" where
  "fileHeader statusCode contentType sz keepAlive =
     ''HTTP/1.1 '' @ to_string statusCode @ '' OK'' @ crlf @
     ''Content-Type: '' @ contentType @ crlf @
     ''Content-Length: '' @ to_string sz @ crlf @
     ''Connection: '' @ (if keepAlive then ''keep-alive'' else ''close'') @ crlf2"

definition getResponse :: "bytes \<Rightarrow> bytes" where
  "getResponse url =
     (if url = ''/'' then
        ''<html><body><h1>Welcome to My HTTP Server</h1>'' @
        ''<p>This is a simple HTTP server built with epoll reactor pattern.</p>'' @
        ''<p>Try: <a href='' @ [CHR 0x22] @ ''/hello'' @ [CHR 0x22] @ ''>/hello</a></p>'' @
        ''<p>API: POST /register, POST /login, GET /profile, POST /logout</p>'' @
        ''</body></html>''
      else if url = ''/hello'' then ''<html><body><h1>Hello!</h1></body></html>''
      else ''<html><body><h1>404 Not Found</h1></body></html>'')"

record limiter =
  windowSec :: int
  win_count :: "32 word"

definition allowRequest :: "int \<Rightarrow> int \<Rightarrow> limiter \<Rightarrow> bool \<times> limiter" where
  "allowRequest limit now st =
     (if limit \<le> 0 then (True, st)
      else let st' = (if windowSec st \<noteq> now then st\<lparr>windowSec := now, win_count := 0\<rparr> else st)
           in (sint (win_count st') < limit, st'\<lparr>win_count := win_count st' + 1\<rparr>))"

text \<open>Successive calls, each at its own clock reading, and their answers.\<close>

fun allow_run :: "int \<Rightarrow> int list \<Rightarrow> limiter \<Rightarrow> bool list" where
  "allow_run limit [] st = []"
| "allow_run limit (now # nows) st =
     (case allowRequest limit now st of (ok, st') \<Rightarrow> ok # allow_run limit nows st')"

subsection \<open>Responses as messages\<close>

definition response_lines :: "bytes \<Rightarrow> bytes \<Rightarrow> nat \<Rightarrow> bool \<Rightarrow> bytes list" where
  "response_lines status contentType n keepAlive =
     [''HTTP/1.1 '' @ status, ''Content-Type: '' @ contentType, ''Content-Length: '' @ to_string n,
      ''Connection: '' @ (if keepAlive then ''keep-alive'' else ''close'')]"

lemma buildHttpResponse_message:
  "buildHttpResponse st ct body ka =
     http_message (response_lines (to_string st @ '' '' @ statusText st) ct (length body) ka) body"
  by (simp add: buildHttpResponse_def http_message_def response_lines_def)

lemma fileHeader_message:
  "fileHeader st ct n ka @ body =
     http_message (response_lines (to_string st @ '' OK'') ct n ka) body"
  by (simp add: fileHeader_def http_message_def response_lines_def)

lemma to_string_isdigit: "c \<in> set (to_string n) \<Longrightarrow> isdigit_c c"
  using to_string_digits [of n] by (simp add: list_all_iff)

lemma to_string_no_CR [simp]: "CHR 0x0D \<notin> set (to_string n)"
  by (auto dest!: to_string_isdigit simp: isdigit_c_def)

lemma to_string_no_colon [simp]: "CHR '':'' \<notin> set (to_string n)"
  by (auto dest!: to_string_isdigit simp: isdigit_c_def)

lemma statusText_clean [simp]: "CHR 0x0D \<notin> set (statusText st)" "CHR '':'' \<notin> set (statusText st)"
  by (simp_all add: statusText_def)

lemma response_lines_good:
  "CHR 0x0D \<notin> set status \<Longrightarrow> CHR 0x0D \<notin> set ct \<Longrightarrow> list_all good_line (response_lines status ct n ka)"
  by (simp add: response_lines_def good_line_def)

lemma status_line_no_field: "CHR '':'' \<notin> set status \<Longrightarrow> header_name (''HTTP/1.1 '' @ status) = None"
  by (simp add: header_name_def)

lemma response_field_names:
  "header_name (''Content-Type: '' @ v) = Some ''content-type''"
  "header_name (''Content-Length: '' @ v) = Some ''content-length''"
  "header_name (''Connection: '' @ v) = Some ''connection''"
  by (simp_all add: str_simps)

lemma response_header_lookup:
  assumes "CHR '':'' \<notin> set status"
  shows "header_lookup (response_lines status ct n ka) ''content-length'' = '' '' @ to_string n"
    and "header_lookup (response_lines status ct n ka) ''connection'' =
      '' '' @ (if ka then ''keep-alive'' else ''close'')"
    and "header_lookup (response_lines status ct n ka) ''content-type'' = '' '' @ ct"
  using status_line_no_field [OF assms]
  by (simp_all only: response_lines_def header_lookup_Cons response_field_names)
    (simp_all add: header_value_def)

text \<open>What a client that frames by \<^verbatim>\<open>Content-Length\<close> reads from a stream of responses.\<close>

definition client_read :: "bytes \<Rightarrow> (bytes \<times> bytes \<times> bytes) option" where
  "client_read stream =
     (case str_find crlf2 stream of
        None \<Rightarrow> None
      | Some k \<Rightarrow>
          (let h = take k stream; n = requestContentLength h
           in if length stream < k + 4 + n then None
              else Some (h, take n (drop (k + 4) stream), drop (k + 4 + n) stream)))"

text \<open>What it reads in the first line of the header block: the code and the reason phrase.\<close>

definition client_status :: "bytes \<Rightarrow> (nat \<times> bytes) option" where
  "client_status h =
     (case lines_of h of
        [] \<Rightarrow> None
      | l # _ \<Rightarrow>
          (let code = takeWhile isdigit_c (drop 9 l); rest = drop (length code) (drop 9 l)
           in if take 9 l = ''HTTP/1.1 '' \<and> code \<noteq> [] \<and> take 1 rest = '' ''
              then Some (digits_val code, drop 1 rest) else None))"

text \<open>The phrases that RFC 9110 and RFC 6585 register for the codes the server sends (413 by its earlier name).\<close>

definition registered_phrases :: "(nat \<times> bytes) list" where
  "registered_phrases =
     [(200, ''OK''), (400, ''Bad Request''), (401, ''Unauthorized''), (404, ''Not Found''), (409, ''Conflict''),
      (413, ''Payload Too Large''), (429, ''Too Many Requests''), (500, ''Internal Server Error''),
      (503, ''Service Unavailable'')]"

lemma client_status_lines:
  assumes "list_all good_line (response_lines (to_string n @ '' '' @ phrase) ct k ka)"
  shows "client_status (join_crlf (response_lines (to_string n @ '' '' @ phrase) ct k ka)) = Some (n, phrase)"
proof -
  have d: "takeWhile isdigit_c (to_string n @ '' '' @ phrase) = to_string n"
    using to_string_digits [of n] by (simp add: takeWhile_append2 list_all_iff isdigit_c_def)
  have "client_status h = Some (n, phrase)" if "lines_of h = (''HTTP/1.1 '' @ to_string n @ '' '' @ phrase) # ls" for h ls
    using that d to_string_digits [of n] by (simp add: client_status_def Let_def)
  from this [OF trans [OF lines_of_join [OF assms]]] show ?thesis by (simp only: response_lines_def)
qed

lemma client_read_message:
  assumes "CHR 0x0D \<notin> set status" and "CHR '':'' \<notin> set status" and "CHR 0x0D \<notin> set ct"
    and "int (length body) \<le> long_max"
  shows "client_read (http_message (response_lines status ct (length body) ka) body @ rest) =
    Some (join_crlf (response_lines status ct (length body) ka), body, rest)"
proof -
  let ?ls = "response_lines status ct (length body) ka"
  have g: "list_all good_line ?ls" using assms by (intro response_lines_good)
  have ne: "?ls \<noteq> []" by (simp add: response_lines_def)
  have "requestContentLength (join_crlf ?ls) = length body"
    using g response_header_lookup(1) [OF assms(2)] assms(4) by (intro requestContentLength_lines)
  with g ne show ?thesis
    by (simp add: client_read_def) (simp add: http_message_def)
qed

lemma wantKeepAlive_response:
  assumes "list_all good_line (response_lines status ct n ka)" and "CHR '':'' \<notin> set status"
  shows "wantKeepAlive r (join_crlf (response_lines status ct n ka)) \<longleftrightarrow> ka"
  using response_header_lookup(2) [OF assms(2)] assms(1)
  by (simp add: wantKeepAlive_def findHeader_lookup lines_of_join str_simps)

subsection \<open>Properties\<close>

text \<open>
  C33: every response can be read by its client. A client that cuts the stream by
  \<^verbatim>\<open>Content-Length\<close> reads the status code the server chose, with the reason phrase registered
  for it, and exactly the body; it is left with exactly the bytes that follow the response,
  and reads the content type and, from the \<^verbatim>\<open>Connection\<close> header, the persistence the server
  decided.
\<close>

theorem buildHttpResponse_framed:
  assumes "CHR 0x0D \<notin> set contentType" and "int (length body) \<le> long_max"
  shows "\<exists>h phrase. client_read (buildHttpResponse statusCode contentType body keepAlive @ rest) = Some (h, body, rest)
    \<and> client_status h = Some (statusCode, phrase) \<and> (\<forall>p. map_of registered_phrases statusCode = Some p \<longrightarrow> phrase = p)
    \<and> findHeader h ''content-type'' = '' '' @ contentType \<and> wantKeepAlive h h = keepAlive"
proof -
  let ?ls = "response_lines (to_string statusCode @ '' '' @ statusText statusCode) contentType (length body) keepAlive"
  have st: "CHR 0x0D \<notin> set (to_string statusCode @ '' '' @ statusText statusCode)"
    "CHR '':'' \<notin> set (to_string statusCode @ '' '' @ statusText statusCode)" by simp_all
  note good = response_lines_good [OF st(1) assms(1), of "length body" keepAlive]
  have "findHeader (join_crlf ?ls) ''content-type'' = '' '' @ contentType"
    using good by (simp only: findHeader_lookup lines_of_join response_header_lookup(3) [OF st(2)])
  moreover have "map_of registered_phrases statusCode = Some p \<longrightarrow> statusText statusCode = p" for p
    by (auto simp: registered_phrases_def statusText_def)
  ultimately show ?thesis
    unfolding buildHttpResponse_message
    using client_read_message [OF st assms] client_status_lines [OF good] wantKeepAlive_response [OF good st(2)]
    by blast
qed

theorem buildHttpResponse_framed_witness:
  "\<exists>h. client_read (buildHttpResponse 429 ''text/html'' ''hi'' True @ ''HTTP/1.1 404'') = Some (h, ''hi'', ''HTTP/1.1 404'')
    \<and> client_status h = Some (429, ''Too Many Requests'') \<and> wantKeepAlive h h = True"
proof -
  have "map_of registered_phrases 429 = Some ''Too Many Requests''" by (simp add: registered_phrases_def)
  then show ?thesis
    using buildHttpResponse_framed [of "''text/html''" "''hi''" 429 True "''HTTP/1.1 404''"]
    by (auto simp: long_max_def)
qed

text \<open>
  The same holds of a static file: the header block of \<open>sendFile\<close> followed by the file's
  bytes frames exactly those bytes.
\<close>

lemma fileHeader_framed:
  assumes "CHR 0x0D \<notin> set contentType" and "int (length content) \<le> long_max"
  shows "\<exists>h. client_read (fileHeader statusCode contentType (length content) keepAlive @ content @ rest) =
      Some (h, content, rest) \<and> wantKeepAlive h h = keepAlive"
proof -
  have st: "CHR 0x0D \<notin> set (to_string statusCode @ '' OK'')"
    "CHR '':'' \<notin> set (to_string statusCode @ '' OK'')" by simp_all
  have m: "fileHeader statusCode contentType (length content) keepAlive @ content @ rest =
      http_message (response_lines (to_string statusCode @ '' OK'') contentType (length content) keepAlive) content @ rest"
    using fileHeader_message [of statusCode contentType "length content" keepAlive content]
    by (metis append.assoc)
  show ?thesis
    unfolding m
    using client_read_message [OF st assms] wantKeepAlive_response [OF response_lines_good [OF st(1) assms(1)] st(2)]
    by blast
qed

lemma sint_of_nat_32: "k < 2 ^ 31 \<Longrightarrow> sint (word_of_nat k :: 32 word) = int k"
  by (simp add: signed_of_nat signed_take_bit_int_eq_self)

lemma allow_run_window:
  assumes "0 < limit" and "windowSec st = now" and "win_count st = word_of_nat m"
    and "m + k \<le> 2 ^ 31"
  shows "allow_run limit (replicate k now) st = map (\<lambda>i. int i < limit) [m..<m + k]"
  using assms
proof (induction k arbitrary: st m)
  case 0
  then show ?case by simp
next
  case (Suc k)
  have m: "m < 2 ^ 31" using Suc.prems(4) by simp
  let ?st = "st\<lparr>win_count := word_of_nat m + 1\<rparr>"
  have "allow_run limit (replicate k now) ?st = map (\<lambda>i. int i < limit) [Suc m..<Suc m + k]"
    using Suc.prems by (intro Suc.IH) (simp_all add: add.commute)
  with Suc.prems sint_of_nat_32 [OF m] show ?case
    by (simp add: allowRequest_def upt_conv_Cons del: upt_Suc)
qed

text \<open>
  Within one second the limiter lets exactly the first \<open>limit\<close> requests through and
  rejects every later one, whatever was counted in earlier seconds (up to the \<open>2 ^ 31\<close>
  calls after which the counter wraps).
\<close>

theorem allowRequest_window:
  assumes "0 < limit" and "windowSec st \<noteq> now" and "k \<le> 2 ^ 31"
  shows "allow_run limit (replicate k now) st = map (\<lambda>i. int i < limit) [0..<k]"
proof (cases k)
  case 0
  then show ?thesis by simp
next
  case (Suc j)
  have "allow_run limit (replicate j now) (st\<lparr>windowSec := now, win_count := 1\<rparr>)
      = map (\<lambda>i. int i < limit) [1..<1 + j]"
    using assms Suc by (intro allow_run_window) simp_all
  with assms Suc show ?thesis
    by (simp add: allowRequest_def upt_conv_Cons del: upt_Suc)
qed

theorem allowRequest_window_witness:
  "allow_run 2 (replicate 3 (7::int)) \<lparr>windowSec = 6, win_count = 9\<rparr> =
     map (\<lambda>i. int i < 2) [0..<3]"
  by (rule allowRequest_window) simp_all

end
