(* ===== verification/Kernel.thy ===== *)
theory Kernel
  imports Prelude
begin

section \<open>The operating system as a parameter\<close>

text \<open>
  The system calls the server makes, as a record of functions over an abstract world
  \<open>'w\<close> (everything outside the process). Every operation of the model that makes a system
  call takes such a record as its argument. What the code relies on of them is stated by
  the named predicates below, which are documented POSIX behaviour: they say nothing about
  the server. A result \<open>Ret n\<close> is a non-negative return value, \<open>Err e\<close> is \<open>-1\<close> with
  \<^verbatim>\<open>errno = e\<close>.
\<close>

datatype epoll_op = CtlAdd | CtlMod

record epoll_event =
  ev_events :: "32 word"
  ev_ptr :: nat

text \<open>What \<^verbatim>\<open>fstat\<close> reports of a descriptor (\<^const>\<open>None\<close> when it fails).\<close>

record file_stat =
  st_isreg :: bool
  st_size :: nat

record 'w kernel =
  k_write :: "int \<Rightarrow> bytes \<Rightarrow> 'w \<Rightarrow> nat sysret \<times> 'w"
  k_read :: "int \<Rightarrow> nat \<Rightarrow> 'w \<Rightarrow> bytes sysret \<times> 'w"
  k_sendfile :: "int \<Rightarrow> int \<Rightarrow> nat \<Rightarrow> nat \<Rightarrow> 'w \<Rightarrow> nat sysret \<times> 'w"
  k_epoll_ctl :: "nat \<Rightarrow> epoll_op \<Rightarrow> int \<Rightarrow> epoll_event \<Rightarrow> 'w \<Rightarrow> unit sysret \<times> 'w"
  k_time :: "'w \<Rightarrow> int \<times> 'w"
  k_open :: "bytes \<Rightarrow> 'w \<Rightarrow> int \<times> 'w"
  k_fstat :: "int \<Rightarrow> 'w \<Rightarrow> file_stat option \<times> 'w"
  k_close :: "int \<Rightarrow> 'w \<Rightarrow> 'w"

text \<open>
  \<open>sent w fd\<close> is the byte stream the kernel has accepted on a descriptor, \<open>file fd\<close> the
  contents of an open regular file. \<^verbatim>\<open>write\<close> accepts a prefix of the data, \<^verbatim>\<open>sendfile\<close> a
  prefix of the file from the given offset; a call that fails accepts nothing; the other
  calls send nothing.
\<close>

definition write_accepts :: "'w kernel \<Rightarrow> ('w \<Rightarrow> int \<Rightarrow> bytes) \<Rightarrow> bool" where
  "write_accepts K sent \<longleftrightarrow>
     (\<forall>fd d w r w'. k_write K fd d w = (r, w') \<longrightarrow>
        (case r of
           Ret n \<Rightarrow> n \<le> length d \<and> sent w' = (sent w)(fd := sent w fd @ take n d)
         | Err e \<Rightarrow> sent w' = sent w))"

definition sendfile_accepts :: "'w kernel \<Rightarrow> ('w \<Rightarrow> int \<Rightarrow> bytes) \<Rightarrow> (int \<Rightarrow> bytes) \<Rightarrow> bool" where
  "sendfile_accepts K sent file \<longleftrightarrow>
     (\<forall>fd f off cnt w r w'. k_sendfile K fd f off cnt w = (r, w') \<longrightarrow>
        (case r of
           Ret n \<Rightarrow> n \<le> cnt \<and> n \<le> length (file f) - off
             \<and> sent w' = (sent w)(fd := sent w fd @ take n (drop off (file f)))
         | Err e \<Rightarrow> sent w' = sent w))"

definition ctl_silent :: "'w kernel \<Rightarrow> ('w \<Rightarrow> int \<Rightarrow> bytes) \<Rightarrow> bool" where
  "ctl_silent K sent \<longleftrightarrow>
     (\<forall>ep op fd ev w r w'. k_epoll_ctl K ep op fd ev w = (r, w') \<longrightarrow> sent w' = sent w)
     \<and> (\<forall>w t w'. k_time K w = (t, w') \<longrightarrow> sent w' = sent w)
     \<and> (\<forall>fd n w r w'. k_read K fd n w = (r, w') \<longrightarrow> sent w' = sent w)
     \<and> (\<forall>p w r w'. k_open K p w = (r, w') \<longrightarrow> sent w' = sent w)
     \<and> (\<forall>fd w r w'. k_fstat K fd w = (r, w') \<longrightarrow> sent w' = sent w)
     \<and> (\<forall>fd w. sent (k_close K fd w) = sent w)"

definition stream_kernel :: "'w kernel \<Rightarrow> ('w \<Rightarrow> int \<Rightarrow> bytes) \<Rightarrow> (int \<Rightarrow> bytes) \<Rightarrow> bool" where
  "stream_kernel K sent file \<longleftrightarrow>
     write_accepts K sent \<and> sendfile_accepts K sent file \<and> ctl_silent K sent"

text \<open>
  Only finitely many interruptions: \<open>fuel w\<close> bounds the \<^verbatim>\<open>EINTR\<close> results still to come, so
  every interrupted call lowers it and no call raises it.
\<close>

definition finite_eintr :: "'w kernel \<Rightarrow> ('w \<Rightarrow> nat) \<Rightarrow> bool" where
  "finite_eintr K fuel \<longleftrightarrow>
     (\<forall>fd d w r w'. k_write K fd d w = (r, w') \<longrightarrow>
        (if r = Err EINTR then fuel w' < fuel w else fuel w' \<le> fuel w))
     \<and> (\<forall>fd f off cnt w r w'. k_sendfile K fd f off cnt w = (r, w') \<longrightarrow>
        (if r = Err EINTR then fuel w' < fuel w else fuel w' \<le> fuel w))
     \<and> (\<forall>fd n w r w'. k_read K fd n w = (r, w') \<longrightarrow>
        (if r = Err EINTR then fuel w' < fuel w else fuel w' \<le> fuel w))
     \<and> (\<forall>ep op fd ev w r w'. k_epoll_ctl K ep op fd ev w = (r, w') \<longrightarrow> fuel w' \<le> fuel w)
     \<and> (\<forall>w t w'. k_time K w = (t, w') \<longrightarrow> fuel w' \<le> fuel w)
     \<and> (\<forall>p w r w'. k_open K p w = (r, w') \<longrightarrow> fuel w' \<le> fuel w)
     \<and> (\<forall>fd w r w'. k_fstat K fd w = (r, w') \<longrightarrow> fuel w' \<le> fuel w)
     \<and> (\<forall>fd w. fuel (k_close K fd w) \<le> fuel w)"

text \<open>
  The interest list of each epoll instance: \<^verbatim>\<open>EPOLL_CTL_ADD\<close> of a registered descriptor
  fails with \<^verbatim>\<open>EEXIST\<close> and registers a new one (or fails otherwise), \<^verbatim>\<open>EPOLL_CTL_MOD\<close>
  replaces a registration; a call that fails changes nothing.
\<close>

definition epoll_contract ::
    "'w kernel \<Rightarrow> ('w \<Rightarrow> nat \<Rightarrow> int \<Rightarrow> epoll_event option) \<Rightarrow> bool" where
  "epoll_contract K interest \<longleftrightarrow>
     (\<forall>ep op fd ev w r w'. k_epoll_ctl K ep op fd ev w = (r, w') \<longrightarrow>
        (case r of
           Ret u \<Rightarrow> (op = CtlAdd \<longleftrightarrow> interest w ep fd = None)
             \<and> interest w' = (interest w)(ep := (interest w ep)(fd := Some ev))
         | Err e \<Rightarrow> interest w' = interest w \<and> (e = EEXIST \<longleftrightarrow> op = CtlAdd \<and> interest w ep fd \<noteq> None)))"

text \<open>
  \<open>no_ctl_failure\<close>: on an open descriptor the kernel never runs out of epoll resources; and
  \<^verbatim>\<open>epoll_ctl\<close> opens and closes nothing.
\<close>

definition no_ctl_failure ::
    "'w kernel \<Rightarrow> ('w \<Rightarrow> nat \<Rightarrow> int \<Rightarrow> epoll_event option) \<Rightarrow> ('w \<Rightarrow> int set) \<Rightarrow> bool" where
  "no_ctl_failure K interest opened \<longleftrightarrow>
     (\<forall>ep op fd ev w. fd \<in> opened w \<longrightarrow> (op = CtlAdd \<longleftrightarrow> interest w ep fd = None) \<longrightarrow>
        (\<exists>w'. k_epoll_ctl K ep op fd ev w = (Ret (), w')))
     \<and> (\<forall>ep op fd ev w r w'. k_epoll_ctl K ep op fd ev w = (r, w') \<longrightarrow> opened w' = opened w)"

lemma write_acceptsD:
  assumes "write_accepts K sent" and "k_write K fd d w = (Ret n, w')"
  shows "n \<le> length d" and "sent w' = (sent w)(fd := sent w fd @ take n d)"
  using assms by (fastforce simp: write_accepts_def)+

lemma write_accepts_Err:
  "write_accepts K sent \<Longrightarrow> k_write K fd d w = (Err e, w') \<Longrightarrow> sent w' = sent w"
  by (fastforce simp: write_accepts_def)

lemma sendfile_acceptsD:
  assumes "sendfile_accepts K sent file" and "k_sendfile K fd f off cnt w = (Ret n, w')"
  shows "n \<le> cnt" and "n \<le> length (file f) - off"
    and "sent w' = (sent w)(fd := sent w fd @ take n (drop off (file f)))"
  using assms by (fastforce simp: sendfile_accepts_def)+

lemma sendfile_accepts_Err:
  "sendfile_accepts K sent file \<Longrightarrow> k_sendfile K fd f off cnt w = (Err e, w') \<Longrightarrow> sent w' = sent w"
  by (fastforce simp: sendfile_accepts_def)

lemma ctl_silentD:
  "ctl_silent K sent \<Longrightarrow> k_epoll_ctl K ep op fd ev w = (r, w') \<Longrightarrow> sent w' = sent w"
  by (auto simp: ctl_silent_def)

lemma epoll_contract_Ret:
  assumes "epoll_contract K interest" and "k_epoll_ctl K ep op fd ev w = (Ret u, w')"
  shows "interest w' = (interest w)(ep := (interest w ep)(fd := Some ev))"
    and "op = CtlAdd \<longleftrightarrow> interest w ep fd = None"
  using assms(1) [unfolded epoll_contract_def, rule_format, OF assms(2)] by simp_all

lemma epoll_contract_Err:
  assumes "epoll_contract K interest" and "k_epoll_ctl K ep op fd ev w = (Err e, w')"
  shows "interest w' = interest w"
    and "e = EEXIST \<longleftrightarrow> op = CtlAdd \<and> interest w ep fd \<noteq> None"
  using assms(1) [unfolded epoll_contract_def, rule_format, OF assms(2)] by simp_all

lemma no_ctl_failureE:
  assumes "no_ctl_failure K interest opened" and "fd \<in> opened w" and "op = CtlAdd \<longleftrightarrow> interest w ep fd = None"
  obtains w' where "k_epoll_ctl K ep op fd ev w = (Ret (), w')"
  using assms(1) [unfolded no_ctl_failure_def, THEN conjunct1, rule_format, OF assms(2,3), of ev] by blast

lemma no_ctl_failure_opened:
  "no_ctl_failure K interest opened \<Longrightarrow> k_epoll_ctl K ep op fd ev w = (r, w') \<Longrightarrow> opened w' = opened w"
  by (simp add: no_ctl_failure_def)

end
