(* ===== verification/Reactor.thy ===== *)
theory Reactor
  imports Kernel
begin

section \<open>The reactor: Channel, Epoll, EventLoop\<close>

text \<open>
  \<^verbatim>\<open>src/Channel.cpp\<close>, \<^verbatim>\<open>src/Epoll.cpp\<close> and \<^verbatim>\<open>src/EventLoop.cpp\<close>. A channel keeps its event
  masks as 32-bit words; its two \<^verbatim>\<open>std::function\<close> members are optional names of the
  functions the sources bind to them. \<open>ch_addr\<close> stands for the channel's address, the value
  stored in \<^verbatim>\<open>epoll_event.data.ptr\<close>. The event loop is generic in the state its handlers
  work on, so that the server can instantiate it.
\<close>

unbundle bit_operations_syntax

type_synonym evmask = "32 word"

definition EPOLLIN :: evmask where "EPOLLIN = 0x001"
definition EPOLLPRI :: evmask where "EPOLLPRI = 0x002"
definition EPOLLOUT :: evmask where "EPOLLOUT = 0x004"
definition EPOLLERR :: evmask where "EPOLLERR = 0x008"
definition EPOLLHUP :: evmask where "EPOLLHUP = 0x010"
definition EPOLLRDHUP :: evmask where "EPOLLRDHUP = 0x2000"
definition EPOLLET :: evmask where "EPOLLET = 0x80000000"

lemmas epoll_flags = EPOLLIN_def EPOLLPRI_def EPOLLOUT_def EPOLLERR_def EPOLLHUP_def
  EPOLLRDHUP_def EPOLLET_def

datatype callback = AcceptConnection | HandleMessage | HandleWrite

record channel =
  ch_addr :: nat
  ch_loop :: nat
  ch_fd :: int
  ch_events :: evmask
  ch_revents :: evmask
  inEpoll :: bool
  read_callback :: "callback option"
  write_callback :: "callback option"

definition channel_new :: "nat \<Rightarrow> nat \<Rightarrow> int \<Rightarrow> channel" where
  "channel_new addr loop fd =
     \<lparr>ch_addr = addr, ch_loop = loop, ch_fd = fd, ch_events = 0, ch_revents = 0, inEpoll = False,
      read_callback = None, write_callback = None\<rparr>"

subsection \<open>Epoll\<close>

text \<open>
  \<open>Epoll::updateChannel\<close>: add an unregistered channel (taking over a stale registration of
  the same descriptor with MOD), modify a registered one. Failures are only logged, and an
  unregistered channel counts as registered afterwards in every case.
\<close>

definition updateChannel :: "'w kernel \<Rightarrow> channel \<Rightarrow> 'w \<Rightarrow> channel \<times> 'w" where
  "updateChannel K ch w =
     (let ev = \<lparr>ev_events = ch_events ch, ev_ptr = ch_addr ch\<rparr>
      in if \<not> inEpoll ch then
           (case k_epoll_ctl K (ch_loop ch) CtlAdd (ch_fd ch) ev w of
              (r, w1) \<Rightarrow>
                if r = Err EEXIST then
                  (case k_epoll_ctl K (ch_loop ch) CtlMod (ch_fd ch) ev w1 of
                     (_, w2) \<Rightarrow> (ch\<lparr>inEpoll := True\<rparr>, w2))
                else (ch\<lparr>inEpoll := True\<rparr>, w1))
         else (case k_epoll_ctl K (ch_loop ch) CtlMod (ch_fd ch) ev w of (_, w1) \<Rightarrow> (ch, w1)))"

text \<open>
  \<open>Epoll::activeChannels\<close>: the result of \<^verbatim>\<open>epoll_wait\<close> as the addresses and event masks to
  deliver; on an error (interrupted or not) there are none.
\<close>

definition activeChannels :: "epoll_event list sysret \<Rightarrow> (nat \<times> evmask) list" where
  "activeChannels waited =
     (case waited of Err e \<Rightarrow> [] | Ret evs \<Rightarrow> map (\<lambda>ev. (ev_ptr ev, ev_events ev)) evs)"

subsection \<open>Channel\<close>

definition enableReading :: "'w kernel \<Rightarrow> channel \<Rightarrow> 'w \<Rightarrow> channel \<times> 'w" where
  "enableReading K ch w =
     updateChannel K (ch\<lparr>ch_events := ch_events ch OR (EPOLLIN OR EPOLLPRI OR EPOLLRDHUP)\<rparr>) w"

definition enableReadingET :: "'w kernel \<Rightarrow> channel \<Rightarrow> 'w \<Rightarrow> channel \<times> 'w" where
  "enableReadingET K ch w =
     updateChannel K
       (ch\<lparr>ch_events := ch_events ch OR (EPOLLIN OR EPOLLPRI OR EPOLLRDHUP OR EPOLLET)\<rparr>) w"

definition enableWriting :: "'w kernel \<Rightarrow> channel \<Rightarrow> 'w \<Rightarrow> channel \<times> 'w" where
  "enableWriting K ch w = updateChannel K (ch\<lparr>ch_events := ch_events ch OR EPOLLOUT\<rparr>) w"

definition disableWriting :: "'w kernel \<Rightarrow> channel \<Rightarrow> 'w \<Rightarrow> channel \<times> 'w" where
  "disableWriting K ch w = updateChannel K (ch\<lparr>ch_events := ch_events ch AND NOT EPOLLOUT\<rparr>) w"

definition setRevents :: "channel \<Rightarrow> evmask \<Rightarrow> channel" where
  "setRevents ch ev = ch\<lparr>ch_revents := ev\<rparr>"

definition setCallback :: "channel \<Rightarrow> callback \<Rightarrow> channel" where
  "setCallback ch cb = ch\<lparr>read_callback := Some cb\<rparr>"

definition setWriteCallback :: "channel \<Rightarrow> callback \<Rightarrow> channel" where
  "setWriteCallback ch cb = ch\<lparr>write_callback := Some cb\<rparr>"

text \<open>\<open>handleEvent\<close>: the callback it runs, if any; a writable channel never reads.\<close>

definition handleEvent :: "channel \<Rightarrow> callback option" where
  "handleEvent ch =
     (if ch_revents ch AND EPOLLOUT \<noteq> 0 then write_callback ch
      else if ch_revents ch AND (EPOLLIN OR EPOLLPRI OR EPOLLRDHUP OR EPOLLHUP OR EPOLLERR) \<noteq> 0
      then read_callback ch
      else None)"

subsection \<open>EventLoop\<close>

text \<open>
  One iteration of \<open>EventLoop::loop\<close> and the loop. \<open>wait\<close> is \<^verbatim>\<open>epoll_wait\<close> with the one
  second timeout, \<open>dispatch\<close> runs \<open>handleEvent\<close> of the channel at an address (\<^const>\<open>None\<close>
  when it does not return), \<open>callback\<close> is the optional per-iteration housekeeping.
\<close>

fun dispatch_all :: "(nat \<Rightarrow> evmask \<Rightarrow> 's \<Rightarrow> 's option) \<Rightarrow> (nat \<times> evmask) list \<Rightarrow> 's \<Rightarrow> 's option" where
  "dispatch_all dispatch [] s = Some s"
| "dispatch_all dispatch ((p, ev) # chs) s =
     (case dispatch p ev s of None \<Rightarrow> None | Some s' \<Rightarrow> dispatch_all dispatch chs s')"

definition loop_iteration ::
    "('s \<Rightarrow> epoll_event list sysret \<times> 's) \<Rightarrow> (nat \<Rightarrow> evmask \<Rightarrow> 's \<Rightarrow> 's option)
     \<Rightarrow> ('s \<Rightarrow> 's) option \<Rightarrow> 's \<Rightarrow> 's option" where
  "loop_iteration wait dispatch callback s =
     (case wait s of (r, s1) \<Rightarrow>
        (case dispatch_all dispatch (activeChannels r) s1 of
           None \<Rightarrow> None
         | Some s2 \<Rightarrow> Some (case callback of None \<Rightarrow> s2 | Some cb \<Rightarrow> cb s2)))"

partial_function (option) event_loop ::
    "('s \<Rightarrow> bool) \<Rightarrow> ('s \<Rightarrow> epoll_event list sysret \<times> 's) \<Rightarrow> (nat \<Rightarrow> evmask \<Rightarrow> 's \<Rightarrow> 's option)
     \<Rightarrow> ('s \<Rightarrow> 's) option \<Rightarrow> 's \<Rightarrow> 's option" where
  "event_loop quit wait dispatch callback s =
     (if quit s then Some s
      else case loop_iteration wait dispatch callback s of
             None \<Rightarrow> None
           | Some s' \<Rightarrow> event_loop quit wait dispatch callback s')"

subsection \<open>Lemmas\<close>

lemma updateChannel_fields [simp]:
  "fst (updateChannel K ch w) = ch\<lparr>inEpoll := True\<rparr>"
  by (cases ch) (simp add: updateChannel_def Let_def split: prod.splits)

lemma updateChannel_silent:
  "ctl_silent K sent \<Longrightarrow> sent (snd (updateChannel K ch w)) = sent w"
  by (auto simp: updateChannel_def Let_def split: prod.splits) (metis ctl_silentD)+

text \<open>On an open descriptor the last \<^verbatim>\<open>epoll_ctl\<close> of an update succeeds, whichever it is.\<close>

lemma updateChannel_succeeds:
  assumes "epoll_contract K interest" and "no_ctl_failure K interest opened" and "ch_fd ch \<in> opened w"
    and "inEpoll ch \<longrightarrow> interest w (ch_loop ch) (ch_fd ch) \<noteq> None"
  shows "\<exists>op w0. k_epoll_ctl K (ch_loop ch) op (ch_fd ch) \<lparr>ev_events = ch_events ch, ev_ptr = ch_addr ch\<rparr> w0 =
    (Ret (), snd (updateChannel K ch w))"
proof -
  let ?ev = "\<lparr>ev_events = ch_events ch, ev_ptr = ch_addr ch\<rparr>"
  have ok: "\<And>op w. \<lbrakk>ch_fd ch \<in> opened w; op = CtlAdd \<longleftrightarrow> interest w (ch_loop ch) (ch_fd ch) = None\<rbrakk> \<Longrightarrow>
      \<exists>w'. k_epoll_ctl K (ch_loop ch) op (ch_fd ch) ?ev w = (Ret (), w')"
    using assms(1,2) by (metis no_ctl_failureE)
  have dup: "\<And>r w'. interest w (ch_loop ch) (ch_fd ch) \<noteq> None \<Longrightarrow>
      k_epoll_ctl K (ch_loop ch) CtlAdd (ch_fd ch) ?ev w = (r, w') \<Longrightarrow>
      r = Err EEXIST \<and> interest w' = interest w"
    using assms(1) by (metis epoll_contract_Err epoll_contract_Ret(2) sysret.exhaust)
  consider "inEpoll ch" | "\<not> inEpoll ch" "interest w (ch_loop ch) (ch_fd ch) = None"
    | "\<not> inEpoll ch" "interest w (ch_loop ch) (ch_fd ch) \<noteq> None" by blast
  then show ?thesis
  proof cases
    case 1
    with ok [of w CtlMod] assms(3,4) show ?thesis by (auto simp: updateChannel_def intro!: exI [of _ CtlMod] exI [of _ w])
  next
    case 2
    with ok [of w CtlAdd] assms(3) show ?thesis by (auto simp: updateChannel_def intro!: exI [of _ CtlAdd] exI [of _ w])
  next
    case 3
    obtain r w1 where add: "k_epoll_ctl K (ch_loop ch) CtlAdd (ch_fd ch) ?ev w = (r, w1)"
      by fastforce
    from dup [OF 3(2) add] have w1: "r = Err EEXIST" "interest w1 = interest w" by simp_all
    have "ch_fd ch \<in> opened w1" using assms(3) no_ctl_failure_opened [OF assms(2) add] by simp
    with ok [of w1 CtlMod] w1 3 add show ?thesis by (auto simp: updateChannel_def intro!: exI [of _ CtlMod] exI [of _ w1])
  qed
qed

lemma updateChannel_registers:
  assumes "epoll_contract K interest" and "no_ctl_failure K interest opened" and "ch_fd ch \<in> opened w"
    and "inEpoll ch \<longrightarrow> interest w (ch_loop ch) (ch_fd ch) \<noteq> None"
  shows "interest (snd (updateChannel K ch w)) (ch_loop ch) (ch_fd ch) =
    Some \<lparr>ev_events = ch_events ch, ev_ptr = ch_addr ch\<rparr>"
proof -
  from updateChannel_succeeds [OF assms] obtain op w0 where
    "k_epoll_ctl K (ch_loop ch) op (ch_fd ch) \<lparr>ev_events = ch_events ch, ev_ptr = ch_addr ch\<rparr> w0 = (Ret (), snd (updateChannel K ch w))"
    by blast
  from epoll_contract_Ret(1) [OF assms(1) this] show ?thesis by simp
qed

lemma event_loop_step:
  "event_loop quit wait dispatch callback s =
     (if quit s then Some s
      else case loop_iteration wait dispatch callback s of
             None \<Rightarrow> None
           | Some s' \<Rightarrow> event_loop quit wait dispatch callback s')"
  by (rule event_loop.simps)

text \<open>The states after each of the first iterations, as long as they return.\<close>

inductive loop_runs ::
    "('s \<Rightarrow> epoll_event list sysret \<times> 's) \<Rightarrow> (nat \<Rightarrow> evmask \<Rightarrow> 's \<Rightarrow> 's option)
     \<Rightarrow> ('s \<Rightarrow> 's) option \<Rightarrow> 's \<Rightarrow> 's \<Rightarrow> bool" for wait dispatch callback where
  runs_refl: "loop_runs wait dispatch callback s s"
| runs_step: "loop_iteration wait dispatch callback s = Some t \<Longrightarrow>
    loop_runs wait dispatch callback t u \<Longrightarrow> loop_runs wait dispatch callback s u"

lemma event_loop_returns:
  "loop_runs wait dispatch callback s t \<Longrightarrow> quit t \<Longrightarrow>
   \<exists>u. event_loop quit wait dispatch callback s = Some u \<and> quit u"
proof (induction rule: loop_runs.induct)
  case (runs_refl s)
  then show ?case by (subst event_loop_step) auto
next
  case (runs_step s t u)
  then show ?case by (subst event_loop_step) auto
qed

lemma loop_runs_snoc:
  assumes "loop_runs wait dispatch callback s t" and "loop_iteration wait dispatch callback t = Some u"
  shows "loop_runs wait dispatch callback s u"
  using assms
proof (induction rule: loop_runs.induct)
  case (runs_refl s)
  from loop_runs.runs_step [OF runs_refl loop_runs.runs_refl] show ?case .
next
  case (runs_step s t u)
  from loop_runs.runs_step [OF runs_step.hyps(1) runs_step.IH [OF runs_step.prems]] show ?case .
qed

text \<open>An invariant of the iterations holds when the loop returns, and then the quit flag is set.\<close>

lemma event_loop_rule:
  assumes "event_loop quit wait dispatch callback s = Some u" and "J s"
    and "\<And>s t. J s \<Longrightarrow> loop_iteration wait dispatch callback s = Some t \<Longrightarrow> J t"
  shows "J u \<and> quit u"
proof -
  let ?P = "\<lambda>q w d c s u. q = quit \<and> w = wait \<and> d = dispatch \<and> c = callback \<and> J s \<longrightarrow> J u \<and> quit u"
  have "?P quit wait dispatch callback s u"
  proof (rule event_loop.raw_induct [where P = ?P, OF _ assms(1)], rule impI)
    fix f :: "('a \<Rightarrow> bool) \<Rightarrow> ('a \<Rightarrow> epoll_event list sysret \<times> 'a) \<Rightarrow> (nat \<Rightarrow> evmask \<Rightarrow> 'a \<Rightarrow> 'a option)
      \<Rightarrow> ('a \<Rightarrow> 'a) option \<Rightarrow> 'a \<Rightarrow> 'a option" and q w d c s u
    assume IH: "\<And>q w d c s u. f q w d c s = Some u \<Longrightarrow> ?P q w d c s u"
      and eq: "(if q s then Some s else case loop_iteration w d c s of None \<Rightarrow> None | Some s' \<Rightarrow> f q w d c s') = Some u"
      and pre: "q = quit \<and> w = wait \<and> d = dispatch \<and> c = callback \<and> J s"
    show "J u \<and> quit u"
    proof (cases "quit s")
      case False
      with eq pre obtain s' where "loop_iteration wait dispatch callback s = Some s'" "f q w d c s' = Some u"
        by (auto split: option.splits)
      with IH [of q w d c s' u] assms(3) pre show ?thesis by blast
    qed (use eq pre in simp)
  qed
  with assms(2) show ?thesis by simp
qed

lemma dispatch_all_rule:
  assumes "dispatch_all dispatch evs s = Some t" and "J s"
    and "\<And>p ev s t. J s \<Longrightarrow> dispatch p ev s = Some t \<Longrightarrow> J t"
  shows "J t"
  using assms(1,2)
proof (induction evs arbitrary: s)
  case (Cons e evs)
  obtain p ev where e: "e = (p, ev)" by fastforce
  with Cons.prems(1) obtain s' where "dispatch p ev s = Some s'" "dispatch_all dispatch evs s' = Some t"
    by (auto split: option.splits)
  with Cons.IH assms(3) Cons.prems(2) show ?case by blast
qed simp

subsection \<open>Properties\<close>

text \<open>
  Registration takes over. Whether the descriptor is new, is already registered by this
  channel, or carries the stale registration of an earlier connection (\<^verbatim>\<open>EEXIST\<close>), after
  \<open>updateChannel\<close> of an open descriptor the interest list maps it to this channel and its
  current mask.
\<close>

theorem updateChannel_takes_over:
  assumes "epoll_contract K interest" and "no_ctl_failure K interest opened" and "ch_fd ch \<in> opened w"
    and "inEpoll ch \<longrightarrow> interest w (ch_loop ch) (ch_fd ch) \<noteq> None"
  shows "interest (snd (updateChannel K ch w)) (ch_loop ch) (ch_fd ch) =
      Some \<lparr>ev_events = ch_events ch, ev_ptr = ch_addr ch\<rparr>
    \<and> inEpoll (fst (updateChannel K ch w))"
  using updateChannel_registers [OF assms] by simp

text \<open>A kernel that only keeps the interest lists.\<close>

definition epoll_only :: "(nat \<Rightarrow> int \<Rightarrow> epoll_event option) kernel" where
  "epoll_only =
     \<lparr>k_write = (\<lambda>fd d w. (Ret (length d), w)), k_read = (\<lambda>fd n w. (Err EAGAIN, w)),
      k_sendfile = (\<lambda>fd f off cnt w. (Ret 0, w)),
      k_epoll_ctl = (\<lambda>ep op fd ev w.
        if op = CtlAdd \<and> w ep fd \<noteq> None then (Err EEXIST, w)
        else if op = CtlMod \<and> w ep fd = None then (Err (EOther 2), w)
        else (Ret (), w(ep := (w ep)(fd := Some ev)))),
      k_time = (\<lambda>w. (0, w)), k_open = (\<lambda>p w. (-1, w)), k_fstat = (\<lambda>fd w. (None, w)),
      k_close = (\<lambda>fd w. w)\<rparr>"

lemma epoll_only_contract: "epoll_contract epoll_only (\<lambda>w. w)" "no_ctl_failure epoll_only (\<lambda>w. w) (\<lambda>w. UNIV)"
proof -
  show "epoll_contract epoll_only (\<lambda>w. w)"
    unfolding epoll_contract_def epoll_only_def
    by (auto split: if_splits) (metis epoll_op.exhaust)+
  show "no_ctl_failure epoll_only (\<lambda>w. w) (\<lambda>w. UNIV)"
    unfolding no_ctl_failure_def epoll_only_def by auto
qed

theorem updateChannel_takes_over_witness:
  "(\<lambda>w. w) (snd (updateChannel epoll_only (channel_new 7 0 5)
      (\<lambda>ep fd. if fd = 5 then Some \<lparr>ev_events = 1, ev_ptr = 3\<rparr> else None))) 0 5 =
     Some \<lparr>ev_events = 0, ev_ptr = 7\<rparr>"
  using updateChannel_takes_over [OF epoll_only_contract, of "channel_new 7 0 5"
      "\<lambda>ep fd. if fd = 5 then Some \<lparr>ev_events = 1, ev_ptr = 3\<rparr> else None"]
  by (simp add: channel_new_def)

text \<open>
  \<open>updateChannel\<close> marks a channel as registered even when \<^verbatim>\<open>EPOLL_CTL_ADD\<close> failed for another
  reason: from then on it only tries MOD, and the descriptor is never watched.
\<close>

lemma failed_add_marks_registered:
  assumes "epoll_contract K interest" and "\<not> inEpoll ch" and "e \<noteq> EEXIST"
    and "k_epoll_ctl K (ch_loop ch) CtlAdd (ch_fd ch)
           \<lparr>ev_events = ch_events ch, ev_ptr = ch_addr ch\<rparr> w = (Err e, w')"
  shows "inEpoll (fst (updateChannel K ch w))
    \<and> interest (snd (updateChannel K ch w)) (ch_loop ch) (ch_fd ch) = None"
proof -
  have "interest w' = interest w" "interest w (ch_loop ch) (ch_fd ch) = None"
    using epoll_contract_Err [OF assms(1,4)] assms(3) by simp_all
  with assms(2-4) show ?thesis by (simp add: updateChannel_def)
qed

end
