(* ===== verification/ConnWrite.thy ===== *)
theory ConnWrite
  imports HttpResponse Reactor
begin

section \<open>The write path of a connection\<close>

text \<open>
  The fields of \<^verbatim>\<open>src/include/Connection.h\<close> and the functions of \<^verbatim>\<open>src/Connection.cpp\<close> that
  send: the buffered reactor-thread path (\<open>sendResponse\<close>, \<open>sendFile\<close>, \<open>writeFromBuffer\<close>,
  \<open>handleWrite\<close>) and the direct best-effort path of the DB threads (\<open>sendHttpResponse\<close>,
  \<open>sendJson\<close>). The \<^verbatim>\<open>while\<close> loops that retry interrupted calls may run forever, so they
  are partial: \<^const>\<open>None\<close> is a loop that never ends.

  Calling \<open>deleteConnectionCallback_\<close> destroys the connection; such a call ends in
  \<open>Destroyed\<close>, which carries no fields, so the model cannot read a member afterwards.
  \<open>UseAfterFree\<close> is the undefined behaviour of code that does.
\<close>

record connection =
  conn_channel :: channel
  sock_fd :: int
  writeBuf :: bytes
  writeIndex :: nat
  inputBuffer :: bytes
  closeAfterWrite :: bool
  lastActiveSec :: int
  fileFd :: int
  fileOffset :: nat
  fileRemaining :: nat

datatype outcome = Alive connection | Destroyed | UseAfterFree | Threw connection

subsection \<open>Retry loops\<close>

text \<open>How a loop of write attempts ended: all sent, the socket is full, or a hard error.\<close>

datatype drain = Drained | Blocked | Failed

partial_function (option) drain_buf ::
    "'w kernel \<Rightarrow> connection \<Rightarrow> 'w \<Rightarrow> (drain \<times> connection \<times> 'w) option" where
  "drain_buf K c w =
     (if writeIndex c < length (writeBuf c) then
        (case k_write K (sock_fd c) (drop (writeIndex c) (writeBuf c)) w of
           (r, w') \<Rightarrow>
             (case r of
                Ret n \<Rightarrow>
                  if n > 0 then drain_buf K (c\<lparr>writeIndex := writeIndex c + n\<rparr>) w'
                  else Some (Failed, c, w')
              | Err e \<Rightarrow>
                  if e = EINTR then drain_buf K c w'
                  else if e = EAGAIN \<or> e = EWOULDBLOCK then Some (Blocked, c, w')
                  else Some (Failed, c, w')))
      else Some (Drained, c, w))"

partial_function (option) drain_file ::
    "'w kernel \<Rightarrow> connection \<Rightarrow> 'w \<Rightarrow> (drain \<times> connection \<times> 'w) option" where
  "drain_file K c w =
     (if fileFd c \<ge> 0 \<and> fileRemaining c > 0 then
        (case k_sendfile K (sock_fd c) (fileFd c) (fileOffset c) (fileRemaining c) w of
           (r, w') \<Rightarrow>
             (case r of
                Ret n \<Rightarrow>
                  if n > 0 then
                    drain_file K (c\<lparr>fileOffset := fileOffset c + n,
                                   fileRemaining := fileRemaining c - n\<rparr>) w'
                  else Some (Failed, c, w')
              | Err e \<Rightarrow>
                  if e = EINTR then drain_file K c w'
                  else if e = EAGAIN \<or> e = EWOULDBLOCK then Some (Blocked, c, w')
                  else Some (Failed, c, w')))
      else Some (Drained, c, w))"

text \<open>The loop of \<open>sendHttpResponse\<close>, from \<open>written\<close> bytes on.\<close>

partial_function (option) send_loop ::
    "'w kernel \<Rightarrow> int \<Rightarrow> bytes \<Rightarrow> nat \<Rightarrow> 'w \<Rightarrow> (drain \<times> nat \<times> 'w) option" where
  "send_loop K fd data written w =
     (if written < length data then
        (case k_write K fd (drop written data) w of
           (r, w') \<Rightarrow>
             (case r of
                Ret n \<Rightarrow>
                  if n > 0 then send_loop K fd data (written + n) w'
                  else Some (Failed, written, w')
              | Err e \<Rightarrow>
                  if e = EINTR then send_loop K fd data written w'
                  else if e = EAGAIN \<or> e = EWOULDBLOCK then Some (Blocked, written, w')
                  else Some (Failed, written, w')))
      else Some (Drained, written, w))"

subsection \<open>Direct sends\<close>

definition sendHttpResponse ::
    "'w kernel \<Rightarrow> int \<Rightarrow> nat \<Rightarrow> bytes \<Rightarrow> bytes \<Rightarrow> bool \<Rightarrow> 'w \<Rightarrow> 'w option" where
  "sendHttpResponse K fd statusCode contentType body keepAlive w =
     (case send_loop K fd (buildHttpResponse statusCode contentType body keepAlive) 0 w of
        None \<Rightarrow> None
      | Some (_, _, w') \<Rightarrow> Some w')"

definition sendJson :: "'w kernel \<Rightarrow> int \<Rightarrow> nat \<Rightarrow> bytes \<Rightarrow> bool \<Rightarrow> 'w \<Rightarrow> 'w option" where
  "sendJson K fd statusCode body keepAlive w =
     sendHttpResponse K fd statusCode ''application/json'' body keepAlive w"

subsection \<open>Buffered sends\<close>

definition conn_enableWriting :: "'w kernel \<Rightarrow> connection \<Rightarrow> 'w \<Rightarrow> outcome \<times> 'w" where
  "conn_enableWriting K c w =
     (case enableWriting K (conn_channel c) w of (ch, w') \<Rightarrow> (Alive (c\<lparr>conn_channel := ch\<rparr>), w'))"

definition writeFromBuffer :: "'w kernel \<Rightarrow> connection \<Rightarrow> 'w \<Rightarrow> (outcome \<times> 'w) option" where
  "writeFromBuffer K c w =
     (case drain_buf K c w of
        None \<Rightarrow> None
      | Some (d, c1, w1) \<Rightarrow>
          (case d of
             Blocked \<Rightarrow> Some (conn_enableWriting K c1 w1)
           | Failed \<Rightarrow> Some (Destroyed, w1)
           | Drained \<Rightarrow>
               (case drain_file K c1 w1 of
                  None \<Rightarrow> None
                | Some (d2, c2, w2) \<Rightarrow>
                    (case d2 of
                       Blocked \<Rightarrow> Some (conn_enableWriting K c2 w2)
                     | Failed \<Rightarrow> Some (Destroyed, w2)
                     | Drained \<Rightarrow>
                         (case disableWriting K (conn_channel c2) w2 of
                            (ch, w3) \<Rightarrow>
                              Some (if closeAfterWrite c2 then Destroyed
                                    else Alive (c2\<lparr>fileFd := -1, writeBuf := [], writeIndex := 0,
                                                  conn_channel := ch\<rparr>), w3))))))"

definition sendResponse ::
    "'w kernel \<Rightarrow> connection \<Rightarrow> nat \<Rightarrow> bytes \<Rightarrow> bytes \<Rightarrow> bool \<Rightarrow> 'w \<Rightarrow> (outcome \<times> 'w) option" where
  "sendResponse K c statusCode contentType body keepAlive w =
     writeFromBuffer K
       (c\<lparr>writeBuf := buildHttpResponse statusCode contentType body keepAlive, writeIndex := 0,
          closeAfterWrite := \<not> keepAlive\<rparr>) w"

definition handleWrite :: "'w kernel \<Rightarrow> connection \<Rightarrow> 'w \<Rightarrow> (outcome \<times> 'w) option" where
  "handleWrite K c w =
     (if writeIndex c < length (writeBuf c) \<or> (fileFd c \<ge> 0 \<and> fileRemaining c > 0)
      then writeFromBuffer K c w
      else (case disableWriting K (conn_channel c) w of
              (ch, w') \<Rightarrow> Some (Alive (c\<lparr>conn_channel := ch\<rparr>), w')))"

subsection \<open>Static files\<close>

text \<open>The function-local statics of \<open>getStaticFd\<close>: the once flag, the descriptor, the size.\<close>

record static_cache =
  sc_once :: bool
  sc_fd :: int
  sc_size :: nat

definition static_cache_new :: static_cache where
  "static_cache_new = \<lparr>sc_once = False, sc_fd = -1, sc_size = 0\<rparr>"

definition open_static :: "'w kernel \<Rightarrow> bytes \<Rightarrow> static_cache \<Rightarrow> 'w \<Rightarrow> static_cache \<times> 'w" where
  "open_static K path sc w =
     (case k_open K (c_str path) w of
        (fd, w1) \<Rightarrow>
          if fd \<ge> 0 then
            (case k_fstat K fd w1 of
               (st, w2) \<Rightarrow>
                 (case st of
                    Some s \<Rightarrow>
                      if st_isreg s then (sc\<lparr>sc_once := True, sc_fd := fd, sc_size := st_size s\<rparr>, w2)
                      else (sc\<lparr>sc_once := True, sc_fd := -1\<rparr>, k_close K fd w2)
                  | None \<Rightarrow> (sc\<lparr>sc_once := True, sc_fd := -1\<rparr>, k_close K fd w2)))
          else (sc\<lparr>sc_once := True, sc_fd := fd\<rparr>, w1))"

definition getStaticFd ::
    "'w kernel \<Rightarrow> bytes \<Rightarrow> static_cache \<Rightarrow> 'w \<Rightarrow> (int \<times> nat) option \<times> static_cache \<times> 'w" where
  "getStaticFd K path sc w =
     (case (if sc_once sc then (sc, w) else open_static K path sc w) of
        (sc', w') \<Rightarrow> (if sc_fd sc' \<ge> 0 then Some (sc_fd sc', sc_size sc') else None, sc', w'))"

text \<open>\<open>sendFile\<close> returns \<^const>\<open>None\<close> in its first component when the file cannot be opened.\<close>

definition sendFile ::
    "'w kernel \<Rightarrow> connection \<Rightarrow> nat \<Rightarrow> bytes \<Rightarrow> bytes \<Rightarrow> bool \<Rightarrow> static_cache \<Rightarrow> 'w
     \<Rightarrow> (outcome option \<times> static_cache \<times> 'w) option" where
  "sendFile K c statusCode contentType path keepAlive sc w =
     (case getStaticFd K path sc w of
        (got, sc', w1) \<Rightarrow>
          (case got of
             None \<Rightarrow> Some (None, sc', w1)
           | Some (fd, sz) \<Rightarrow>
               (case writeFromBuffer K
                       (c\<lparr>writeBuf := fileHeader statusCode contentType sz keepAlive,
                          writeIndex := 0, closeAfterWrite := \<not> keepAlive,
                          fileFd := fd, fileOffset := 0, fileRemaining := sz\<rparr>) w1 of
                  None \<Rightarrow> None
                | Some (out, w2) \<Rightarrow> Some (Some out, sc', w2))))"

subsection \<open>The contract of a retry loop\<close>

text \<open>
  The three loops have one shape: attempt, advance on success, retry when interrupted, stop
  when the socket is full, give up otherwise. The locale states it once, with the
  induction principle of a partial loop, and proves once what holds of all three: an
  invariant rule, the reason for giving up, and termination under a measure.
\<close>

definition retry_body ::
    "('c \<Rightarrow> bool) \<Rightarrow> ('c \<Rightarrow> 'w \<Rightarrow> nat sysret \<times> 'w) \<Rightarrow> ('c \<Rightarrow> nat \<Rightarrow> 'c)
     \<Rightarrow> ('c \<Rightarrow> 'w \<Rightarrow> (drain \<times> 'c \<times> 'w) option) \<Rightarrow> 'c \<Rightarrow> 'w \<Rightarrow> (drain \<times> 'c \<times> 'w) option" where
  "retry_body unsent attempt advance f c w =
     (if unsent c then
        (case attempt c w of
           (r, w') \<Rightarrow>
             (case r of
                Ret n \<Rightarrow> if n > 0 then f (advance c n) w' else Some (Failed, c, w')
              | Err e \<Rightarrow>
                  if e = EINTR then f c w'
                  else if e = EAGAIN \<or> e = EWOULDBLOCK then Some (Blocked, c, w')
                  else Some (Failed, c, w')))
      else Some (Drained, c, w))"

locale retry_loop =
  fixes unsent :: "'c \<Rightarrow> bool"
    and attempt :: "'c \<Rightarrow> 'w \<Rightarrow> nat sysret \<times> 'w"
    and advance :: "'c \<Rightarrow> nat \<Rightarrow> 'c"
    and run :: "'c \<Rightarrow> 'w \<Rightarrow> (drain \<times> 'c \<times> 'w) option"
  assumes run_eq: "run c w = retry_body unsent attempt advance run c w"
    and run_induct: "\<lbrakk>\<And>f c w r. \<lbrakk>\<And>c w r. f c w = Some r \<Longrightarrow> P c w r;
        retry_body unsent attempt advance f c w = Some r\<rbrakk> \<Longrightarrow> P c w r; run c w = Some r\<rbrakk> \<Longrightarrow> P c w r"
begin

lemma run_rule:
  assumes "run c w = Some (d, c', w')" and "I c w"
    and adv: "\<And>c w n w'. \<lbrakk>I c w; unsent c; attempt c w = (Ret n, w'); 0 < n\<rbrakk> \<Longrightarrow> I (advance c n) w'"
    and stay: "\<And>c w r w'. \<lbrakk>I c w; unsent c; attempt c w = (r, w'); r = Ret 0 \<or> (\<exists>e. r = Err e)\<rbrakk> \<Longrightarrow> I c w'"
  shows "I c' w' \<and> (d = Drained \<longrightarrow> \<not> unsent c') \<and> (d \<noteq> Drained \<longrightarrow> unsent c')"
proof -
  have "\<And>r. run c w = Some r \<Longrightarrow> I c w \<longrightarrow>
     I (fst (snd r)) (snd (snd r)) \<and> (fst r = Drained \<longrightarrow> \<not> unsent (fst (snd r)))
       \<and> (fst r \<noteq> Drained \<longrightarrow> unsent (fst (snd r)))"
  proof (rule run_induct [where P = "\<lambda>c w r. I c w \<longrightarrow>
     I (fst (snd r)) (snd (snd r)) \<and> (fst r = Drained \<longrightarrow> \<not> unsent (fst (snd r)))
       \<and> (fst r \<noteq> Drained \<longrightarrow> unsent (fst (snd r)))"])
    fix f c w r
    assume IH: "\<And>c w r. f c w = Some r \<Longrightarrow> I c w \<longrightarrow>
        I (fst (snd r)) (snd (snd r)) \<and> (fst r = Drained \<longrightarrow> \<not> unsent (fst (snd r)))
          \<and> (fst r \<noteq> Drained \<longrightarrow> unsent (fst (snd r)))"
      and eq: "retry_body unsent attempt advance f c w = Some r"
    obtain a w1 where a: "attempt c w = (a, w1)" by fastforce
    have adv': "I c w \<Longrightarrow> unsent c \<Longrightarrow> a = Ret n \<Longrightarrow> 0 < n \<Longrightarrow> I (advance c n) w1" for n
      using adv a by simp
    have stay': "I c w \<Longrightarrow> unsent c \<Longrightarrow> a = Ret 0 \<or> (\<exists>e. a = Err e) \<Longrightarrow> I c w1"
      using stay a by blast
    show "I c w \<longrightarrow> I (fst (snd r)) (snd (snd r)) \<and> (fst r = Drained \<longrightarrow> \<not> unsent (fst (snd r)))
          \<and> (fst r \<noteq> Drained \<longrightarrow> unsent (fst (snd r)))"
    proof (cases a)
      case (Ret n)
      with eq a IH [of "advance c n" w1 r] adv' [of n] stay' show ?thesis
        by (auto simp: retry_body_def split: if_splits)
    next
      case (Err e)
      with eq a IH [of c w1 r] stay' show ?thesis
        by (auto simp: retry_body_def split: if_splits)
    qed
  qed
  from this [OF assms(1)] assms(2) show ?thesis by simp
qed

lemma run_total:
  assumes "J c w"
    and adv: "\<And>c w n w'. \<lbrakk>J c w; unsent c; attempt c w = (Ret n, w'); 0 < n\<rbrakk> \<Longrightarrow>
      J (advance c n) w' \<and> left (advance c n) < (left c :: nat) \<and> fuel w' \<le> (fuel w :: nat)"
    and intr: "\<And>c w w'. \<lbrakk>J c w; unsent c; attempt c w = (Err EINTR, w')\<rbrakk> \<Longrightarrow> J c w' \<and> fuel w' < fuel w"
  shows "\<exists>r. run c w = Some r"
  using assms(1)
proof (induction "left c + fuel w" arbitrary: c w rule: less_induct)
  case less
  obtain a w1 where a: "attempt c w = (a, w1)" by fastforce
  show ?case
  proof (cases "unsent c \<and> ((\<exists>n>0. a = Ret n) \<or> a = Err EINTR)")
    case False
    with a show ?thesis by (subst run_eq) (cases a, auto simp: retry_body_def)
  next
    case True
    then consider n where "a = Ret n" "0 < n" | "a = Err EINTR" by blast
    then show ?thesis
    proof cases
      case 1
      then have "\<exists>r. run (advance c n) w1 = Some r"
        using adv [of c w n w1] a True less.prems by (intro less.hyps) auto
      with 1 a True show ?thesis by (subst run_eq) (auto simp: retry_body_def)
    next
      case 2
      then have "\<exists>r. run c w1 = Some r"
        using intr [of c w w1] a True less.prems by (intro less.hyps) auto
      with 2 a True show ?thesis by (subst run_eq) (auto simp: retry_body_def)
    qed
  qed
qed

end

definition hard_failure :: "nat sysret \<Rightarrow> bool" where
  "hard_failure r \<longleftrightarrow>
     r = Ret 0 \<or> (\<exists>e. r = Err e \<and> e \<noteq> EINTR \<and> e \<noteq> EAGAIN \<and> e \<noteq> EWOULDBLOCK)"

definition full_socket :: "nat sysret \<Rightarrow> bool" where
  "full_socket r \<longleftrightarrow> r = Err EAGAIN \<or> r = Err EWOULDBLOCK"

context retry_loop
begin

text \<open>Why a loop stopped before everything was sent: the last attempt found the socket full or failed.\<close>

lemma run_stop:
  assumes "run c w = Some (d, c', w')" and "d \<noteq> Drained"
  shows "\<exists>w0 r. attempt c' w0 = (r, w') \<and> unsent c' \<and> (if d = Failed then hard_failure r else full_socket r)"
proof -
  let ?P = "\<lambda>r. fst r \<noteq> Drained \<longrightarrow> (\<exists>w0 a. attempt (fst (snd r)) w0 = (a, snd (snd r)) \<and> unsent (fst (snd r))
      \<and> (if fst r = Failed then hard_failure a else full_socket a))"
  have "\<And>r. run c w = Some r \<Longrightarrow> ?P r"
  proof (rule run_induct [where P = "\<lambda>c w. ?P"])
    fix f c w r
    assume IH: "\<And>c w r. f c w = Some r \<Longrightarrow> ?P r" and eq: "retry_body unsent attempt advance f c w = Some r"
    obtain a w1 where a: "attempt c w = (a, w1)" by fastforce
    show "?P r"
    proof (cases a)
      case (Ret n)
      with eq a IH [of "advance c n" w1 r] show ?thesis
        by (auto simp: retry_body_def hard_failure_def split: if_splits) blast+
    next
      case (Err e)
      with eq a IH [of c w1 r] show ?thesis
        by (auto simp: retry_body_def hard_failure_def full_socket_def split: if_splits) blast+
    qed
  qed
  from this [OF assms(1)] assms(2) show ?thesis by auto
qed

lemma run_exit:
  "run c w = Some (d, c', w') \<Longrightarrow> d = Failed \<Longrightarrow> \<exists>w0 r. attempt c' w0 = (r, w') \<and> unsent c' \<and> hard_failure r"
  using run_stop by fastforce

end

abbreviation buf_more :: "connection \<Rightarrow> bool" where
  "buf_more c \<equiv> writeIndex c < length (writeBuf c)"

abbreviation file_more :: "connection \<Rightarrow> bool" where
  "file_more c \<equiv> fileFd c \<ge> 0 \<and> fileRemaining c > 0"

lemma drain_buf_induct:
  assumes step: "\<And>f c w r. \<lbrakk>\<And>c w r. f c w = Some r \<Longrightarrow> P c w r;
      retry_body buf_more (\<lambda>c. k_write K (sock_fd c) (drop (writeIndex c) (writeBuf c)))
        (\<lambda>c n. c\<lparr>writeIndex := writeIndex c + n\<rparr>) f c w = Some r\<rbrakk> \<Longrightarrow> P c w r"
    and ret: "drain_buf K c w = Some r"
  shows "P c w r"
proof -
  have "K = K \<longrightarrow> P c w r"
  proof (rule drain_buf.raw_induct [where P = "\<lambda>K' c w r. K' = K \<longrightarrow> P c w r", OF _ ret], intro impI, goal_cases)
    case (1 f K' c w r)
    have "retry_body buf_more (\<lambda>c. k_write K (sock_fd c) (drop (writeIndex c) (writeBuf c)))
        (\<lambda>c n. c\<lparr>writeIndex := writeIndex c + n\<rparr>) (f K) c w = Some r"
      using 1(2) unfolding 1(3) retry_body_def .
    with 1(1) show ?case by (intro step [of "f K" c w r]) simp_all
  qed
  then show ?thesis by simp
qed

lemma drain_file_induct:
  assumes step: "\<And>f c w r. \<lbrakk>\<And>c w r. f c w = Some r \<Longrightarrow> P c w r;
      retry_body file_more (\<lambda>c. k_sendfile K (sock_fd c) (fileFd c) (fileOffset c) (fileRemaining c))
        (\<lambda>c n. c\<lparr>fileOffset := fileOffset c + n, fileRemaining := fileRemaining c - n\<rparr>) f c w = Some r\<rbrakk>
        \<Longrightarrow> P c w r"
    and ret: "drain_file K c w = Some r"
  shows "P c w r"
proof -
  have "K = K \<longrightarrow> P c w r"
  proof (rule drain_file.raw_induct [where P = "\<lambda>K' c w r. K' = K \<longrightarrow> P c w r", OF _ ret], intro impI, goal_cases)
    case (1 f K' c w r)
    have "retry_body file_more (\<lambda>c. k_sendfile K (sock_fd c) (fileFd c) (fileOffset c) (fileRemaining c))
        (\<lambda>c n. c\<lparr>fileOffset := fileOffset c + n, fileRemaining := fileRemaining c - n\<rparr>) (f K) c w = Some r"
      using 1(2) unfolding 1(3) retry_body_def .
    with 1(1) show ?case by (intro step [of "f K" c w r]) simp_all
  qed
  then show ?thesis by simp
qed

lemma send_loop_induct:
  assumes step: "\<And>f n w r. \<lbrakk>\<And>n w r. f n w = Some r \<Longrightarrow> P n w r;
      retry_body (\<lambda>n. n < length data) (\<lambda>n. k_write K fd (drop n data)) (+) f n w = Some r\<rbrakk> \<Longrightarrow> P n w r"
    and ret: "send_loop K fd data n w = Some r"
  shows "P n w r"
proof -
  have "K = K \<and> fd = fd \<and> data = data \<longrightarrow> P n w r"
  proof (rule send_loop.raw_induct [where P = "\<lambda>K' fd' data' n w r. K' = K \<and> fd' = fd \<and> data' = data \<longrightarrow> P n w r",
        OF _ ret], intro impI, elim conjE, goal_cases)
    case (1 f K' fd' data' n w r)
    have "retry_body (\<lambda>n. n < length data) (\<lambda>n. k_write K fd (drop n data)) (+) (f K fd data) n w = Some r"
      using 1(2) unfolding 1(3-5) retry_body_def .
    with 1(1) show ?case by (intro step [of "f K fd data" n w r]) simp_all
  qed
  then show ?thesis by simp
qed

interpretation bufloop: retry_loop buf_more
    "\<lambda>c. k_write K (sock_fd c) (drop (writeIndex c) (writeBuf c))"
    "\<lambda>c n. c\<lparr>writeIndex := writeIndex c + n\<rparr>" "drain_buf K" for K
  by unfold_locales (unfold retry_body_def, rule drain_buf.simps, rule drain_buf_induct, unfold retry_body_def, blast+)

interpretation fileloop: retry_loop file_more
    "\<lambda>c. k_sendfile K (sock_fd c) (fileFd c) (fileOffset c) (fileRemaining c)"
    "\<lambda>c n. c\<lparr>fileOffset := fileOffset c + n, fileRemaining := fileRemaining c - n\<rparr>" "drain_file K" for K
  by unfold_locales (unfold retry_body_def, rule drain_file.simps, rule drain_file_induct, unfold retry_body_def, blast+)

interpretation sendloop: retry_loop "\<lambda>n. n < length data" "\<lambda>n. k_write K fd (drop n data)" "(+)"
    "send_loop K fd data" for K fd data
  by unfold_locales (unfold retry_body_def, rule send_loop.simps, rule send_loop_induct, unfold retry_body_def, blast+)

subsection \<open>Conservation of the byte stream\<close>

text \<open>The peer is reachable and the file intact: no attempt fails for good.\<close>

definition peer_up :: "'w kernel \<Rightarrow> bool" where
  "peer_up K \<longleftrightarrow>
     (\<forall>fd d w r w'. k_write K fd d w = (r, w') \<longrightarrow> d \<noteq> [] \<longrightarrow> \<not> hard_failure r)
     \<and> (\<forall>fd f off cnt w r w'. k_sendfile K fd f off cnt w = (r, w') \<longrightarrow> 0 < cnt \<longrightarrow> \<not> hard_failure r)"

lemma peer_up_write: "peer_up K \<Longrightarrow> k_write K fd d w = (r, w') \<Longrightarrow> d \<noteq> [] \<Longrightarrow> \<not> hard_failure r"
  unfolding peer_up_def by blast

lemma peer_up_sendfile:
  "peer_up K \<Longrightarrow> k_sendfile K fd f off cnt w = (r, w') \<Longrightarrow> 0 < cnt \<Longrightarrow> \<not> hard_failure r"
  unfolding peer_up_def by blast

definition delivers :: "('w \<Rightarrow> int \<Rightarrow> bytes) \<Rightarrow> int \<Rightarrow> bytes \<Rightarrow> 'w \<Rightarrow> bytes \<Rightarrow> 'w \<Rightarrow> bool" where
  "delivers sent fd p w p' w' \<longleftrightarrow>
     sent w' fd @ p' = sent w fd @ p \<and> (\<forall>g. g \<noteq> fd \<longrightarrow> sent w' g = sent w g)"

lemma delivers_refl [simp]: "delivers sent fd p w p w"
  by (simp add: delivers_def)

lemma delivers_trans [trans]:
  "delivers sent fd p w p' w' \<Longrightarrow> delivers sent fd p' w' p'' w'' \<Longrightarrow> delivers sent fd p w p'' w''"
  by (simp add: delivers_def)

lemma delivers_silent: "delivers sent fd p w p' w' \<Longrightarrow> sent w'' = sent w' \<Longrightarrow> delivers sent fd p w p' w''"
  by (simp add: delivers_def)

definition file_part :: "(int \<Rightarrow> bytes) \<Rightarrow> connection \<Rightarrow> bytes" where
  "file_part file c =
     (if fileFd c \<ge> 0 then take (fileRemaining c) (drop (fileOffset c) (file (fileFd c))) else [])"

definition pending :: "(int \<Rightarrow> bytes) \<Rightarrow> connection \<Rightarrow> bytes" where
  "pending file c = drop (writeIndex c) (writeBuf c) @ file_part file c"

definition wf_out :: "(int \<Rightarrow> bytes) \<Rightarrow> connection \<Rightarrow> bool" where
  "wf_out file c \<longleftrightarrow> writeIndex c \<le> length (writeBuf c)
     \<and> (fileFd c \<ge> 0 \<longrightarrow> fileOffset c + fileRemaining c \<le> length (file (fileFd c)))"

lemma drain_buf_delivers:
  assumes "stream_kernel K sent file" and "writeIndex c \<le> length (writeBuf c)"
    and "drain_buf K c w = Some (d, c', w')"
  shows "\<exists>i. c' = c\<lparr>writeIndex := i\<rparr> \<and> i \<le> length (writeBuf c)
    \<and> (d = Drained \<longleftrightarrow> i = length (writeBuf c))
    \<and> delivers sent (sock_fd c) (drop (writeIndex c) (writeBuf c) @ t) w (drop i (writeBuf c) @ t) w'"
proof -
  have acc: "write_accepts K sent" using assms(1) by (simp add: stream_kernel_def)
  let ?I = "\<lambda>c1 w1. \<exists>i. c1 = c\<lparr>writeIndex := i\<rparr> \<and> i \<le> length (writeBuf c)
     \<and> delivers sent (sock_fd c) (drop (writeIndex c) (writeBuf c) @ t) w (drop i (writeBuf c) @ t) w1"
  have "?I c' w' \<and> (d = Drained \<longrightarrow> \<not> buf_more c') \<and> (d \<noteq> Drained \<longrightarrow> buf_more c')"
  proof (rule bufloop.run_rule [OF assms(3)], goal_cases)
    case 1
    show ?case using assms(2) by (intro exI [of _ "writeIndex c"]) simp
  next
    case (2 c1 w1 n w2)
    then obtain i where i: "c1 = c\<lparr>writeIndex := i\<rparr>" "i \<le> length (writeBuf c)"
      "delivers sent (sock_fd c) (drop (writeIndex c) (writeBuf c) @ t) w (drop i (writeBuf c) @ t) w1"
      by blast
    from write_acceptsD [OF acc 2(3)] i(1) have n: "n \<le> length (writeBuf c) - i"
      "sent w2 = (sent w1)(sock_fd c := sent w1 (sock_fd c) @ take n (drop i (writeBuf c)))"
      by simp_all
    have "take n (drop i (writeBuf c)) @ drop (i + n) (writeBuf c) = drop i (writeBuf c)"
      by (metis add.commute append_take_drop_id drop_drop)
    then have "delivers sent (sock_fd c) (drop i (writeBuf c) @ t) w1 (drop (i + n) (writeBuf c) @ t) w2"
      using n(2) by (simp add: delivers_def)
    with i n(1) show ?case by (intro exI [of _ "i + n"]) (auto intro: delivers_trans)
  next
    case (3 c1 w1 r w2)
    then have "sent w2 = sent w1"
      using acc by (auto dest: write_acceptsD write_accepts_Err)
    with 3(1) show ?case by (auto intro: delivers_silent)
  qed
  then show ?thesis by auto
qed

lemma drain_file_delivers:
  assumes "stream_kernel K sent file"
    and "fileFd c \<ge> 0 \<longrightarrow> fileOffset c + fileRemaining c \<le> length (file (fileFd c))"
    and "drain_file K c w = Some (d, c', w')"
  shows "\<exists>i j. c' = c\<lparr>fileOffset := i, fileRemaining := j\<rparr>
    \<and> (fileFd c \<ge> 0 \<longrightarrow> i + j \<le> length (file (fileFd c)))
    \<and> (d = Drained \<longleftrightarrow> \<not> (fileFd c \<ge> 0 \<and> j > 0))
    \<and> delivers sent (sock_fd c) (file_part file c) w (file_part file c') w'"
proof -
  have acc: "sendfile_accepts K sent file" using assms(1) by (simp add: stream_kernel_def)
  let ?I = "\<lambda>c1 w1. \<exists>i j. c1 = c\<lparr>fileOffset := i, fileRemaining := j\<rparr>
     \<and> (fileFd c \<ge> 0 \<longrightarrow> i + j \<le> length (file (fileFd c)))
     \<and> delivers sent (sock_fd c) (file_part file c) w (file_part file c1) w1"
  have "?I c' w' \<and> (d = Drained \<longrightarrow> \<not> file_more c') \<and> (d \<noteq> Drained \<longrightarrow> file_more c')"
  proof (rule fileloop.run_rule [OF assms(3)], goal_cases)
    case 1
    show ?case using assms(2) by (intro exI [of _ "fileOffset c"] exI [of _ "fileRemaining c"]) simp
  next
    case (2 c1 w1 n w2)
    then obtain i j where i: "c1 = c\<lparr>fileOffset := i, fileRemaining := j\<rparr>"
      "fileFd c \<ge> 0 \<longrightarrow> i + j \<le> length (file (fileFd c))"
      "delivers sent (sock_fd c) (file_part file c) w (file_part file c1) w1"
      by blast
    from sendfile_acceptsD [OF acc 2(3)] i(1) have n: "n \<le> j"
      "sent w2 = (sent w1)(sock_fd c := sent w1 (sock_fd c) @ take n (drop i (file (fileFd c))))"
      by simp_all
    have "take n (drop i (file (fileFd c))) @ take (j - n) (drop (i + n) (file (fileFd c)))
        = take j (drop i (file (fileFd c)))"
      using take_add [of n "j - n" "drop i (file (fileFd c))"] n(1) by (simp add: add.commute)
    then have "delivers sent (sock_fd c) (file_part file c1) w1
        (file_part file (c\<lparr>fileOffset := i + n, fileRemaining := j - n\<rparr>)) w2"
      using n(2) i(1) 2(2) by (simp add: delivers_def file_part_def)
    with i n(1) show ?case
      by (intro exI [of _ "i + n"] exI [of _ "j - n"]) (auto intro: delivers_trans)
  next
    case (3 c1 w1 r w2)
    then have "sent w2 = sent w1"
      using acc by (auto dest: sendfile_acceptsD sendfile_accepts_Err)
    with 3(1) show ?case by (blast intro: delivers_silent)
  qed
  then obtain i j where "c' = c\<lparr>fileOffset := i, fileRemaining := j\<rparr>"
    "fileFd c \<ge> 0 \<longrightarrow> i + j \<le> length (file (fileFd c))"
    "delivers sent (sock_fd c) (file_part file c) w (file_part file c') w'"
    "d = Drained \<longleftrightarrow> \<not> file_more c'" by blast
  then show ?thesis by (intro exI [of _ i] exI [of _ j]) simp
qed

definition write_watched :: "connection \<Rightarrow> bool" where
  "write_watched c \<longleftrightarrow> ch_events (conn_channel c) AND EPOLLOUT = EPOLLOUT"

text \<open>
  The invariant between events: with nothing left to send a connection is neither closing
  nor watching for writability, with something left it is watching.
\<close>

definition conn_inv :: "(int \<Rightarrow> bytes) \<Rightarrow> connection \<Rightarrow> bool" where
  "conn_inv file c \<longleftrightarrow> wf_out file c
     \<and> (if pending file c = [] then \<not> closeAfterWrite c \<and> \<not> write_watched c else write_watched c)"

text \<open>What a run of the write path leaves of a connection that survives it.\<close>

definition conn_after ::
    "(int \<Rightarrow> bytes) \<Rightarrow> ('w \<Rightarrow> int \<Rightarrow> bytes) \<Rightarrow> connection \<Rightarrow> 'w \<Rightarrow> connection \<Rightarrow> 'w \<Rightarrow> bool" where
  "conn_after file sent c w c' w' \<longleftrightarrow>
     delivers sent (sock_fd c) (pending file c) w (pending file c') w' \<and> conn_inv file c'
     \<and> sock_fd c' = sock_fd c \<and> inputBuffer c' = inputBuffer c
     \<and> closeAfterWrite c' = closeAfterWrite c"

lemma EPOLLOUT_nonzero: "EPOLLOUT \<noteq> 0"
  by (simp add: EPOLLOUT_def)

lemma enableWriting_watched:
  "ch_events (fst (enableWriting K ch w)) AND EPOLLOUT = EPOLLOUT"
  by (simp add: enableWriting_def bit_eq_iff bit_simps)

lemma disableWriting_unwatched:
  "ch_events (fst (disableWriting K ch w)) AND EPOLLOUT = 0"
  by (simp add: disableWriting_def bit_eq_iff bit_simps)

lemma enableWriting_silent: "ctl_silent K sent \<Longrightarrow> sent (snd (enableWriting K ch w)) = sent w"
  by (simp add: enableWriting_def updateChannel_silent)

lemma disableWriting_silent: "ctl_silent K sent \<Longrightarrow> sent (snd (disableWriting K ch w)) = sent w"
  by (simp add: disableWriting_def updateChannel_silent)

lemma conn_enableWriting_after:
  assumes "ctl_silent K sent" and "delivers sent (sock_fd c) (pending file c) w (pending file c1) w1"
    and "wf_out file c1" and "sock_fd c1 = sock_fd c" and "inputBuffer c1 = inputBuffer c"
    and "closeAfterWrite c1 = closeAfterWrite c" and "pending file c1 \<noteq> []"
  shows "\<exists>c' w'. conn_enableWriting K c1 w1 = (Alive c', w') \<and> conn_after file sent c w c' w'"
proof -
  obtain ch w2 where e: "enableWriting K (conn_channel c1) w1 = (ch, w2)" by fastforce
  have "sent w2 = sent w1" "ch_events ch AND EPOLLOUT = EPOLLOUT"
    using enableWriting_silent [OF assms(1)] enableWriting_watched e by (metis fst_conv snd_conv)+
  with assms e show ?thesis
    by (auto simp: conn_enableWriting_def conn_after_def conn_inv_def wf_out_def write_watched_def pending_def
        file_part_def intro: delivers_silent)
qed

text \<open>The two phases of \<open>writeFromBuffer\<close> and its regular end.\<close>

lemma buffer_phase:
  assumes "stream_kernel K sent file" and "wf_out file c" and "drain_buf K c w = Some (d, c1, w1)"
  shows "wf_out file c1" and "delivers sent (sock_fd c) (pending file c) w (pending file c1) w1"
    and "d \<noteq> Drained \<Longrightarrow> pending file c1 \<noteq> []" and "d = Drained \<Longrightarrow> pending file c1 = file_part file c1"
    and "sock_fd c1 = sock_fd c" and "inputBuffer c1 = inputBuffer c" and "closeAfterWrite c1 = closeAfterWrite c"
proof -
  from drain_buf_delivers [OF assms(1) _ assms(3)] assms(2) obtain i where
    i: "c1 = c\<lparr>writeIndex := i\<rparr>" "i \<le> length (writeBuf c)" "d = Drained \<longleftrightarrow> i = length (writeBuf c)"
      "delivers sent (sock_fd c) (pending file c) w (drop i (writeBuf c) @ file_part file c) w1"
    by (auto simp: wf_out_def pending_def)
  have p: "pending file c1 = drop i (writeBuf c) @ file_part file c" "file_part file c1 = file_part file c"
    by (simp_all add: i(1) pending_def file_part_def)
  show "wf_out file c1" "sock_fd c1 = sock_fd c" "inputBuffer c1 = inputBuffer c" "closeAfterWrite c1 = closeAfterWrite c"
    using i(1,2) assms(2) by (simp_all add: wf_out_def)
  show "delivers sent (sock_fd c) (pending file c) w (pending file c1) w1" using i(4) p by simp
  show "d \<noteq> Drained \<Longrightarrow> pending file c1 \<noteq> []" and "d = Drained \<Longrightarrow> pending file c1 = file_part file c1"
    using i(2,3) p by simp_all
qed

lemma file_phase:
  assumes "stream_kernel K sent file" and "wf_out file c" and "pending file c = file_part file c"
    and "drain_file K c w = Some (d, c1, w1)"
  shows "wf_out file c1" and "delivers sent (sock_fd c) (pending file c) w (pending file c1) w1"
    and "d = Drained \<longleftrightarrow> pending file c1 = []"
    and "sock_fd c1 = sock_fd c" and "inputBuffer c1 = inputBuffer c" and "closeAfterWrite c1 = closeAfterWrite c"
proof -
  from drain_file_delivers [OF assms(1) _ assms(4)] assms(2) obtain k j where
    k: "c1 = c\<lparr>fileOffset := k, fileRemaining := j\<rparr>" "fileFd c \<ge> 0 \<longrightarrow> k + j \<le> length (file (fileFd c))"
      "d = Drained \<longleftrightarrow> \<not> (fileFd c \<ge> 0 \<and> j > 0)"
      "delivers sent (sock_fd c) (file_part file c) w (file_part file c1) w1"
    unfolding wf_out_def by blast
  have p: "pending file c1 = file_part file c1" using assms(3) by (simp add: k(1) pending_def)
  show "wf_out file c1" "sock_fd c1 = sock_fd c" "inputBuffer c1 = inputBuffer c" "closeAfterWrite c1 = closeAfterWrite c"
    using k(1,2) assms(2) by (simp_all add: wf_out_def)
  show "delivers sent (sock_fd c) (pending file c) w (pending file c1) w1" using k(4) p assms(3) by simp
  show "d = Drained \<longleftrightarrow> pending file c1 = []" using k(1-3) p by (auto simp: file_part_def)
qed

lemma sent_completely:
  assumes "ctl_silent K sent" and "delivers sent (sock_fd c) (pending file c) w [] w2"
    and "sock_fd c2 = sock_fd c" and "inputBuffer c2 = inputBuffer c" and "closeAfterWrite c2 = closeAfterWrite c"
    and "disableWriting K (conn_channel c2) w2 = (ch, w3)"
  shows "delivers sent (sock_fd c) (pending file c) w [] w3"
    and "\<not> closeAfterWrite c \<Longrightarrow>
      conn_after file sent c w (c2\<lparr>fileFd := -1, writeBuf := [], writeIndex := 0, conn_channel := ch\<rparr>) w3"
proof -
  have "sent w3 = sent w2" "ch_events ch AND EPOLLOUT = 0"
    using disableWriting_silent [OF assms(1)] disableWriting_unwatched assms(6) by (metis fst_conv snd_conv)+
  then show d: "delivers sent (sock_fd c) (pending file c) w [] w3" using assms(2) by (auto intro: delivers_silent)
  show "\<not> closeAfterWrite c \<Longrightarrow>
      conn_after file sent c w (c2\<lparr>fileFd := -1, writeBuf := [], writeIndex := 0, conn_channel := ch\<rparr>) w3"
    using d assms(3-5) \<open>ch_events ch AND EPOLLOUT = 0\<close> EPOLLOUT_nonzero
    by (simp add: conn_after_def conn_inv_def pending_def file_part_def wf_out_def write_watched_def)
qed

lemma writeFromBuffer_after:
  assumes "stream_kernel K sent file" and "wf_out file c"
    and "writeFromBuffer K c w = Some (out, w')"
  shows "(\<exists>c'. out = Alive c' \<and> conn_after file sent c w c' w')
    \<or> (out = Destroyed \<and> (\<exists>rest. delivers sent (sock_fd c) (pending file c) w rest w'
          \<and> (peer_up K \<longrightarrow> rest = [] \<and> closeAfterWrite c)))"
proof -
  have silent: "ctl_silent K sent" using assms(1) by (simp add: stream_kernel_def)
  from assms(3) obtain d c1 w1 where d: "drain_buf K c w = Some (d, c1, w1)"
    by (auto simp: writeFromBuffer_def split: option.splits)
  note b = buffer_phase [OF assms(1,2) d]
  show ?thesis
  proof (cases d)
    case Blocked
    with conn_enableWriting_after [OF silent b(2,1,5-7)] b(3) assms(3) d show ?thesis
      by (auto simp: writeFromBuffer_def)
  next
    case Failed
    with bufloop.run_exit [OF d] have "\<not> peer_up K" by (auto dest: peer_up_write)
    with Failed assms(3) d b(2) show ?thesis by (auto simp: writeFromBuffer_def)
  next
    case Drained
    with assms(3) d obtain d2 c2 w2 where d2: "drain_file K c1 w1 = Some (d2, c2, w2)"
      by (auto simp: writeFromBuffer_def split: option.splits)
    note f = file_phase [OF assms(1) b(1) b(4) [OF Drained] d2]
    have del: "delivers sent (sock_fd c) (pending file c) w (pending file c2) w2"
      using b(2) f(2) b(5) by (auto intro: delivers_trans)
    have same: "sock_fd c2 = sock_fd c" "inputBuffer c2 = inputBuffer c" "closeAfterWrite c2 = closeAfterWrite c"
      using f(4-6) b(5-7) by simp_all
    show ?thesis
    proof (cases d2)
      case Blocked
      with conn_enableWriting_after [OF silent del f(1) same] f(3) Drained assms(3) d d2 show ?thesis
        by (auto simp: writeFromBuffer_def)
    next
      case Failed
      with fileloop.run_exit [OF d2] have "\<not> peer_up K" by (auto dest: peer_up_sendfile)
      with Failed assms(3) d Drained d2 del show ?thesis by (auto simp: writeFromBuffer_def)
    next
      case Drained2: Drained
      obtain ch w3 where e: "disableWriting K (conn_channel c2) w2 = (ch, w3)" by fastforce
      note fin = sent_completely [OF silent del [unfolded f(3) [THEN iffD1, OF Drained2]] same e]
      with assms(3) d Drained d2 Drained2 e same(3) show ?thesis
        by (cases "closeAfterWrite c") (auto simp: writeFromBuffer_def)
    qed
  qed
qed

subsection \<open>The write path returns\<close>

lemma finite_eintrD:
  assumes "finite_eintr K fuel"
  shows "k_write K fd d w = (r, w') \<Longrightarrow> fuel w' \<le> fuel w"
    and "k_write K fd d w = (Err EINTR, w') \<Longrightarrow> fuel w' < fuel w"
    and "k_sendfile K fd f off cnt w = (r, w') \<Longrightarrow> fuel w' \<le> fuel w"
    and "k_sendfile K fd f off cnt w = (Err EINTR, w') \<Longrightarrow> fuel w' < fuel w"
    and "k_read K fd n w = (rd, w') \<Longrightarrow> fuel w' \<le> fuel w"
    and "k_read K fd n w = (Err EINTR, w') \<Longrightarrow> fuel w' < fuel w"
  using assms unfolding finite_eintr_def by (metis less_imp_le)+

lemma drain_buf_returns:
  assumes "finite_eintr K fuel" and "write_accepts K sent" and "writeIndex c \<le> length (writeBuf c)"
  shows "\<exists>r. drain_buf K c w = Some r"
proof (rule bufloop.run_total [where J = "\<lambda>c w. writeIndex c \<le> length (writeBuf c)" and fuel = fuel
      and left = "\<lambda>c. length (writeBuf c) - writeIndex c"], goal_cases)
  case (2 c w n w')
  then show ?case
    using write_acceptsD(1) [OF assms(2) 2(3)] finite_eintrD(1) [OF assms(1) 2(3)] by auto
qed (use assms finite_eintrD(2) [OF assms(1)] in blast)+

lemma drain_file_returns:
  assumes "finite_eintr K fuel"
  shows "\<exists>r. drain_file K c w = Some r"
proof (rule fileloop.run_total [where J = "\<lambda>c w. True" and fuel = fuel and left = fileRemaining], goal_cases)
  case (2 c w n w')
  then show ?case using finite_eintrD(3) [OF assms 2(3)] by auto
qed (use finite_eintrD(4) [OF assms] in blast)+

lemma send_loop_returns:
  assumes "finite_eintr K fuel" and "write_accepts K sent" and "n \<le> length data"
  shows "\<exists>r. send_loop K fd data n w = Some r"
proof (rule sendloop.run_total [where J = "\<lambda>n w. n \<le> length data" and fuel = fuel
      and left = "\<lambda>n. length data - n"], goal_cases)
  case (2 n w k w')
  then show ?case
    using write_acceptsD(1) [OF assms(2) 2(3)] finite_eintrD(1) [OF assms(1) 2(3)] by auto
qed (use assms finite_eintrD(2) [OF assms(1)] in blast)+

lemma writeFromBuffer_returns:
  assumes "finite_eintr K fuel" and "write_accepts K sent" and "writeIndex c \<le> length (writeBuf c)"
  shows "\<exists>out w'. writeFromBuffer K c w = Some (out, w')"
proof -
  obtain d c1 w1 where d: "drain_buf K c w = Some (d, c1, w1)"
    using drain_buf_returns [OF assms] by (metis prod_cases3)
  obtain d2 c2 w2 where d2: "drain_file K c1 w1 = Some (d2, c2, w2)"
    using drain_file_returns [OF assms(1)] by (metis prod_cases3)
  obtain ch w3 where "disableWriting K (conn_channel c2) w2 = (ch, w3)" by fastforce
  moreover obtain o1 v1 where "conn_enableWriting K c1 w1 = (o1, v1)" by fastforce
  moreover obtain o2 v2 where "conn_enableWriting K c2 w2 = (o2, v2)" by fastforce
  ultimately show ?thesis
    using d d2 by (cases d; cases d2) (simp_all add: writeFromBuffer_def)
qed

lemma sendHttpResponse_returns:
  assumes "finite_eintr K fuel" and "write_accepts K sent"
  shows "\<exists>w'. sendHttpResponse K fd st ct body ka w = Some w'"
  using send_loop_returns [OF assms, of 0 "buildHttpResponse st ct body ka" fd w]
  by (auto simp: sendHttpResponse_def)

subsection \<open>Handling writability\<close>

lemma handleWrite_after:
  assumes "stream_kernel K sent file" and "conn_inv file c" and "handleWrite K c w = Some (out, w')"
  shows "(\<exists>c'. out = Alive c' \<and> conn_after file sent c w c' w')
    \<or> (out = Destroyed \<and> (\<exists>rest. delivers sent (sock_fd c) (pending file c) w rest w'
          \<and> (peer_up K \<longrightarrow> rest = [] \<and> closeAfterWrite c)))"
proof (cases "buf_more c \<or> file_more c")
  case True
  with assms show ?thesis
    by (intro writeFromBuffer_after) (auto simp: handleWrite_def conn_inv_def)
next
  case False
  have silent: "ctl_silent K sent" using assms(1) by (simp add: stream_kernel_def)
  obtain ch w1 where e: "disableWriting K (conn_channel c) w = (ch, w1)" by fastforce
  have e': "sent w1 = sent w" "ch_events ch AND EPOLLOUT = 0"
    using disableWriting_silent [OF silent] disableWriting_unwatched e by (metis fst_conv snd_conv)+
  have out: "out = Alive (c\<lparr>conn_channel := ch\<rparr>)" "w' = w1"
    using False assms(3) e by (auto simp: handleWrite_def)
  have p: "pending file c = []" "pending file (c\<lparr>conn_channel := ch\<rparr>) = []"
    using False by (auto simp: pending_def file_part_def)
  have "conn_after file sent c w (c\<lparr>conn_channel := ch\<rparr>) w'"
    using assms(2) e' out p EPOLLOUT_nonzero
    by (simp add: conn_after_def conn_inv_def wf_out_def write_watched_def delivers_def)
  with out show ?thesis by simp
qed

text \<open>
  The life of a connection between two responses: writable events, interleaved with
  anything that leaves its own byte stream alone.
\<close>

inductive write_events ::
    "'w kernel \<Rightarrow> ('w \<Rightarrow> int \<Rightarrow> bytes) \<Rightarrow> connection \<Rightarrow> 'w \<Rightarrow> connection \<Rightarrow> 'w \<Rightarrow> bool"
  for K sent c w where
  we_start: "write_events K sent c w c w"
| we_writable: "write_events K sent c w c1 w1 \<Longrightarrow> handleWrite K c1 w1 = Some (Alive c2, w2) \<Longrightarrow>
    write_events K sent c w c2 w2"
| we_other: "write_events K sent c w c1 w1 \<Longrightarrow> sent w2 (sock_fd c1) = sent w1 (sock_fd c1) \<Longrightarrow>
    write_events K sent c w c1 w2"

lemma write_events_conserve:
  assumes "stream_kernel K sent file" and "conn_inv file c" and "write_events K sent c w c' w'"
  shows "conn_inv file c' \<and> sock_fd c' = sock_fd c \<and> closeAfterWrite c' = closeAfterWrite c
    \<and> sent w' (sock_fd c) @ pending file c' = sent w (sock_fd c) @ pending file c"
  using assms(3)
proof (induction rule: write_events.induct)
  case we_start
  then show ?case using assms(2) by simp
next
  case (we_writable c1 w1 c2 w2)
  then have "conn_after file sent c1 w1 c2 w2"
    using handleWrite_after [OF assms(1) _ we_writable(2)] by auto
  with we_writable.IH show ?case by (auto simp: conn_after_def delivers_def)
qed auto

lemma sendResponse_after:
  assumes "stream_kernel K sent file" and "pending file c = []"
    and "fileFd c \<ge> 0 \<longrightarrow> fileOffset c + fileRemaining c \<le> length (file (fileFd c))"
    and "sendResponse K c st ct body ka w = Some (out, w')"
  shows "(\<exists>c'. out = Alive c' \<and> conn_inv file c' \<and> sock_fd c' = sock_fd c \<and> inputBuffer c' = inputBuffer c
        \<and> closeAfterWrite c' = (\<not> ka)
        \<and> delivers sent (sock_fd c) (buildHttpResponse st ct body ka) w (pending file c') w')
    \<or> (out = Destroyed \<and> (\<exists>rest. delivers sent (sock_fd c) (buildHttpResponse st ct body ka) w rest w'
          \<and> (peer_up K \<longrightarrow> rest = [] \<and> \<not> ka)))"
proof -
  let ?c = "c\<lparr>writeBuf := buildHttpResponse st ct body ka, writeIndex := 0, closeAfterWrite := \<not> ka\<rparr>"
  have p: "pending file ?c = buildHttpResponse st ct body ka"
    using assms(2) by (auto simp: pending_def file_part_def split: if_splits)
  have "wf_out file ?c" using assms(3) by (simp add: wf_out_def)
  from writeFromBuffer_after [OF assms(1) this assms(4) [unfolded sendResponse_def]] show ?thesis
    unfolding p conn_after_def by auto
qed

lemma sendFile_after:
  assumes "stream_kernel K sent file"
    and "getStaticFd K path sc w = (Some (fd, sz), sc', w1)" and "sz = length (file fd)" and "fd \<ge> 0"
    and "sendFile K c st ct path ka sc w = Some (Some out, sc'', w')"
  shows "(\<exists>c'. out = Alive c' \<and> conn_inv file c' \<and> sock_fd c' = sock_fd c \<and> inputBuffer c' = inputBuffer c
        \<and> closeAfterWrite c' = (\<not> ka)
        \<and> delivers sent (sock_fd c) (fileHeader st ct sz ka @ file fd) w1 (pending file c') w')
    \<or> (out = Destroyed \<and> (\<exists>rest. delivers sent (sock_fd c) (fileHeader st ct sz ka @ file fd) w1 rest w'
          \<and> (peer_up K \<longrightarrow> rest = [] \<and> \<not> ka)))"
proof -
  let ?c = "c\<lparr>writeBuf := fileHeader st ct sz ka, writeIndex := 0, closeAfterWrite := \<not> ka,
      fileFd := fd, fileOffset := 0, fileRemaining := sz\<rparr>"
  have p: "pending file ?c = fileHeader st ct sz ka @ file fd"
    using assms(3,4) by (simp add: pending_def file_part_def)
  have wf: "wf_out file ?c" using assms(3) by (simp add: wf_out_def)
  have run: "writeFromBuffer K ?c w1 = Some (out, w')"
    using assms(2,5) by (auto simp: sendFile_def split: option.splits)
  from writeFromBuffer_after [OF assms(1) wf run] show ?thesis
    unfolding p conn_after_def by auto
qed

subsection \<open>Direct sends\<close>

lemma send_loop_prefix:
  assumes "write_accepts K sent" and "n \<le> length data" and "send_loop K fd data n w = Some (d, n', w')"
  shows "n' \<le> length data \<and> (d = Drained \<longleftrightarrow> n' = length data) \<and> delivers sent fd (drop n data) w (drop n' data) w'"
proof -
  have "(n' \<le> length data \<and> delivers sent fd (drop n data) w (drop n' data) w')
      \<and> (d = Drained \<longrightarrow> \<not> n' < length data) \<and> (d \<noteq> Drained \<longrightarrow> n' < length data)"
  proof (rule sendloop.run_rule [OF assms(3)], goal_cases)
    case 1
    then show ?case using assms(2) by simp
  next
    case (2 i w1 k w2)
    from write_acceptsD [OF assms(1) 2(3)] have k: "k \<le> length data - i"
      "sent w2 = (sent w1)(fd := sent w1 fd @ take k (drop i data))" by simp_all
    have "take k (drop i data) @ drop (i + k) data = drop i data"
      by (metis add.commute append_take_drop_id drop_drop)
    with k(2) have "delivers sent fd (drop i data) w1 (drop (i + k) data) w2"
      by (simp add: delivers_def)
    with 2(1) k(1) 2(2) show ?case by (auto intro: delivers_trans)
  next
    case (3 i w1 r w2)
    then have "sent w2 = sent w1" using assms(1) by (auto dest: write_acceptsD write_accepts_Err)
    with 3(1) show ?case by (auto intro: delivers_silent)
  qed
  then show ?thesis by auto
qed

lemma sendHttpResponse_delivers:
  assumes "write_accepts K sent" and "sendHttpResponse K fd st ct body ka w = Some w'"
  shows "\<exists>n. sent w' fd = sent w fd @ take n (buildHttpResponse st ct body ka)"
    and "g \<noteq> fd \<Longrightarrow> sent w' g = sent w g"
proof -
  let ?r = "buildHttpResponse st ct body ka"
  from assms(2) obtain d n where "send_loop K fd (buildHttpResponse st ct body ka) 0 w = Some (d, n, w')"
    by (auto simp: sendHttpResponse_def split: option.splits)
  from send_loop_prefix [OF assms(1) _ this]
  have d: "sent w' fd @ drop n ?r = sent w fd @ ?r" "g \<noteq> fd \<longrightarrow> sent w' g = sent w g"
    by (simp_all add: delivers_def)
  from d(1) have "sent w' fd @ drop n ?r = (sent w fd @ take n ?r) @ drop n ?r" by simp
  then show "\<exists>n. sent w' fd = sent w fd @ take n ?r" by blast
  show "g \<noteq> fd \<Longrightarrow> sent w' g = sent w g" using d(2) by simp
qed

text \<open>
  When the loop stops before the end, the kernel refused the rest: the last attempt was to
  write exactly the bytes that are missing.
\<close>

definition cut_short :: "'w kernel \<Rightarrow> int \<Rightarrow> bytes \<Rightarrow> 'w \<Rightarrow> bool" where
  "cut_short K fd rest w' \<longleftrightarrow>
     rest \<noteq> [] \<and> (\<exists>w0 r. k_write K fd rest w0 = (r, w') \<and> (full_socket r \<or> hard_failure r))"

lemma sendHttpResponse_complete:
  assumes "write_accepts K sent" and "sendHttpResponse K fd st ct body ka w = Some w'"
  defines "data \<equiv> buildHttpResponse st ct body ka"
  shows "\<exists>n. sent w' = (sent w)(fd := sent w fd @ take n data) \<and> (n = length data \<or> cut_short K fd (drop n data) w')"
proof -
  from assms(2) obtain d n where run: "send_loop K fd data 0 w = Some (d, n, w')"
    by (auto simp: sendHttpResponse_def data_def split: option.splits)
  from send_loop_prefix [OF assms(1) _ run]
  have n: "n \<le> length data" "d = Drained \<longleftrightarrow> n = length data" "sent w' fd @ drop n data = sent w fd @ data"
    "\<forall>g. g \<noteq> fd \<longrightarrow> sent w' g = sent w g"
    by (auto simp: delivers_def)
  from n(3) have "sent w' fd @ drop n data = (sent w fd @ take n data) @ drop n data" by simp
  then have "sent w' fd = sent w fd @ take n data" by blast
  then have "sent w' = (sent w)(fd := sent w fd @ take n data)" using n(4) by (simp add: fun_eq_iff)
  moreover have "cut_short K fd (drop n data) w'" if "n \<noteq> length data"
    using sendloop.run_stop [OF run] n(1,2) that by (auto simp: cut_short_def split: if_splits)
  ultimately show ?thesis by blast
qed

end
