(* ===== verification/ConnDelivery.thy ===== *)
theory ConnDelivery
  imports ConnWrite
begin

section \<open>Delivery of responses\<close>

text \<open>
  The properties of the write path: a response is conserved byte for byte across partial
  writes and writable events, a connection closes only after its response, every send
  returns. A scripted kernel that satisfies all contracts serves the witnesses.
\<close>

subsection \<open>A scripted kernel for examples\<close>

text \<open>
  The world of the examples: the bytes accepted so far, a script of write results (an
  interruption, a full socket, or at most so many bytes; when it is used up, everything is
  accepted) and the chunks still to be read. It satisfies every contract above.
\<close>

datatype quota = Interrupted | Full | Upto nat

record demo_world =
  dw_sent :: "int \<Rightarrow> bytes"
  dw_script :: "quota list"
  dw_input :: "bytes list"

definition demo_accept :: "int \<Rightarrow> bytes \<Rightarrow> demo_world \<Rightarrow> nat sysret \<times> demo_world" where
  "demo_accept fd d w =
     (case dw_script w of
        [] \<Rightarrow> (Ret (length d), w\<lparr>dw_sent := (dw_sent w)(fd := dw_sent w fd @ d)\<rparr>)
      | Interrupted # q \<Rightarrow> (Err EINTR, w\<lparr>dw_script := q\<rparr>)
      | Full # q \<Rightarrow> (Err EAGAIN, w\<lparr>dw_script := q\<rparr>)
      | Upto n # q \<Rightarrow>
          (let k = min (Suc n) (length d)
           in (Ret k, w\<lparr>dw_sent := (dw_sent w)(fd := dw_sent w fd @ take k d), dw_script := q\<rparr>)))"

definition demo_file :: "int \<Rightarrow> bytes" where
  "demo_file f = (if f = 9 then ''<html>'' else [])"

definition demo_kernel :: "demo_world kernel" where
  "demo_kernel =
     \<lparr>k_write = demo_accept,
      k_read = (\<lambda>fd n w.
        case dw_input w of [] \<Rightarrow> (Err EAGAIN, w) | x # xs \<Rightarrow> (Ret (take n x), w\<lparr>dw_input := xs\<rparr>)),
      k_sendfile = (\<lambda>fd f off cnt w.
        if length (demo_file f) \<le> off then (Err EAGAIN, w)
        else demo_accept fd (take cnt (drop off (demo_file f))) w),
      k_epoll_ctl = (\<lambda>ep op fd ev w. (Ret (), w)), k_time = (\<lambda>w. (100, w)),
      k_open = (\<lambda>p w. (9, w)),
      k_fstat = (\<lambda>fd w. (Some \<lparr>st_isreg = True, st_size = length (demo_file fd)\<rparr>, w)),
      k_close = (\<lambda>fd w. w)\<rparr>"

lemma demo_accept_cases:
  assumes "demo_accept fd d w = (r, w')"
  shows "(case r of
           Ret n \<Rightarrow> n \<le> length d \<and> (d \<noteq> [] \<longrightarrow> 0 < n)
             \<and> dw_sent w' = (dw_sent w)(fd := dw_sent w fd @ take n d)
         | Err e \<Rightarrow> dw_sent w' = dw_sent w \<and> (e = EINTR \<or> e = EAGAIN))
    \<and> (if r = Err EINTR then length (dw_script w') < length (dw_script w)
       else length (dw_script w') \<le> length (dw_script w))"
  using assms by (auto simp: demo_accept_def Let_def split: list.splits quota.splits)

lemma demo_stream: "stream_kernel demo_kernel dw_sent demo_file"
proof -
  have w: "write_accepts demo_kernel dw_sent"
    unfolding write_accepts_def demo_kernel_def
    by (auto dest!: demo_accept_cases split: sysret.splits)
  have s: "sendfile_accepts demo_kernel dw_sent demo_file"
    unfolding sendfile_accepts_def demo_kernel_def
    by (auto dest!: demo_accept_cases split: sysret.splits if_splits)
  have "ctl_silent demo_kernel dw_sent"
    unfolding ctl_silent_def demo_kernel_def by (auto split: list.splits)
  with w s show ?thesis by (simp add: stream_kernel_def)
qed

lemma demo_peer_up: "peer_up demo_kernel"
  unfolding peer_up_def demo_kernel_def hard_failure_def
  by (auto dest!: demo_accept_cases split: sysret.splits if_splits)

lemma demo_finite: "finite_eintr demo_kernel (\<lambda>w. length (dw_script w))"
  unfolding finite_eintr_def demo_kernel_def
  by (auto dest!: demo_accept_cases split: sysret.splits if_splits list.splits)

definition demo_conn :: connection where
  "demo_conn =
     \<lparr>conn_channel = channel_new 1 0 5, sock_fd = 5, writeBuf = [], writeIndex = 0, inputBuffer = [],
      closeAfterWrite = False, lastActiveSec = 0, fileFd = -1, fileOffset = 0, fileRemaining = 0\<rparr>"

definition demo_start :: demo_world where
  "demo_start = \<lparr>dw_sent = (\<lambda>_. []), dw_script = [Upto 9, Interrupted, Full, Upto 3], dw_input = []\<rparr>"

lemma demo_conn_idle: "pending demo_file demo_conn = []" "conn_inv demo_file demo_conn"
  by (simp_all add: demo_conn_def pending_def file_part_def conn_inv_def wf_out_def write_watched_def
      channel_new_def EPOLLOUT_def)

lemma conn_inv_file:
  "conn_inv file c \<Longrightarrow> fileFd c \<ge> 0 \<longrightarrow> fileOffset c + fileRemaining c \<le> length (file (fileFd c))"
  by (simp add: conn_inv_def wf_out_def)

subsection \<open>Properties\<close>

text \<open>
  C1: no byte of a response is lost, repeated or reordered, however the kernel splits the
  writes. From an idle connection, at every moment after \<open>sendResponse\<close> and any number of
  writable events interleaved with other traffic, what the kernel has accepted on the
  socket followed by what the connection still holds is exactly the old stream followed by
  the response; and as long as something is held, write interest is registered.
\<close>

theorem response_conserved:
  assumes "stream_kernel K sent file" and "conn_inv file c" and "pending file c = []"
    and "sendResponse K c statusCode contentType body keepAlive w = Some (Alive c1, w1)"
    and "write_events K sent c1 w1 c2 w2"
  shows "sent w2 (sock_fd c) @ pending file c2 =
      sent w (sock_fd c) @ buildHttpResponse statusCode contentType body keepAlive
    \<and> (pending file c2 \<noteq> [] \<longrightarrow> write_watched c2)"
proof -
  from sendResponse_after [OF assms(1,3) conn_inv_file [OF assms(2)] assms(4)]
  have 1: "conn_inv file c1" "sock_fd c1 = sock_fd c"
    "delivers sent (sock_fd c) (buildHttpResponse statusCode contentType body keepAlive) w
       (pending file c1) w1" by auto
  from write_events_conserve [OF assms(1) 1(1) assms(5)] 1 show ?thesis
    by (auto simp: delivers_def conn_inv_def)
qed

theorem response_conserved_witness:
  "\<exists>c1 w1 c2 w2. sendResponse demo_kernel demo_conn 200 ''text/html'' ''hi'' True demo_start = Some (Alive c1, w1)
     \<and> handleWrite demo_kernel c1 w1 = Some (Alive c2, w2)
     \<and> dw_sent w2 5 @ pending demo_file c2 = buildHttpResponse 200 ''text/html'' ''hi'' True"
proof -
  have fd: "sock_fd demo_conn = 5" by (simp add: demo_conn_def)
  have acc: "write_accepts demo_kernel dw_sent" using demo_stream by (simp add: stream_kernel_def)
  obtain out w1 where o: "sendResponse demo_kernel demo_conn 200 ''text/html'' ''hi'' True demo_start = Some (out, w1)"
    using writeFromBuffer_returns [OF demo_finite acc] by (fastforce simp: sendResponse_def)
  from sendResponse_after [OF demo_stream demo_conn_idle(1) conn_inv_file [OF demo_conn_idle(2)] o] demo_peer_up
  obtain c1 where c1: "out = Alive c1" "conn_inv demo_file c1" by auto
  then have "writeIndex c1 \<le> length (writeBuf c1)" by (simp add: conn_inv_def wf_out_def)
  then obtain out2 w2 where o2: "handleWrite demo_kernel c1 w1 = Some (out2, w2)"
    using writeFromBuffer_returns [OF demo_finite acc] unfolding handleWrite_def
    by (metis (no_types, lifting) case_prod_conv surj_pair)
  from sendResponse_after [OF demo_stream demo_conn_idle(1) conn_inv_file [OF demo_conn_idle(2)] o] c1
  have "\<not> closeAfterWrite c1" by auto
  with handleWrite_after [OF demo_stream c1(2) o2] demo_peer_up obtain c2 where c2: "out2 = Alive c2" by auto
  have "write_events demo_kernel dw_sent c1 w1 c2 w2"
    using o2 c2 by (auto intro: we_writable we_start)
  from response_conserved [OF demo_stream demo_conn_idle(2,1) o [unfolded c1(1)] this] o o2 c1 c2 show ?thesis
    by (auto simp: fd demo_start_def)
qed

text \<open>
  The write path tears a connection down: at once, inside the call that starts a response
  (its outcome is \<open>out\<close>), or at a later writable event.
\<close>

definition torn_down ::
    "'w kernel \<Rightarrow> ('w \<Rightarrow> int \<Rightarrow> bytes) \<Rightarrow> outcome \<Rightarrow> 'w \<Rightarrow> 'w \<Rightarrow> bool" where
  "torn_down K sent out w1 w3 \<longleftrightarrow>
     out = Destroyed \<and> w3 = w1
     \<or> (\<exists>c1 c2 w2. out = Alive c1 \<and> write_events K sent c1 w1 c2 w2 \<and> handleWrite K c2 w2 = Some (Destroyed, w3))"

text \<open>What a send leaves behind is enough to say what was delivered when it is torn down.\<close>

lemma torn_down_delivered:
  assumes "stream_kernel K sent file" and "peer_up K" and "torn_down K sent out w1 w3"
    and started: "(\<exists>c1. out = Alive c1 \<and> conn_inv file c1 \<and> sock_fd c1 = fd \<and> closeAfterWrite c1 = (\<not> ka)
        \<and> delivers sent fd data w (pending file c1) w1)
      \<or> out = Destroyed \<and> (\<exists>rest. delivers sent fd data w rest w1 \<and> rest = [] \<and> \<not> ka)"
  shows "\<not> ka \<and> sent w3 fd = sent w fd @ data"
proof (cases "out = Destroyed")
  case True
  with assms(3) started show ?thesis by (auto simp: torn_down_def delivers_def)
next
  case False
  with assms(3) started obtain c1 c2 w2 where 1: "conn_inv file c1" "sock_fd c1 = fd" "closeAfterWrite c1 = (\<not> ka)"
    "delivers sent fd data w (pending file c1) w1" and ev: "write_events K sent c1 w1 c2 w2"
    and hw: "handleWrite K c2 w2 = Some (Destroyed, w3)"
    by (auto simp: torn_down_def)
  from write_events_conserve [OF assms(1) 1(1) ev] 1 have 2: "conn_inv file c2"
    "sock_fd c2 = fd" "closeAfterWrite c2 = (\<not> ka)" "sent w2 fd @ pending file c2 = sent w1 fd @ pending file c1"
    by auto
  from handleWrite_after [OF assms(1) 2(1) hw] assms(2) 2(2,3)
  have "delivers sent fd (pending file c2) w2 [] w3" "\<not> ka" by auto
  with 1(4) 2(4) show ?thesis by (simp add: delivers_def)
qed

text \<open>
  C17: a connection is closed only after its response. When the write path destroys a
  connection whose peer is reachable, in the call that starts the response or at a later
  writable event, after \<open>sendResponse\<close> or after \<open>sendFile\<close>, the response asked for
  \<^verbatim>\<open>Connection: close\<close> and every byte of it, the file included, has been accepted by the
  kernel.
\<close>

theorem close_after_full_response:
  assumes "stream_kernel K sent file" and "peer_up K" and "conn_inv file c" and "pending file c = []"
  shows "(\<forall>statusCode contentType body keepAlive w out w1 w3.
        sendResponse K c statusCode contentType body keepAlive w = Some (out, w1) \<and> torn_down K sent out w1 w3 \<longrightarrow>
        \<not> keepAlive \<and> sent w3 (sock_fd c) =
          sent w (sock_fd c) @ buildHttpResponse statusCode contentType body keepAlive)
    \<and> (\<forall>statusCode contentType path keepAlive sc w f sc' w0 out sc'' w1 w3.
        getStaticFd K path sc w = (Some (f, length (file f)), sc', w0)
        \<and> sendFile K c statusCode contentType path keepAlive sc w = Some (Some out, sc'', w1)
        \<and> torn_down K sent out w1 w3 \<longrightarrow>
        \<not> keepAlive \<and> sent w3 (sock_fd c) =
          sent w0 (sock_fd c) @ fileHeader statusCode contentType (length (file f)) keepAlive @ file f)"
proof (intro conjI allI impI; elim conjE)
  fix st ct body ka w out w1 w3
  assume s: "sendResponse K c st ct body ka w = Some (out, w1)" and d: "torn_down K sent out w1 w3"
  show "\<not> ka" and "sent w3 (sock_fd c) = sent w (sock_fd c) @ buildHttpResponse st ct body ka"
    using torn_down_delivered [OF assms(1,2) d, of "sock_fd c" ka]
      sendResponse_after [OF assms(1,4) conn_inv_file [OF assms(3)] s] assms(2) by auto
next
  fix st ct path ka sc w f sc' w0 out sc'' w1 w3
  assume g: "getStaticFd K path sc w = (Some (f, length (file f)), sc', w0)"
    and s: "sendFile K c st ct path ka sc w = Some (Some out, sc'', w1)" and d: "torn_down K sent out w1 w3"
  have f: "f \<ge> 0" using g by (auto simp: getStaticFd_def split: prod.splits if_splits)
  show "\<not> ka" and "sent w3 (sock_fd c) = sent w0 (sock_fd c) @ fileHeader st ct (length (file f)) ka @ file f"
    using torn_down_delivered [OF assms(1,2) d, of "sock_fd c" ka] sendFile_after [OF assms(1) g refl f s] assms(2)
    by auto
qed

lemma demo_blocked_then_closed:
  fixes ct body :: bytes
  defines "resp \<equiv> buildHttpResponse 200 ct body False"
  defines "w0 \<equiv> \<lparr>dw_sent = (\<lambda>_. []), dw_script = [Full], dw_input = []\<rparr>"
  shows "\<exists>c1 w1 w3. sendResponse demo_kernel demo_conn 200 ct body False w0 = Some (Alive c1, w1)
    \<and> handleWrite demo_kernel c1 w1 = Some (Destroyed, w3)"
proof -
  let ?c = "demo_conn\<lparr>writeBuf := resp, writeIndex := 0, closeAfterWrite := True\<rparr>"
  let ?w = "w0\<lparr>dw_script := []\<rparr>"
  have ne: "resp \<noteq> []" by (simp add: resp_def buildHttpResponse_def)
  obtain ch w1 where e: "enableWriting demo_kernel (conn_channel ?c) ?w = (ch, w1)" by fastforce
  have w1: "w1 = ?w"
    using e by (auto simp: enableWriting_def updateChannel_def Let_def demo_kernel_def split: if_splits)
  let ?c1 = "?c\<lparr>conn_channel := ch\<rparr>"
  have "drain_buf demo_kernel ?c w0 = Some (Blocked, ?c, ?w)"
    using ne by (subst drain_buf.simps) (simp add: demo_kernel_def demo_accept_def w0_def)
  then have s: "sendResponse demo_kernel demo_conn 200 ct body False w0 = Some (Alive ?c1, w1)"
    using e by (simp add: sendResponse_def writeFromBuffer_def conn_enableWriting_def resp_def)
  let ?w2 = "?w\<lparr>dw_sent := (dw_sent ?w)(5 := dw_sent ?w 5 @ resp)\<rparr>"
  let ?c2 = "?c1\<lparr>writeIndex := length resp\<rparr>"
  have d2: "drain_buf demo_kernel ?c2 ?w2 = Some (Drained, ?c2, ?w2)"
    by (subst drain_buf.simps) simp
  have d1: "drain_buf demo_kernel ?c1 w1 = Some (Drained, ?c2, ?w2)"
    using ne d2 by (subst drain_buf.simps) (simp add: w1 demo_kernel_def demo_accept_def demo_conn_def)
  have "drain_file demo_kernel ?c2 ?w2 = Some (Drained, ?c2, ?w2)"
    by (subst drain_file.simps) (simp add: demo_conn_def)
  with d1 ne have "\<exists>w3. handleWrite demo_kernel ?c1 w1 = Some (Destroyed, w3)"
    by (simp add: handleWrite_def writeFromBuffer_def split: prod.split)
  with s show ?thesis by blast
qed

theorem close_after_full_response_witness:
  "\<exists>c1 w1 w3. sendResponse demo_kernel demo_conn 200 ''text/html'' ''hi'' False
       \<lparr>dw_sent = (\<lambda>_. []), dw_script = [Full], dw_input = []\<rparr> = Some (Alive c1, w1)
     \<and> handleWrite demo_kernel c1 w1 = Some (Destroyed, w3)
     \<and> dw_sent w3 5 = buildHttpResponse 200 ''text/html'' ''hi'' False"
proof -
  obtain c1 w1 w3 where r: "sendResponse demo_kernel demo_conn 200 ''text/html'' ''hi'' False
       \<lparr>dw_sent = (\<lambda>_. []), dw_script = [Full], dw_input = []\<rparr> = Some (Alive c1, w1)"
     "handleWrite demo_kernel c1 w1 = Some (Destroyed, w3)"
    using demo_blocked_then_closed [of "''text/html''" "''hi''"] by blast
  have "torn_down demo_kernel dw_sent (Alive c1) w1 w3" unfolding torn_down_def
    by (intro disjI2 exI conjI) (rule refl, rule we_start, rule r(2))
  with close_after_full_response [OF demo_stream demo_peer_up demo_conn_idle(2,1), THEN conjunct1, rule_format, of 200] r
  have "dw_sent w3 (sock_fd demo_conn) = [] @ buildHttpResponse 200 ''text/html'' ''hi'' False" by fastforce
  with r show ?thesis by (simp add: demo_conn_def)
qed

text \<open>
  C40: the write path returns. If the kernel interrupts calls only finitely often, neither
  the buffered nor the direct send loops forever, whatever the peer does.
\<close>

theorem write_path_returns:
  assumes "finite_eintr K fuel" and "write_accepts K sent" and "writeIndex c \<le> length (writeBuf c)"
  shows "(\<exists>out w'. writeFromBuffer K c w = Some (out, w'))
    \<and> (\<exists>out w'. sendResponse K c statusCode contentType body keepAlive w = Some (out, w'))
    \<and> (\<exists>w'. sendHttpResponse K fd statusCode contentType body keepAlive w = Some w')"
  using writeFromBuffer_returns [OF assms] writeFromBuffer_returns [OF assms(1,2)]
    sendHttpResponse_returns [OF assms(1,2)]
  by (simp add: sendResponse_def)

theorem write_path_returns_witness:
  "(\<exists>out w'. writeFromBuffer demo_kernel demo_conn demo_start = Some (out, w'))
   \<and> (\<exists>out w'. sendResponse demo_kernel demo_conn 404 ''text/html'' ''x'' False demo_start = Some (out, w'))
   \<and> (\<exists>w'. sendHttpResponse demo_kernel 5 404 ''text/html'' ''x'' False demo_start = Some w')"
  using demo_stream
  by (intro write_path_returns [OF demo_finite, of dw_sent]) (simp_all add: stream_kernel_def demo_conn_def)

text \<open>
  C30: a static file is served exactly: header block, then the file from its first to its
  last byte, conserved in the same way; \<open>getStaticFd\<close> reports the size of the file it opened.
\<close>

theorem sendFile_conserved:
  assumes "stream_kernel K sent file"
    and "getStaticFd K path sc w = (Some (f, sz), sc', w1)" and "sz = length (file f)"
    and "sendFile K c statusCode contentType path keepAlive sc w = Some (Some (Alive c1), sc'', w2)"
    and "write_events K sent c1 w2 c2 w3"
  shows "sent w3 (sock_fd c) @ pending file c2 =
    sent w1 (sock_fd c) @ fileHeader statusCode contentType (length (file f)) keepAlive @ file f"
proof -
  have f: "f \<ge> 0" using assms(2) by (auto simp: getStaticFd_def split: prod.splits if_splits)
  from sendFile_after [OF assms(1-3) f assms(4)]
  have 1: "conn_inv file c1" "sock_fd c1 = sock_fd c"
    "delivers sent (sock_fd c) (fileHeader statusCode contentType sz keepAlive @ file f) w1
       (pending file c1) w2" by auto
  from write_events_conserve [OF assms(1) 1(1) assms(5)] 1 assms(3) show ?thesis
    by (auto simp: delivers_def)
qed

theorem sendFile_conserved_witness:
  "\<exists>c1 sc w2. sendFile demo_kernel demo_conn 200 ''text/html'' ''../static/index.html'' True
       static_cache_new demo_start = Some (Some (Alive c1), sc, w2)
     \<and> dw_sent w2 5 @ pending demo_file c1 = fileHeader 200 ''text/html'' 6 True @ ''<html>''"
proof -
  have fd: "sock_fd demo_conn = 5" by (simp add: demo_conn_def)
  have acc: "write_accepts demo_kernel dw_sent" using demo_stream by (simp add: stream_kernel_def)
  obtain sc where g: "getStaticFd demo_kernel ''../static/index.html'' static_cache_new demo_start
      = (Some (9, 6), sc, demo_start)"
    by (simp add: getStaticFd_def open_static_def static_cache_new_def demo_kernel_def demo_file_def)
  have sz: "6 = length (demo_file 9)" by (simp add: demo_file_def)
  let ?c = "demo_conn\<lparr>writeBuf := fileHeader 200 ''text/html'' 6 True, writeIndex := 0,
      closeAfterWrite := False, fileFd := 9, fileOffset := 0, fileRemaining := 6\<rparr>"
  obtain out w2 where "writeFromBuffer demo_kernel ?c demo_start = Some (out, w2)"
    using writeFromBuffer_returns [OF demo_finite acc, of ?c demo_start] by auto
  then have o: "sendFile demo_kernel demo_conn 200 ''text/html'' ''../static/index.html'' True
       static_cache_new demo_start = Some (Some out, sc, w2)"
    by (simp add: sendFile_def g)
  from sendFile_after [OF demo_stream g sz _ o] demo_peer_up obtain c1 where c1: "out = Alive c1" by auto
  from sendFile_conserved [OF demo_stream g sz o [unfolded c1] we_start]
  have "dw_sent w2 5 @ pending demo_file c1 = fileHeader 200 ''text/html'' 6 True @ ''<html>''"
    unfolding fd sz [symmetric] by (simp add: demo_start_def demo_file_def [of 9])
  with o c1 show ?thesis by blast
qed

text \<open>
  A direct send from a DB thread writes a prefix of the response to its descriptor and
  nothing to any other; nothing is retried later, so on a full socket the rest is dropped.
\<close>

theorem sendJson_prefix:
  assumes "write_accepts K sent" and "sendJson K fd statusCode body keepAlive w = Some w'"
  shows "(\<exists>n. sent w' fd =
      sent w fd @ take n (buildHttpResponse statusCode ''application/json'' body keepAlive))
    \<and> (\<forall>g. g \<noteq> fd \<longrightarrow> sent w' g = sent w g)"
  using sendHttpResponse_delivers [OF assms(1) assms(2) [unfolded sendJson_def]] by blast

theorem sendJson_prefix_witness:
  "\<exists>w'. sendJson demo_kernel 5 401 ''{}'' True demo_start = Some w'
     \<and> (\<exists>n. dw_sent w' 5 = take n (buildHttpResponse 401 ''application/json'' ''{}'' True))
     \<and> dw_sent w' 6 = []"
proof -
  have acc: "write_accepts demo_kernel dw_sent" using demo_stream by (simp add: stream_kernel_def)
  obtain w' where "sendJson demo_kernel 5 401 ''{}'' True demo_start = Some w'"
    using sendHttpResponse_returns [OF demo_finite acc] unfolding sendJson_def by blast
  with sendJson_prefix [OF acc this] show ?thesis by (auto simp: demo_start_def)
qed

subsection \<open>Pipelining overwrites an unfinished response\<close>

text \<open>
  \<open>sendResponse\<close> assigns \<open>writeBuf_\<close> whether or not it still holds bytes. When the socket is
  full, the bytes an earlier response left there are gone: the connection afterwards holds
  the new response only and nothing was sent in between.
\<close>

lemma buildHttpResponse_nonempty: "buildHttpResponse st ct body ka \<noteq> []"
  by (simp add: buildHttpResponse_def)

lemma sendResponse_discards_pending:
  assumes "fileFd c < 0" and "\<And>d. k_write K (sock_fd c) d w = (Err EAGAIN, w1)"
  shows "\<exists>c' w'. sendResponse K c statusCode contentType body keepAlive w = Some (Alive c', w')
    \<and> pending file c' = buildHttpResponse statusCode contentType body keepAlive"
proof -
  let ?c = "c\<lparr>writeBuf := buildHttpResponse statusCode contentType body keepAlive, writeIndex := 0,
      closeAfterWrite := \<not> keepAlive\<rparr>"
  have "drain_buf K ?c w = Some (Blocked, ?c, w1)"
    using assms(2) buildHttpResponse_nonempty by (subst drain_buf.simps) simp
  moreover obtain ch w2 where "enableWriting K (conn_channel c) w1 = (ch, w2)" by fastforce
  ultimately have "sendResponse K c statusCode contentType body keepAlive w =
      Some (Alive (?c\<lparr>conn_channel := ch\<rparr>), w2)"
    by (simp add: sendResponse_def writeFromBuffer_def conn_enableWriting_def)
  with assms(1) show ?thesis by (simp add: pending_def file_part_def)
qed

subsection \<open>An answer of a DB thread inside a response\<close>

text \<open>
  A DB thread writes to the socket at once, whatever the reactor still holds for it. When a
  page was accepted only in part (here five bytes) and the answer to an earlier pipelined
  database request is sent before the next writable event, the answer lands in the middle
  of the page; the writable event then sends the rest.
\<close>

lemma long_response: "5 < length (buildHttpResponse st ct body ka)"
  by (simp add: buildHttpResponse_def)

lemma demo_drain_all:
  assumes "sock_fd c = 5" and "fileFd c < 0" and "\<not> closeAfterWrite c"
    and "writeIndex c < length (writeBuf c)" and "dw_script w = []"
  shows "\<exists>c'. handleWrite demo_kernel c w =
    Some (Alive c', w\<lparr>dw_sent := (dw_sent w)(5 := dw_sent w 5 @ drop (writeIndex c) (writeBuf c))\<rparr>)"
proof -
  let ?c = "c\<lparr>writeIndex := length (writeBuf c)\<rparr>"
  let ?w = "w\<lparr>dw_sent := (dw_sent w)(5 := dw_sent w 5 @ drop (writeIndex c) (writeBuf c))\<rparr>"
  have "drain_buf demo_kernel ?c ?w = Some (Drained, ?c, ?w)" by (subst drain_buf.simps) simp
  then have "drain_buf demo_kernel c w = Some (Drained, ?c, ?w)"
    using assms by (subst drain_buf.simps) (simp add: demo_kernel_def demo_accept_def)
  moreover have "drain_file demo_kernel ?c ?w = Some (Drained, ?c, ?w)"
    using assms by (subst drain_file.simps) simp
  moreover have "snd (disableWriting demo_kernel (conn_channel c) ?w) = ?w"
    by (simp add: disableWriting_def updateChannel_def Let_def demo_kernel_def split: prod.split)
  ultimately show ?thesis
    using assms by (auto simp: handleWrite_def writeFromBuffer_def split: prod.split)
qed

lemma answer_splits_response:
  fixes body :: bytes
  defines "page \<equiv> buildHttpResponse 200 ''text/html'' ''hi'' True"
    and "answer \<equiv> buildHttpResponse 200 ''application/json'' body True"
  shows "\<exists>c1 w1 w2 c3 w3.
      sendResponse demo_kernel demo_conn 200 ''text/html'' ''hi'' True
        \<lparr>dw_sent = (\<lambda>_. []), dw_script = [Upto 4, Full], dw_input = []\<rparr> = Some (Alive c1, w1)
    \<and> sendJson demo_kernel 5 200 body True w1 = Some w2
    \<and> handleWrite demo_kernel c1 w2 = Some (Alive c3, w3)
    \<and> dw_sent w3 5 = take 5 page @ answer @ drop 5 page"
proof -
  let ?w0 = "\<lparr>dw_sent = (\<lambda>_. []), dw_script = [Upto 4, Full], dw_input = []\<rparr>"
  let ?w1 = "\<lparr>dw_sent = (\<lambda>_. [])(5 := take 5 page), dw_script = [], dw_input = []\<rparr>"
  let ?c = "demo_conn\<lparr>writeBuf := page, writeIndex := 5, closeAfterWrite := False\<rparr>"
  obtain ch w1 where e: "enableWriting demo_kernel (conn_channel demo_conn) ?w1 = (ch, w1)" by fastforce
  then have w1: "w1 = ?w1"
    by (auto simp: enableWriting_def updateChannel_def Let_def demo_kernel_def split: if_splits)
  let ?c1 = "?c\<lparr>conn_channel := ch\<rparr>"
  have "drain_buf demo_kernel ?c (?w1\<lparr>dw_script := [Full]\<rparr>) = Some (Blocked, ?c, ?w1)"
    using long_response [of 200 "''text/html''" "''hi''" True]
    by (subst drain_buf.simps) (simp add: page_def demo_kernel_def demo_accept_def)
  then have "drain_buf demo_kernel (demo_conn\<lparr>writeBuf := page, writeIndex := 0, closeAfterWrite := False\<rparr>) ?w0 = Some (Blocked, ?c, ?w1)"
    using long_response [of 200 "''text/html''" "''hi''" True]
    by (subst drain_buf.simps)
      (simp add: page_def demo_kernel_def demo_accept_def demo_conn_def buildHttpResponse_nonempty)
  with e w1 have s: "sendResponse demo_kernel demo_conn 200 ''text/html'' ''hi'' True ?w0 = Some (Alive ?c1, ?w1)"
    by (simp add: sendResponse_def writeFromBuffer_def conn_enableWriting_def page_def)
  let ?w2 = "?w1\<lparr>dw_sent := (\<lambda>_. [])(5 := take 5 page @ answer)\<rparr>"
  have "send_loop demo_kernel 5 answer (length answer) ?w2 = Some (Drained, length answer, ?w2)"
    by (subst send_loop.simps) simp
  then have "send_loop demo_kernel 5 answer 0 ?w1 = Some (Drained, length answer, ?w2)"
    using buildHttpResponse_nonempty
    by (subst send_loop.simps) (simp add: answer_def demo_kernel_def demo_accept_def)
  then have j: "sendJson demo_kernel 5 200 body True ?w1 = Some ?w2"
    by (simp add: sendJson_def sendHttpResponse_def answer_def)
  obtain c3 where "handleWrite demo_kernel ?c1 ?w2 =
      Some (Alive c3, ?w2\<lparr>dw_sent := (dw_sent ?w2)(5 := dw_sent ?w2 5 @ drop 5 page)\<rparr>)"
    using demo_drain_all [of ?c1 ?w2] long_response [of 200 "''text/html''" "''hi''" True]
    by (auto simp: demo_conn_def page_def)
  with s j show ?thesis by (intro exI conjI) (assumption | simp)+
qed

end
