(* ===== verification/ThreadPool.thy ===== *)
theory ThreadPool
  imports Prelude
begin

section \<open>The thread pool\<close>

text \<open>
  \<^verbatim>\<open>src/ThreadPool.cpp\<close> and \<^verbatim>\<open>src/include/ThreadPool.h\<close>: a queue of tasks, a stop flag, and
  worker threads. Each operation below is one critical section under \<^verbatim>\<open>tasks_mtx_\<close> (or the
  end of a task, which touches no shared state); \<open>pool_step\<close> interleaves them in any
  order. A worker whose wait condition does not hold has no step: it is blocked in
  \<^verbatim>\<open>cv_.wait\<close>. \<open>history\<close> records the tasks accepted by \<open>add\<close> and the tasks started, in order.
\<close>

datatype 't worker = Waiting | Running 't | Exited

record 't thread_pool =
  tasks :: "'t list"
  stop :: bool
  threads :: "'t worker list"

datatype pool_error = EnqueueOnStopped

definition pool_new :: "nat \<Rightarrow> 't thread_pool" where
  "pool_new n = \<lparr>tasks = [], stop = False, threads = replicate n Waiting\<rparr>"

definition pool_add :: "'t \<Rightarrow> 't thread_pool \<Rightarrow> pool_error + 't thread_pool" where
  "pool_add t p = (if stop p then Inl EnqueueOnStopped else Inr (p\<lparr>tasks := tasks p @ [t]\<rparr>))"

text \<open>
  The worker loop: wake up when stopped or when there is a task; leave when stopped and
  there is none; otherwise pop the front task and run it.
\<close>

definition worker_wake :: "nat \<Rightarrow> 't thread_pool \<Rightarrow> ('t option \<times> 't thread_pool) option" where
  "worker_wake i p =
     (if i < length (threads p) \<and> threads p ! i = Waiting \<and> (stop p \<or> tasks p \<noteq> []) then
        (if stop p \<and> tasks p = [] then Some (None, p\<lparr>threads := (threads p)[i := Exited]\<rparr>)
         else Some (Some (hd (tasks p)),
                p\<lparr>tasks := tl (tasks p), threads := (threads p)[i := Running (hd (tasks p))]\<rparr>))
      else None)"

definition worker_finish :: "nat \<Rightarrow> 't thread_pool \<Rightarrow> 't thread_pool option" where
  "worker_finish i p =
     (if i < length (threads p) then
        (case threads p ! i of
           Running t \<Rightarrow> Some (p\<lparr>threads := (threads p)[i := Waiting]\<rparr>)
         | Waiting \<Rightarrow> None
         | Exited \<Rightarrow> None)
      else None)"

text \<open>The destructor: raise the flag, wake everyone, then wait until every thread is gone.\<close>

definition pool_stop :: "'t thread_pool \<Rightarrow> 't thread_pool" where
  "pool_stop p = p\<lparr>stop := True\<rparr>"

definition pool_joined :: "'t thread_pool \<Rightarrow> bool" where
  "pool_joined p = list_all (\<lambda>t. t = Exited) (threads p)"

subsection \<open>Interleavings\<close>

type_synonym 't history = "'t list \<times> 't list"

inductive worker_step :: "'t thread_pool \<times> 't history \<Rightarrow> 't thread_pool \<times> 't history \<Rightarrow> bool" where
  ws_take: "worker_wake i p = Some (Some t, p') \<Longrightarrow> worker_step (p, sub, sta) (p', sub, sta @ [t])"
| ws_exit: "worker_wake i p = Some (None, p') \<Longrightarrow> worker_step (p, sub, sta) (p', sub, sta)"
| ws_finish: "worker_finish i p = Some p' \<Longrightarrow> worker_step (p, sub, sta) (p', sub, sta)"

inductive pool_step :: "'t thread_pool \<times> 't history \<Rightarrow> 't thread_pool \<times> 't history \<Rightarrow> bool" where
  ps_worker: "worker_step s s' \<Longrightarrow> pool_step s s'"
| ps_add: "pool_add t p = Inr p' \<Longrightarrow> pool_step (p, sub, sta) (p', sub @ [t], sta)"
| ps_stop: "pool_step (p, h) (pool_stop p, h)"

inductive_cases worker_stepE: "worker_step (p, sub, sta) s'"
inductive_cases pool_stepE: "pool_step (p, sub, sta) s'"

definition pool_init :: "nat \<Rightarrow> 't thread_pool \<times> 't history \<Rightarrow> bool" where
  "pool_init n s \<longleftrightarrow> s = (pool_new n, [], [])"

text \<open>
  The invariant: the accepted tasks are the started ones followed by the queued ones, and
  a worker is gone only when the pool is stopped and its queue empty.
\<close>

definition pool_inv :: "nat \<Rightarrow> 't thread_pool \<times> 't history \<Rightarrow> bool" where
  "pool_inv n s \<longleftrightarrow> (case s of (p, sub, sta) \<Rightarrow>
     sub = sta @ tasks p \<and> length (threads p) = n
     \<and> (Exited \<in> set (threads p) \<longrightarrow> stop p \<and> tasks p = []))"

lemma exited_update:
  "Exited \<in> set (xs[i := Waiting]) \<Longrightarrow> Exited \<in> set xs"
  "Exited \<in> set (xs[i := Running t]) \<Longrightarrow> Exited \<in> set xs"
  using set_update_subset_insert [of xs i Waiting] set_update_subset_insert [of xs i "Running t"] by auto

lemma worker_step_inv: "pool_inv n s \<Longrightarrow> worker_step s s' \<Longrightarrow> pool_inv n s'"
  by (cases s; cases "fst s")
    (auto elim!: worker_stepE simp: pool_inv_def worker_wake_def worker_finish_def
      dest!: exited_update split: if_splits worker.splits)

interpretation pool: inductive_invariant "pool_init n" pool_step "pool_inv n" for n
proof
  show "pool_inv n s" if "pool_init n s" for s :: "'t thread_pool \<times> 't history"
    using that by (auto simp: pool_init_def pool_inv_def pool_new_def)
next
  fix s t :: "'t thread_pool \<times> 't history"
  assume inv: "pool_inv n s" and "pool_step s t"
  from this(2) show "pool_inv n t"
  proof cases
    case ps_worker
    with inv show ?thesis by (blast intro: worker_step_inv)
  next
    case ps_add
    with inv show ?thesis by (auto simp: pool_inv_def pool_add_def split: if_splits)
  next
    case ps_stop
    with inv show ?thesis by (auto simp: pool_inv_def pool_stop_def)
  qed
qed

subsection \<open>Shutdown\<close>

fun worker_weight :: "'t worker \<Rightarrow> nat" where
  "worker_weight Waiting = 1"
| "worker_weight (Running t) = 2"
| "worker_weight Exited = 0"

definition pool_weight :: "'t thread_pool \<Rightarrow> nat" where
  "pool_weight p = 2 * length (tasks p) + sum_list (map worker_weight (threads p))"

lemma sum_list_map_update:
  "i < length xs \<Longrightarrow>
   sum_list (map f (xs[i := y])) + f (xs ! i) = sum_list (map f xs) + (f y :: nat)"
proof (induction xs arbitrary: i)
  case Nil
  then show ?case by simp
next
  case (Cons x xs)
  then show ?case by (cases i) auto
qed

lemma worker_step_stop: "worker_step (p, h) (p', h') \<Longrightarrow> stop p' = stop p"
  by (cases h) (auto elim!: worker_stepE simp: worker_wake_def worker_finish_def split: if_splits worker.splits)

lemma worker_step_weight:
  assumes "worker_step (p, h) (p', h')"
  shows "pool_weight p' < pool_weight p"
proof -
  from assms show ?thesis
  proof cases
    case (ws_take i t sub sta)
    then have w: "i < length (threads p)" "threads p ! i = Waiting" "tasks p \<noteq> []"
      "p' = p\<lparr>tasks := tl (tasks p), threads := (threads p)[i := Running (hd (tasks p))]\<rparr>"
      by (auto simp: worker_wake_def split: if_splits)
    then have "length (tasks p) \<ge> 1" by (cases "tasks p") auto
    with sum_list_map_update [OF w(1), of worker_weight "Running (hd (tasks p))"] w show ?thesis
      by (simp add: pool_weight_def)
  next
    case (ws_exit i)
    then have w: "i < length (threads p)" "threads p ! i = Waiting"
      "p' = p\<lparr>threads := (threads p)[i := Exited]\<rparr>"
      by (auto simp: worker_wake_def split: if_splits)
    with sum_list_map_update [OF w(1), of worker_weight Exited] show ?thesis
      by (simp add: pool_weight_def)
  next
    case (ws_finish i)
    then obtain t where w: "i < length (threads p)" "threads p ! i = Running t"
      "p' = p\<lparr>threads := (threads p)[i := Waiting]\<rparr>"
      by (auto simp: worker_finish_def split: if_splits worker.splits)
    with sum_list_map_update [OF w(1), of worker_weight Waiting] show ?thesis
      by (simp add: pool_weight_def)
  qed
qed

lemma stopped_progress:
  assumes "stop p" and "\<not> pool_joined p"
  shows "\<exists>s'. worker_step (p, sub, sta) s'"
proof -
  from assms(2) obtain i where i: "i < length (threads p)" "threads p ! i \<noteq> Exited"
    by (auto simp: pool_joined_def list_all_length)
  show ?thesis
  proof (cases "threads p ! i = Waiting")
    case True
    with assms(1) i show ?thesis
      by (cases "tasks p = []")
        (fastforce simp: worker_wake_def intro: ws_exit [of i] ws_take [of i])+
  next
    case False
    with i have "worker_finish i p \<noteq> None"
      by (cases "threads p ! i") (simp_all add: worker_finish_def)
    then show ?thesis by (auto intro: ws_finish)
  qed
qed

lemma shutdown_completes:
  assumes "stop p"
  shows "\<exists>p' h'. worker_step\<^sup>*\<^sup>* (p, h) (p', h') \<and> pool_joined p'"
  using assms
proof (induction "pool_weight p" arbitrary: p h rule: less_induct)
  case less
  show ?case
  proof (cases "pool_joined p")
    case True
    then show ?thesis by blast
  next
    case False
    obtain sub sta where h: "h = (sub, sta)" by fastforce
    from stopped_progress [OF less.prems False] obtain p1 h1 where
      s: "worker_step (p, h) (p1, h1)" unfolding h by (metis surj_pair)
    from less.hyps [OF worker_step_weight [OF s]] worker_step_stop [OF s] less.prems
    obtain p' h' where "worker_step\<^sup>*\<^sup>* (p1, h1) (p', h')" "pool_joined p'" by blast
    with s show ?thesis by (meson converse_rtranclp_into_rtranclp)
  qed
qed

subsection \<open>Properties\<close>

lemma joined_drained:
  assumes "pool_inv n (p, h)" and "0 < n" and "pool_joined p"
  shows "tasks p = []"
proof -
  from assms(1,2) have "threads p \<noteq> []" by (auto simp: pool_inv_def split: prod.splits)
  with assms(3) have "Exited \<in> set (threads p)" by (cases "threads p") (auto simp: pool_joined_def)
  with assms(1) show ?thesis by (simp add: pool_inv_def split: prod.splits)
qed

text \<open>
  C12: tasks are started first in, first out, none twice and none lost. In every reachable
  state the tasks accepted so far are those started, in order, followed by those queued;
  the pool has exactly the workers it was made with, so at most that many tasks run at
  once; and once every thread of a non-empty pool has been joined, all tasks were started.
\<close>

theorem tasks_fifo_none_lost:
  assumes "reach (pool_init n) pool_step (p, submitted, started)"
  shows "submitted = started @ tasks p \<and> length (threads p) = n
    \<and> card {i. i < length (threads p) \<and> (\<exists>t. threads p ! i = Running t)} \<le> n
    \<and> (0 < n \<longrightarrow> pool_joined p \<longrightarrow> started = submitted)"
proof -
  from pool.reach_inv [OF assms] have inv: "pool_inv n (p, submitted, started)" .
  then have n: "length (threads p) = n" by (simp add: pool_inv_def)
  have "card {i. i < length (threads p) \<and> (\<exists>t. threads p ! i = Running t)} \<le> card {..< length (threads p)}"
    by (rule card_mono) auto
  with n inv joined_drained [OF inv] show ?thesis by (auto simp: pool_inv_def)
qed

theorem tasks_fifo_none_lost_witness:
  "\<exists>p. reach (pool_init 1) pool_step (p, [1, 2 :: nat], [1]) \<and> [1, 2 :: nat] = [1] @ tasks p
    \<and> length (threads p) = 1"
proof -
  have 0: "reach (pool_init 1) pool_step (pool_new 1, [], [] :: nat list)"
    by (rule reach_init) (simp add: pool_init_def)
  have 1: "reach (pool_init 1) pool_step (\<lparr>tasks = [1], stop = False, threads = [Waiting]\<rparr>, [] @ [1 :: nat], [])"
    by (rule reach_step [OF 0], rule ps_add) (simp add: pool_add_def pool_new_def)
  have 2: "reach (pool_init 1) pool_step
      (\<lparr>tasks = [1, 2], stop = False, threads = [Waiting]\<rparr>, ([] @ [1 :: nat]) @ [2], [])"
    by (rule reach_step [OF 1], rule ps_add) (simp add: pool_add_def)
  have 3: "reach (pool_init 1) pool_step
      (\<lparr>tasks = [2], stop = False, threads = [Running 1]\<rparr>, ([] @ [1 :: nat]) @ [2], [] @ [1])"
    by (rule reach_step [OF 2], rule ps_worker, rule ws_take [of 0]) (simp add: worker_wake_def)
  from tasks_fifo_none_lost [OF 3] 3 show ?thesis by auto
qed

lemma workers_terminate: "termip worker_step (p, h)"
proof (induction "pool_weight p" arbitrary: p h rule: less_induct)
  case less
  show ?case
  proof (rule accp.accI)
    fix y assume "worker_step\<inverse>\<inverse> y (p, h)"
    then have "worker_step (p, h) (fst y, snd y)" by simp
    with less worker_step_weight have "termip worker_step (fst y, snd y)" by blast
    then show "termip worker_step y" by simp
  qed
qed

lemma worker_steps_inv:
  assumes "worker_step\<^sup>*\<^sup>* (p, h) (p', h')" and "pool_inv n (p, h)" and "stop p"
  shows "pool_inv n (p', h') \<and> stop p'"
proof -
  have "pool_inv n (fst (p', h'), snd (p', h')) \<and> stop (fst (p', h'))"
    using assms
  proof (induction rule: rtranclp_induct)
    case (step y z)
    then show ?case
      using worker_step_inv [of n y z] worker_step_stop [of "fst y" "snd y" "fst z" "snd z"] by simp
  qed simp
  then show ?thesis by simp
qed

text \<open>
  C27: destroying the pool terminates and drops nothing. From any reachable state with the
  stop flag set, no schedule of the workers runs for ever; as long as some thread is not
  gone some worker can move; when a schedule cannot go on every thread can be joined, and,
  if the pool has a thread at all, its queue is empty and every task that was accepted has
  been started; and such an end is reached.
\<close>

theorem shutdown_terminates:
  assumes "reach (pool_init n) pool_step (p, h)" and "stop p"
  shows "termip worker_step (p, h)
    \<and> (\<forall>p' submitted started. worker_step\<^sup>*\<^sup>* (p, h) (p', submitted, started) \<longrightarrow>
         (\<exists>s'. worker_step (p', submitted, started) s')
         \<or> pool_joined p' \<and> (0 < n \<longrightarrow> tasks p' = [] \<and> started = submitted))
    \<and> (\<exists>p' h'. worker_step\<^sup>*\<^sup>* (p, h) (p', h') \<and> pool_joined p')"
proof -
  have inv: "pool_inv n (p, h)" by (rule pool.reach_inv [OF assms(1)])
  have "(\<exists>s'. worker_step (p', sub, sta) s') \<or> pool_joined p' \<and> (0 < n \<longrightarrow> tasks p' = [] \<and> sta = sub)"
    if "worker_step\<^sup>*\<^sup>* (p, h) (p', sub, sta)" for p' sub sta
  proof (cases "pool_joined p'")
    case True
    have i: "pool_inv n (p', sub, sta)" using worker_steps_inv [OF that inv assms(2)] by (rule conjunct1)
    then have "sub = sta @ tasks p'" by (simp add: pool_inv_def)
    with joined_drained [OF i _ True] have "0 < n \<longrightarrow> tasks p' = [] \<and> sta = sub" by simp
    with True show ?thesis by simp
  next
    case False
    then show ?thesis using worker_steps_inv [OF that inv assms(2)] stopped_progress [of p' sub sta] by simp
  qed
  then show ?thesis using workers_terminate [of p h] shutdown_completes [OF assms(2), of h] by simp
qed

text \<open>A pool of two that is destroyed while a worker runs one task and another waits in the queue.\<close>

theorem shutdown_terminates_witness:
  "\<exists>p :: nat thread_pool. reach (pool_init 2) pool_step (p, [6, 7], [6]) \<and> tasks p = [7]
    \<and> termip worker_step (p, [6, 7], [6])
    \<and> (\<exists>p' h'. worker_step\<^sup>*\<^sup>* (p, [6, 7], [6]) (p', h') \<and> pool_joined p')"
proof -
  have 0: "reach (pool_init 2) pool_step (pool_new 2, [], [] :: nat list)"
    by (rule reach_init) (simp add: pool_init_def)
  have 1: "reach (pool_init 2) pool_step (\<lparr>tasks = [6], stop = False, threads = [Waiting, Waiting]\<rparr>, [] @ [6 :: nat], [])"
    by (rule reach_step [OF 0], rule ps_add) (simp add: pool_add_def pool_new_def numeral_2_eq_2)
  have 2: "reach (pool_init 2) pool_step
      (\<lparr>tasks = [6, 7], stop = False, threads = [Waiting, Waiting]\<rparr>, ([] @ [6 :: nat]) @ [7], [])"
    by (rule reach_step [OF 1], rule ps_add) (simp add: pool_add_def)
  have 3: "reach (pool_init 2) pool_step
      (\<lparr>tasks = [7], stop = False, threads = [Waiting, Running 6]\<rparr>, ([] @ [6 :: nat]) @ [7], [] @ [6])"
    by (rule reach_step [OF 2], rule ps_worker, rule ws_take [of 1]) (simp add: worker_wake_def)
  have 4: "reach (pool_init 2) pool_step
      (pool_stop \<lparr>tasks = [7], stop = False, threads = [Waiting, Running 6]\<rparr>, ([] @ [6 :: nat]) @ [7], [] @ [6])"
    by (rule reach_step [OF 3 ps_stop])
  from shutdown_terminates [OF 4] 4 show ?thesis
    by (intro exI [of _ "pool_stop \<lparr>tasks = [7], stop = False, threads = [Waiting, Running 6]\<rparr>"])
      (simp add: pool_stop_def)
qed

end
