(* ===== verification/ConnPools.thy ===== *)
theory ConnPools
  imports Config
begin

section \<open>The MySQL and Redis connection pools\<close>

text \<open>
  \<^verbatim>\<open>src/MysqlPool.cpp\<close> and \<^verbatim>\<open>src/RedisPool.cpp\<close>. A pool is the queue of its idle connections,
  which are handles. The client libraries (libmysqlclient, hiredis) are records of
  functions over the world, arguments of the operations that call them. \<open>getConn\<close> waits at
  most \<open>kPoolAcquireTimeoutSec\<close>: the state it is applied to is the one at the end of that
  wait, so an empty queue is the timeout. The second part interleaves the operations of
  all threads on one pool.
\<close>

subsection \<open>Client libraries\<close>

record mysql_params =
  mp_host :: bytes
  mp_user :: bytes
  mp_passwd :: bytes
  mp_db :: bytes
  mp_port :: "32 word"

text \<open>
  \<open>my_query\<close> returns whether the query failed, \<open>my_store_result\<close> the first column of every
  row (\<^const>\<open>None\<close> for a null result).
\<close>

record 'w mysql =
  my_init :: "'w \<Rightarrow> nat option \<times> 'w"
  my_real_connect :: "nat \<Rightarrow> mysql_params \<Rightarrow> 'w \<Rightarrow> bool \<times> 'w"
  my_close :: "nat \<Rightarrow> 'w \<Rightarrow> 'w"
  my_set_charset :: "nat \<Rightarrow> bytes \<Rightarrow> 'w \<Rightarrow> 'w"
  my_escape :: "bytes \<Rightarrow> bytes"
  my_query :: "nat \<Rightarrow> bytes \<Rightarrow> 'w \<Rightarrow> bool \<times> 'w"
  my_store_result :: "nat \<Rightarrow> 'w \<Rightarrow> bytes list option \<times> 'w"

datatype redis_reply =
  ReplyString bytes | ReplyInteger int | ReplyNil | ReplyStatus bytes | ReplyError bytes | ReplyArray

text \<open>
  \<open>rd_connect\<close> returns a context and its error flag (\<^const>\<open>None\<close> for a null context);
  \<open>rd_command\<close> takes the words of the command and returns \<^const>\<open>None\<close> for a null reply.
\<close>

record 'w redis =
  rd_connect :: "bytes \<Rightarrow> 32 word \<Rightarrow> 'w \<Rightarrow> (nat \<times> bool) option \<times> 'w"
  rd_free :: "nat \<Rightarrow> 'w \<Rightarrow> 'w"
  rd_command :: "nat \<Rightarrow> bytes list \<Rightarrow> 'w \<Rightarrow> redis_reply option \<times> 'w"

subsection \<open>MysqlPool\<close>

record mysql_pool =
  mysql_idle :: "nat list"

definition mysql_open :: "'w mysql \<Rightarrow> mysql_params \<Rightarrow> 'w \<Rightarrow> nat option \<times> 'w" where
  "mysql_open M prm w =
     (case my_init M w of
        (None, w1) \<Rightarrow> (None, w1)
      | (Some conn, w1) \<Rightarrow>
          (case my_real_connect M conn prm w1 of
             (ok, w2) \<Rightarrow>
               if \<not> ok then (None, my_close M conn w2)
               else (Some conn, my_set_charset M conn ''utf8mb4'' w2)))"

primrec mysql_fill :: "'w mysql \<Rightarrow> mysql_params \<Rightarrow> nat \<Rightarrow> mysql_pool \<Rightarrow> 'w \<Rightarrow> mysql_pool \<times> 'w" where
  "mysql_fill M prm 0 p w = (p, w)"
| "mysql_fill M prm (Suc n) p w =
     (case mysql_open M prm w of
        (None, w1) \<Rightarrow> mysql_fill M prm n p w1
      | (Some conn, w1) \<Rightarrow> mysql_fill M prm n (p\<lparr>mysql_idle := mysql_idle p @ [conn]\<rparr>) w1)"

definition mysql_pool_new :: "'w mysql \<Rightarrow> environ \<Rightarrow> 'w \<Rightarrow> mysql_pool \<times> 'w" where
  "mysql_pool_new M getenv w =
     mysql_fill M
       \<lparr>mp_host = dbHost getenv, mp_user = dbUser getenv, mp_passwd = dbPasswd getenv,
        mp_db = dbName getenv, mp_port = dbPort getenv\<rparr>
       kDbMaxConn \<lparr>mysql_idle = []\<rparr> w"

definition mysql_getConn :: "mysql_pool \<Rightarrow> nat option \<times> mysql_pool" where
  "mysql_getConn p =
     (case mysql_idle p of [] \<Rightarrow> (None, p) | conn # rest \<Rightarrow> (Some conn, p\<lparr>mysql_idle := rest\<rparr>))"

definition mysql_releaseConn :: "nat option \<Rightarrow> mysql_pool \<Rightarrow> mysql_pool" where
  "mysql_releaseConn conn p =
     (case conn of None \<Rightarrow> p | Some c \<Rightarrow> p\<lparr>mysql_idle := mysql_idle p @ [c]\<rparr>)"

fun mysql_close_all :: "'w mysql \<Rightarrow> nat list \<Rightarrow> 'w \<Rightarrow> 'w" where
  "mysql_close_all M [] w = w"
| "mysql_close_all M (conn # rest) w = mysql_close_all M rest (my_close M conn w)"

text \<open>The destructor closes and pops every idle connection.\<close>

definition mysql_pool_delete :: "'w mysql \<Rightarrow> mysql_pool \<Rightarrow> 'w \<Rightarrow> mysql_pool \<times> 'w" where
  "mysql_pool_delete M p w = (p\<lparr>mysql_idle := []\<rparr>, mysql_close_all M (mysql_idle p) w)"

text \<open>\<open>MysqlGuard\<close>: the body runs with the connection it acquired, which is then returned.\<close>

definition mysql_guard ::
    "mysql_pool \<Rightarrow> (nat option \<Rightarrow> 'w \<Rightarrow> ('a \<times> 'w) option) \<Rightarrow> 'w \<Rightarrow> ('a \<times> mysql_pool \<times> 'w) option" where
  "mysql_guard p body w =
     (case mysql_getConn p of
        (conn, p1) \<Rightarrow>
          (case body conn w of
             None \<Rightarrow> None
           | Some (x, w1) \<Rightarrow> Some (x, mysql_releaseConn conn p1, w1)))"

subsection \<open>RedisPool\<close>

datatype redis_status = RedisOk | RedisNotFound | RedisError

record redis_pool =
  redis_idle :: "nat list"
  redis_host :: bytes
  redis_port :: "32 word"

definition redis_createConn :: "'w redis \<Rightarrow> redis_pool \<Rightarrow> 'w \<Rightarrow> nat option \<times> 'w" where
  "redis_createConn R p w =
     (case rd_connect R (c_str (redis_host p)) (redis_port p) w of
        (None, w1) \<Rightarrow> (None, w1)
      | (Some (conn, err), w1) \<Rightarrow> if err then (None, rd_free R conn w1) else (Some conn, w1))"

primrec redis_fill :: "'w redis \<Rightarrow> nat \<Rightarrow> redis_pool \<Rightarrow> 'w \<Rightarrow> redis_pool \<times> 'w" where
  "redis_fill R 0 p w = (p, w)"
| "redis_fill R (Suc n) p w =
     (case redis_createConn R p w of
        (None, w1) \<Rightarrow> redis_fill R n p w1
      | (Some conn, w1) \<Rightarrow> redis_fill R n (p\<lparr>redis_idle := redis_idle p @ [conn]\<rparr>) w1)"

definition redis_pool_new :: "'w redis \<Rightarrow> environ \<Rightarrow> 'w \<Rightarrow> redis_pool \<times> 'w" where
  "redis_pool_new R getenv w =
     redis_fill R kRedisMaxConn
       \<lparr>redis_idle = [], redis_host = redisHost getenv, redis_port = redisPort getenv\<rparr> w"

definition redis_getConn :: "redis_pool \<Rightarrow> nat option \<times> redis_pool" where
  "redis_getConn p =
     (case redis_idle p of [] \<Rightarrow> (None, p) | conn # rest \<Rightarrow> (Some conn, p\<lparr>redis_idle := rest\<rparr>))"

definition redis_releaseConn :: "nat option \<Rightarrow> redis_pool \<Rightarrow> redis_pool" where
  "redis_releaseConn conn p =
     (case conn of None \<Rightarrow> p | Some c \<Rightarrow> p\<lparr>redis_idle := redis_idle p @ [c]\<rparr>)"

definition redis_discardBrokenConn :: "'w redis \<Rightarrow> nat \<Rightarrow> redis_pool \<Rightarrow> 'w \<Rightarrow> redis_pool \<times> 'w" where
  "redis_discardBrokenConn R conn p w =
     (case redis_createConn R p (rd_free R conn w) of
        (None, w1) \<Rightarrow> (p, w1)
      | (Some fresh, w1) \<Rightarrow> (p\<lparr>redis_idle := redis_idle p @ [fresh]\<rparr>, w1))"

fun redis_free_all :: "'w redis \<Rightarrow> nat list \<Rightarrow> 'w \<Rightarrow> 'w" where
  "redis_free_all R [] w = w"
| "redis_free_all R (conn # rest) w = redis_free_all R rest (rd_free R conn w)"

definition redis_pool_delete :: "'w redis \<Rightarrow> redis_pool \<Rightarrow> 'w \<Rightarrow> redis_pool \<times> 'w" where
  "redis_pool_delete R p w = (p\<lparr>redis_idle := []\<rparr>, redis_free_all R (redis_idle p) w)"

definition redis_get ::
    "'w redis \<Rightarrow> bytes \<Rightarrow> redis_pool \<Rightarrow> 'w \<Rightarrow> (bytes \<times> redis_status) \<times> redis_pool \<times> 'w" where
  "redis_get R key p w =
     (case redis_getConn p of
        (None, p1) \<Rightarrow> (([], RedisError), p1, w)
      | (Some conn, p1) \<Rightarrow>
          (case rd_command R conn [''GET'', c_str key] w of
             (None, w1) \<Rightarrow>
               (case redis_discardBrokenConn R conn p1 w1 of (p2, w2) \<Rightarrow> (([], RedisError), p2, w2))
           | (Some reply, w1) \<Rightarrow>
               (case reply of
                  ReplyString s \<Rightarrow> ((s, RedisOk), redis_releaseConn (Some conn) p1, w1)
                | _ \<Rightarrow> (([], RedisNotFound), redis_releaseConn (Some conn) p1, w1))))"

definition redis_setex ::
    "'w redis \<Rightarrow> bytes \<Rightarrow> nat \<Rightarrow> bytes \<Rightarrow> redis_pool \<Rightarrow> 'w \<Rightarrow> bool \<times> redis_pool \<times> 'w" where
  "redis_setex R key ttl val p w =
     (case redis_getConn p of
        (None, p1) \<Rightarrow> (False, p1, w)
      | (Some conn, p1) \<Rightarrow>
          (case rd_command R conn [''SETEX'', c_str key, to_string ttl, c_str val] w of
             (None, w1) \<Rightarrow>
               (case redis_discardBrokenConn R conn p1 w1 of (p2, w2) \<Rightarrow> (False, p2, w2))
           | (Some reply, w1) \<Rightarrow>
               ((case reply of ReplyError e \<Rightarrow> False | _ \<Rightarrow> True),
                redis_releaseConn (Some conn) p1, w1)))"

definition redis_del ::
    "'w redis \<Rightarrow> bytes \<Rightarrow> redis_pool \<Rightarrow> 'w \<Rightarrow> redis_status \<times> redis_pool \<times> 'w" where
  "redis_del R key p w =
     (case redis_getConn p of
        (None, p1) \<Rightarrow> (RedisError, p1, w)
      | (Some conn, p1) \<Rightarrow>
          (case rd_command R conn [''DEL'', c_str key] w of
             (None, w1) \<Rightarrow>
               (case redis_discardBrokenConn R conn p1 w1 of (p2, w2) \<Rightarrow> (RedisError, p2, w2))
           | (Some reply, w1) \<Rightarrow>
               ((case reply of
                   ReplyInteger n \<Rightarrow> if n > 0 then RedisOk else RedisNotFound
                 | _ \<Rightarrow> RedisNotFound),
                redis_releaseConn (Some conn) p1, w1)))"

subsection \<open>The contract of a pool\<close>

text \<open>
  What both pools promise their clients: \<open>get\<close> hands out the connection that has been idle
  longest, or nothing when there is none; \<open>release\<close> puts one back at the end.
\<close>

locale connection_pool =
  fixes getc :: "'p \<Rightarrow> nat option \<times> 'p"
    and releasec :: "nat option \<Rightarrow> 'p \<Rightarrow> 'p"
    and idle :: "'p \<Rightarrow> nat list"
  assumes get_empty: "idle p = [] \<Longrightarrow> getc p = (None, p)"
    and get_some: "idle p = c # cs \<Longrightarrow> fst (getc p) = Some c \<and> idle (snd (getc p)) = cs"
    and release_none: "releasec None p = p"
    and release_some: "idle (releasec (Some c) p) = idle p @ [c]"
begin

lemma get_release_rotates:
  "idle (releasec (fst (getc p)) (snd (getc p))) = rotate1 (idle p)"
  by (cases "idle p") (auto simp: get_empty release_none release_some dest: get_some)

lemma get_release_length: "length (idle (releasec (fst (getc p)) (snd (getc p)))) = length (idle p)"
  by (simp add: get_release_rotates)

lemma get_None_iff: "fst (getc p) = None \<longleftrightarrow> idle p = []"
  by (cases "idle p") (auto simp: get_empty dest: get_some)

end

interpretation mysqlp: connection_pool mysql_getConn mysql_releaseConn mysql_idle
  by unfold_locales (simp_all add: mysql_getConn_def mysql_releaseConn_def)

interpretation redisp: connection_pool redis_getConn redis_releaseConn redis_idle
  by unfold_locales (simp_all add: redis_getConn_def redis_releaseConn_def)

subsection \<open>Lemmas on single operations\<close>

lemma mysql_guard_Some:
  "mysql_guard p body w = Some (x, p', w') \<longleftrightarrow>
     body (fst (mysql_getConn p)) w = Some (x, w')
     \<and> p' = mysql_releaseConn (fst (mysql_getConn p)) (snd (mysql_getConn p))"
  by (auto simp: mysql_guard_def split: prod.splits option.splits)

lemma mysql_guard_idle:
  "mysql_guard p body w = Some (x, p', w') \<Longrightarrow> mysql_idle p' = rotate1 (mysql_idle p)"
  by (simp add: mysql_guard_Some mysqlp.get_release_rotates)

lemma mysql_fill_length:
  "length (mysql_idle (fst (mysql_fill M prm n p w))) \<le> length (mysql_idle p) + n"
proof (induction n arbitrary: p w)
  case 0
  then show ?case by simp
next
  case (Suc n)
  show ?case
    using Suc [of p] Suc [of "p\<lparr>mysql_idle := mysql_idle p @ [_]\<rparr>"]
    by (fastforce split: prod.splits option.splits intro: le_SucI)
qed

lemma redis_fill_length:
  "length (redis_idle (fst (redis_fill R n p w))) \<le> length (redis_idle p) + n"
proof (induction n arbitrary: p w)
  case 0
  then show ?case by simp
next
  case (Suc n)
  show ?case
    using Suc [of p] Suc [of "p\<lparr>redis_idle := redis_idle p @ [_]\<rparr>"]
    by (fastforce split: prod.splits option.splits intro: le_SucI)
qed

subsection \<open>Who owns a connection\<close>

text \<open>
  The handles that exist: \<open>live w\<close> are the ones the client library has allocated and not
  freed. Allocation returns a handle that is not in use, freeing removes it, and the other
  calls neither allocate nor free.
\<close>

definition mysql_handles :: "'w mysql \<Rightarrow> ('w \<Rightarrow> nat set) \<Rightarrow> bool" where
  "mysql_handles M live \<longleftrightarrow>
     (\<forall>w c w'. my_init M w = (Some c, w') \<longrightarrow> c \<notin> live w \<and> live w' = insert c (live w))
     \<and> (\<forall>w w'. my_init M w = (None, w') \<longrightarrow> live w' = live w)
     \<and> (\<forall>c prm w. live (snd (my_real_connect M c prm w)) = live w)
     \<and> (\<forall>c w. live (my_close M c w) = live w - {c})
     \<and> (\<forall>c s w. live (my_set_charset M c s w) = live w)"

definition redis_handles :: "'w redis \<Rightarrow> ('w \<Rightarrow> nat set) \<Rightarrow> bool" where
  "redis_handles R live \<longleftrightarrow>
     (\<forall>h port w c e w'. rd_connect R h port w = (Some (c, e), w') \<longrightarrow>
        c \<notin> live w \<and> live w' = insert c (live w))
     \<and> (\<forall>h port w w'. rd_connect R h port w = (None, w') \<longrightarrow> live w' = live w)
     \<and> (\<forall>c w. live (rd_free R c w) = live w - {c})
     \<and> (\<forall>c cmd w. live (snd (rd_command R c cmd w)) = live w)"

text \<open>
  All threads together: the pool, the handles that threads hold at the moment, and the
  world. A thread acquires (or times out), uses its handle, and gives it back; a Redis
  handle whose command got no reply is discarded instead. That the tasks of the handlers
  follow this protocol is proved of their code, action by action, in the theories
  DbConcurrent (MySQL) and RedisThreads (Redis).
\<close>

inductive mysql_use ::
    "'w mysql \<Rightarrow> mysql_pool \<times> nat list \<times> 'w \<Rightarrow> mysql_pool \<times> nat list \<times> 'w \<Rightarrow> bool" for M where
  mu_acquire: "mysql_getConn p = (Some c, p') \<Longrightarrow> mysql_use M (p, held, w) (p', c # held, w)"
| mu_timeout: "mysql_getConn p = (None, p') \<Longrightarrow> mysql_use M (p, held, w) (p', held, w)"
| mu_release: "c \<in> set held \<Longrightarrow>
    mysql_use M (p, held, w) (mysql_releaseConn (Some c) p, remove1 c held, w)"

inductive redis_use ::
    "'w redis \<Rightarrow> redis_pool \<times> nat list \<times> 'w \<Rightarrow> redis_pool \<times> nat list \<times> 'w \<Rightarrow> bool" for R where
  ru_acquire: "redis_getConn p = (Some c, p') \<Longrightarrow> redis_use R (p, held, w) (p', c # held, w)"
| ru_timeout: "redis_getConn p = (None, p') \<Longrightarrow> redis_use R (p, held, w) (p', held, w)"
| ru_command: "c \<in> set held \<Longrightarrow> rd_command R c cmd w = (reply, w') \<Longrightarrow>
    redis_use R (p, held, w) (p, held, w')"
| ru_release: "c \<in> set held \<Longrightarrow>
    redis_use R (p, held, w) (redis_releaseConn (Some c) p, remove1 c held, w)"
| ru_discard: "c \<in> set held \<Longrightarrow> redis_discardBrokenConn R c p w = (p', w') \<Longrightarrow>
    redis_use R (p, held, w) (p', remove1 c held, w')"

definition owned :: "nat \<Rightarrow> nat list \<Rightarrow> nat list \<Rightarrow> nat set \<Rightarrow> bool" where
  "owned n idle held alive \<longleftrightarrow>
     distinct (idle @ held) \<and> alive = set (idle @ held) \<and> length (idle @ held) \<le> n"

lemma length_remove1_in: "c \<in> set xs \<Longrightarrow> Suc (length (remove1 c xs)) = length xs"
  by (induction xs) auto

lemma owned_acquire: "owned n (c # idle) held alive \<Longrightarrow> owned n idle (c # held) alive"
  by (auto simp: owned_def)

lemma owned_release:
  "owned n idle held alive \<Longrightarrow> c \<in> set held \<Longrightarrow> owned n (idle @ [c]) (remove1 c held) alive"
  using length_remove1_in [of c held] by (auto simp: owned_def distinct_remove1)

lemma owned_free:
  "owned n idle held alive \<Longrightarrow> c \<in> set held \<Longrightarrow>
   owned n idle (remove1 c held) (alive - {c}) \<and> length (idle @ remove1 c held) < n"
  using length_remove1_in [of c held] by (auto simp: owned_def distinct_remove1)

lemma owned_add:
  "owned n idle held alive \<Longrightarrow> c \<notin> alive \<Longrightarrow> length (idle @ held) < m \<Longrightarrow>
   owned m (idle @ [c]) held (insert c alive)"
  by (auto simp: owned_def)

lemma redis_createConn_handles:
  assumes "redis_handles R live"
  shows "redis_createConn R p w = (None, w') \<Longrightarrow> live w' = live w"
    and "redis_createConn R p w = (Some c, w') \<Longrightarrow> c \<notin> live w \<and> live w' = insert c (live w)"
  using assms unfolding redis_createConn_def redis_handles_def
  by (fastforce split: prod.splits option.splits if_splits)+

lemma mysql_handlesD:
  assumes "mysql_handles M live"
  shows "my_init M w = (Some c, w1) \<Longrightarrow> c \<notin> live w \<and> live w1 = insert c (live w)"
    and "my_init M w = (None, w1) \<Longrightarrow> live w1 = live w"
    and "my_real_connect M c prm w = (ok, w1) \<Longrightarrow> live w1 = live w"
    and "live (my_close M c w) = live w - {c}"
    and "live (my_set_charset M c s w) = live w"
  using assms unfolding mysql_handles_def by (metis snd_conv)+

lemma mysql_open_handles:
  assumes "mysql_handles M live"
  shows "mysql_open M prm w = (None, w') \<Longrightarrow> live w' = live w"
    and "mysql_open M prm w = (Some c, w') \<Longrightarrow> c \<notin> live w \<and> live w' = insert c (live w)"
  using mysql_handlesD [OF assms]
  by (auto simp: mysql_open_def split: prod.splits option.splits if_splits)

lemma mysql_fill_owned:
  assumes "mysql_handles M live"
  shows "owned m (mysql_idle p) [] (live w) \<Longrightarrow> mysql_fill M prm n p w = (p', w') \<Longrightarrow>
    owned (m + n) (mysql_idle p') [] (live w')"
proof (induction n arbitrary: m p w)
  case (Suc n)
  obtain r w1 where o: "mysql_open M prm w = (r, w1)" by fastforce
  show ?case
  proof (cases r)
    case None
    then have "owned (Suc m) (mysql_idle p) [] (live w1)"
      using Suc.prems(1) mysql_open_handles(1) [OF assms] o by (simp add: owned_def)
    with Suc.IH [of "Suc m" p w1] Suc.prems(2) o None show ?thesis by simp
  next
    case (Some c)
    then have "owned (Suc m) (mysql_idle p @ [c]) [] (live w1)"
      using owned_add [OF Suc.prems(1), of c "Suc m"] Suc.prems(1)
        mysql_open_handles(2) [OF assms, of prm w c w1] o by (simp add: owned_def)
    with Suc.IH [of "Suc m" "p\<lparr>mysql_idle := mysql_idle p @ [c]\<rparr>" w1] Suc.prems(2) o Some
    show ?thesis by simp
  qed
qed simp

lemma redis_fill_owned:
  assumes "redis_handles R live"
  shows "owned m (redis_idle p) [] (live w) \<Longrightarrow> redis_fill R n p w = (p', w') \<Longrightarrow>
    owned (m + n) (redis_idle p') [] (live w')"
proof (induction n arbitrary: m p w)
  case (Suc n)
  obtain r w1 where o: "redis_createConn R p w = (r, w1)" by fastforce
  show ?case
  proof (cases r)
    case None
    then have "owned (Suc m) (redis_idle p) [] (live w1)"
      using Suc.prems(1) redis_createConn_handles(1) [OF assms] o by (simp add: owned_def)
    with Suc.IH [of "Suc m" p w1] Suc.prems(2) o None show ?thesis by simp
  next
    case (Some c)
    then have "owned (Suc m) (redis_idle p @ [c]) [] (live w1)"
      using owned_add [OF Suc.prems(1), of c "Suc m"] Suc.prems(1)
        redis_createConn_handles(2) [OF assms, of p w c w1] o by (simp add: owned_def)
    with Suc.IH [of "Suc m" "p\<lparr>redis_idle := redis_idle p @ [c]\<rparr>" w1] Suc.prems(2) o Some
    show ?thesis by simp
  qed
qed simp

definition mysql_start :: "'w mysql \<Rightarrow> environ \<Rightarrow> ('w \<Rightarrow> nat set) \<Rightarrow> mysql_pool \<times> nat list \<times> 'w \<Rightarrow> bool" where
  "mysql_start M getenv live s \<longleftrightarrow>
     (\<exists>w p w'. live w = {} \<and> mysql_pool_new M getenv w = (p, w') \<and> s = (p, [], w'))"

definition redis_start :: "'w redis \<Rightarrow> environ \<Rightarrow> ('w \<Rightarrow> nat set) \<Rightarrow> redis_pool \<times> nat list \<times> 'w \<Rightarrow> bool" where
  "redis_start R getenv live s \<longleftrightarrow>
     (\<exists>w p w'. live w = {} \<and> redis_pool_new R getenv w = (p, w') \<and> s = (p, [], w'))"

lemma mysql_start_owned:
  "mysql_handles M live \<Longrightarrow> mysql_start M getenv live (p, held, w) \<Longrightarrow>
   owned kDbMaxConn (mysql_idle p) held (live w)"
  using mysql_fill_owned [of M live 0 "\<lparr>mysql_idle = []\<rparr>"]
  by (fastforce simp: mysql_start_def mysql_pool_new_def owned_def [of 0])

lemma redis_start_owned:
  "redis_handles R live \<Longrightarrow> redis_start R getenv live (p, held, w) \<Longrightarrow>
   owned kRedisMaxConn (redis_idle p) held (live w)"
  using redis_fill_owned [of R live 0 "\<lparr>redis_idle = [], redis_host = _, redis_port = _\<rparr>"]
  by (fastforce simp: redis_start_def redis_pool_new_def owned_def [of 0])

lemma mysql_use_owned:
  assumes "mysql_use M (p, held, w) (p', held', w')" and "owned n (mysql_idle p) held (live w)"
  shows "owned n (mysql_idle p') held' (live w')"
  using assms
  by (cases rule: mysql_use.cases)
    (auto simp: mysql_getConn_def mysql_releaseConn_def split: list.splits
      intro: owned_acquire owned_release)

lemma redis_discard_owned:
  assumes "redis_handles R live" and "owned n (redis_idle p) held (live w)" and "c \<in> set held"
    and "redis_discardBrokenConn R c p w = (p', w')"
  shows "owned n (redis_idle p') (remove1 c held) (live w')"
proof -
  have "live (rd_free R c w) = live w - {c}" using assms(1) by (simp add: redis_handles_def)
  with owned_free [OF assms(2,3)]
  have o: "owned n (redis_idle p) (remove1 c held) (live (rd_free R c w))"
    "length (redis_idle p @ remove1 c held) < n" by simp_all
  obtain r w1 where cr: "redis_createConn R p (rd_free R c w) = (r, w1)" by fastforce
  show ?thesis
  proof (cases r)
    case None
    with cr assms(4) o redis_createConn_handles(1) [OF assms(1)] show ?thesis
      by (auto simp: redis_discardBrokenConn_def)
  next
    case (Some d)
    with cr assms(4) o redis_createConn_handles(2) [OF assms(1)] owned_add [OF o(1) _ o(2), of d]
    show ?thesis by (auto simp: redis_discardBrokenConn_def)
  qed
qed

lemma redis_use_owned:
  assumes "redis_handles R live" and "redis_use R (p, held, w) (p', held', w')"
    and "owned n (redis_idle p) held (live w)"
  shows "owned n (redis_idle p') held' (live w')"
  using assms(2)
proof (cases rule: redis_use.cases)
  case (ru_command c cmd reply)
  then have "live w' = live w" using assms(1) unfolding redis_handles_def by (metis snd_conv)
  with ru_command assms(3) show ?thesis by simp
next
  case (ru_discard c)
  with redis_discard_owned [OF assms(1,3)] show ?thesis by simp
qed (use assms(3) in \<open>auto simp: redis_getConn_def redis_releaseConn_def split: list.splits
      intro: owned_acquire owned_release\<close>)


interpretation mysqlu: inductive_invariant "mysql_start M getenv live" "mysql_use M"
    "\<lambda>(p, held, w). mysql_handles M live \<longrightarrow> owned kDbMaxConn (mysql_idle p) held (live w)"
  for M getenv live
  by unfold_locales (auto dest: mysql_start_owned intro: mysql_use_owned)

interpretation redisu: inductive_invariant "redis_start R getenv live" "redis_use R"
    "\<lambda>(p, held, w). redis_handles R live \<longrightarrow> owned kRedisMaxConn (redis_idle p) held (live w)"
  for R getenv live
  by unfold_locales (auto dest: redis_start_owned intro: redis_use_owned)

lemma redis_free_all_live:
  "redis_handles R live \<Longrightarrow> live (redis_free_all R cs w) = live w - set cs"
  by (induction cs arbitrary: w) (auto simp: redis_handles_def)

lemma mysql_close_all_live:
  "mysql_handles M live \<Longrightarrow> live (mysql_close_all M cs w) = live w - set cs"
  by (induction cs arbitrary: w) (auto simp: mysql_handles_def)

subsection \<open>Properties\<close>

text \<open>
  Client libraries over a list of allocated handles, for concrete instances: the Redis one
  fails to connect when \<open>up\<close> is false, and no command gets a reply.
\<close>

definition flat_redis :: "bool \<Rightarrow> nat list redis" where
  "flat_redis up =
     \<lparr>rd_connect = (\<lambda>h port L. if up then (Some (Suc (sum_list L), False), Suc (sum_list L) # L) else (None, L)),
      rd_free = (\<lambda>c L. removeAll c L),
      rd_command = (\<lambda>c cmd L. (None, L))\<rparr>"

definition flat_mysql :: "nat list mysql" where
  "flat_mysql =
     \<lparr>my_init = (\<lambda>L. (Some (Suc (sum_list L)), Suc (sum_list L) # L)),
      my_real_connect = (\<lambda>c prm L. (True, L)),
      my_close = (\<lambda>c L. removeAll c L),
      my_set_charset = (\<lambda>c s L. L),
      my_escape = (\<lambda>s. s),
      my_query = (\<lambda>c q L. (True, L)),
      my_store_result = (\<lambda>c L. (None, L))\<rparr>"

lemma Suc_sum_list_fresh: "Suc (sum_list (xs :: nat list)) \<notin> set xs"
  using member_le_sum_list [of "Suc (sum_list xs)" xs] by auto

lemma flat_redis_handles: "redis_handles (flat_redis up) set"
  using Suc_sum_list_fresh by (auto simp: redis_handles_def flat_redis_def)

lemma flat_mysql_handles: "mysql_handles flat_mysql set"
  using Suc_sum_list_fresh by (auto simp: mysql_handles_def flat_mysql_def)

definition fresh_redis :: redis_pool where
  "fresh_redis = fst (redis_pool_new (flat_redis True) (\<lambda>_. None) [])"

lemma fresh_redis_idle: "redis_idle fresh_redis = [1, 2, 4, 8, 16, 32, 64, 128]"
  by code_simp

text \<open>
  C36: nothing leaks at shutdown. When every thread has given its connection back, destroying
  the two pools closes every connection that was ever opened.
\<close>

theorem pools_closed_at_exit:
  assumes "redis_handles R rlive" and "reach (redis_start R getenv rlive) (redis_use R) (rp, [], rw)"
    and "mysql_handles M mlive" and "reach (mysql_start M getenv mlive) (mysql_use M) (mp, [], mw)"
  shows "rlive (snd (redis_pool_delete R rp rw)) = {} \<and> mlive (snd (mysql_pool_delete M mp mw)) = {}
    \<and> redis_idle (fst (redis_pool_delete R rp rw)) = [] \<and> mysql_idle (fst (mysql_pool_delete M mp mw)) = []"
  using redisu.reach_inv [OF assms(2)] mysqlu.reach_inv [OF assms(4)] assms(1,3)
  by (simp add: owned_def redis_pool_delete_def mysql_pool_delete_def redis_free_all_live mysql_close_all_live)

definition fresh_mysql :: mysql_pool where
  "fresh_mysql = fst (mysql_pool_new flat_mysql (\<lambda>_. None) [])"

lemma fresh_mysql_idle: "mysql_idle fresh_mysql = [1, 2, 4, 8, 16, 32, 64, 128]"
  by code_simp

theorem pools_closed_at_exit_witness:
  "set (snd (redis_pool_delete (flat_redis True) fresh_redis (snd (redis_pool_new (flat_redis True) (\<lambda>_. None) [])))) = {}
   \<and> set (snd (mysql_pool_delete flat_mysql fresh_mysql (snd (mysql_pool_new flat_mysql (\<lambda>_. None) [])))) = {}"
proof -
  have "redis_start (flat_redis True) (\<lambda>_. None) set
      (fresh_redis, [], snd (redis_pool_new (flat_redis True) (\<lambda>_. None) []))"
    unfolding redis_start_def fresh_redis_def by (intro exI [of _ "[]"]) simp
  moreover have "mysql_start flat_mysql (\<lambda>_. None) set
      (fresh_mysql, [], snd (mysql_pool_new flat_mysql (\<lambda>_. None) []))"
    unfolding mysql_start_def fresh_mysql_def by (intro exI [of _ "[]"]) simp
  ultimately show ?thesis
    using pools_closed_at_exit [OF flat_redis_handles reach_init flat_mysql_handles reach_init] by blast
qed

text \<open>
  The MySQL pool likewise never hands a connection to two threads; and a guard, whatever
  its body does, gives the pool back with the same connections, the one it used last.
\<close>

theorem mysql_pool_exclusive:
  assumes "mysql_handles M live" and "reach (mysql_start M getenv live) (mysql_use M) (p, held, w)"
    and "mysql_guard p body v = Some (x, p', v')"
  shows "distinct (mysql_idle p @ held) \<and> live w = set (mysql_idle p @ held)
    \<and> length (mysql_idle p @ held) \<le> kDbMaxConn \<and> mysql_idle p' = rotate1 (mysql_idle p)"
  using mysqlu.reach_inv [OF assms(2)] assms(1) mysql_guard_idle [OF assms(3)] by (simp add: owned_def)

theorem mysql_pool_exclusive_witness:
  "\<exists>p' x. mysql_guard fresh_mysql (\<lambda>c w. Some (c, w)) () = Some (x, p', ()) \<and> x = Some 1
     \<and> mysql_idle p' = [2, 4, 8, 16, 32, 64, 128, 1]"
proof -
  have s: "mysql_start flat_mysql (\<lambda>_. None) set
      (fresh_mysql, [], snd (mysql_pool_new flat_mysql (\<lambda>_. None) []))"
    unfolding mysql_start_def fresh_mysql_def by (intro exI [of _ "[]"]) simp
  have r: "reach (mysql_start flat_mysql (\<lambda>_. None) set) (mysql_use flat_mysql)
      (fresh_mysql, [], snd (mysql_pool_new flat_mysql (\<lambda>_. None) []))"
    using s by (rule reach_init)
  obtain x p' where g: "mysql_guard fresh_mysql (\<lambda>c w. Some (c, w)) () = Some (x, p', ())" "x = Some 1"
    by (simp add: mysql_guard_def mysql_getConn_def fresh_mysql_idle)
  from mysql_pool_exclusive [OF flat_mysql_handles r g(1)] g fresh_mysql_idle
  show ?thesis by simp
qed

subsection \<open>An emptied Redis pool\<close>

text \<open>
  Connections are opened in the constructor and to replace a broken one only. When the
  replacements fail as well, the pool shrinks; once it is empty, every operation of every
  thread times out and no step ever refills it, however long Redis has been back.
\<close>

lemma empty_redis_pool_stays_empty:
  assumes "redis_use R (p, [], w) s" and "redis_idle p = []"
  shows "s = (p, [], w)"
  using assms by (cases rule: redis_use.cases) (auto simp: redis_getConn_def)

lemma outage_empties_redis_pool:
  assumes "redis_idle p = [c]"
  shows "redis_get (flat_redis False) key p w = (([], RedisError), p\<lparr>redis_idle := []\<rparr>, removeAll c w)"
  using assms
  by (simp add: redis_get_def redis_getConn_def flat_redis_def redis_discardBrokenConn_def
      redis_createConn_def)

end
