(* ===== verification/DbHandlers.thy ===== *)
theory DbHandlers
  imports ConnWrite ThreadPool ConnPools
begin

section \<open>Register, login, profile, logout\<close>

text \<open>
  The DB handlers of \<^verbatim>\<open>src/Connection.cpp\<close>. A handler validates its input on the reactor
  thread and either answers at once or submits a task to the DB thread pool; the closures
  it submits are the constructors of \<open>db_task\<close>, with the variables they capture. A task runs
  on a DB thread against the two connection pools and answers with \<open>sendJson\<close>. Its result
  records the answer it sent, or that it threw, or that it wrote past the end of an escape
  buffer (undefined behaviour in the code). The build defines \<^verbatim>\<open>USE_REDIS\<close>
  (\<^verbatim>\<open>CMakeLists.txt\<close>), so the \<^verbatim>\<open>#else\<close> branches are not part of the program.
\<close>

subsection \<open>Services and state\<close>

text \<open>
  \<open>sv_draw\<close> is \<^verbatim>\<open>dist(rng)\<close>, an index into the token alphabet; \<^const>\<open>None\<close> is the exception
  of \<^verbatim>\<open>std::random_device\<close> when there is no entropy source.
\<close>

record 'w services =
  sv_kernel :: "'w kernel"
  sv_mysql :: "'w mysql"
  sv_redis :: "'w redis"
  sv_draw :: "'w \<Rightarrow> nat option \<times> 'w"

record 'w db_state =
  mysqlPool :: mysql_pool
  redisPool :: redis_pool
  world :: 'w

datatype db_result = Answered nat bytes | Thrown | Overrun

datatype db_task =
  RegisterTask (task_fd: int) (task_ka: bool) (task_user: bytes) (task_pass: bytes)
| LoginTask (task_fd: int) (task_ka: bool) (task_user: bytes) (task_pass: bytes)
| ProfileTask (task_fd: int) (task_ka: bool) (task_token: bytes)
| LogoutTask (task_fd: int) (task_ka: bool) (task_token: bytes)

definition reply :: "'w services \<Rightarrow> int \<Rightarrow> bool \<Rightarrow> nat \<Rightarrow> bytes \<Rightarrow> 'w \<Rightarrow> (db_result \<times> 'w) option" where
  "reply S fd keepAlive statusCode body w =
     (case sendJson (sv_kernel S) fd statusCode body keepAlive w of
        None \<Rightarrow> None
      | Some w' \<Rightarrow> Some (Answered statusCode body, w'))"

subsection \<open>JSON bodies, SQL statements, Redis keys\<close>

definition json_error :: "bytes \<Rightarrow> bytes" where
  \<open>json_error msg = ''{"error":"'' @ msg @ ''"}''\<close>

definition json_message :: "bytes \<Rightarrow> bytes" where
  \<open>json_message msg = ''{"message":"'' @ msg @ ''"}''\<close>

definition json_token :: "bytes \<Rightarrow> bytes" where
  \<open>json_token token = ''{"message":"login success","token":"'' @ token @ ''"}''\<close>

definition json_username :: "bytes \<Rightarrow> bytes" where
  \<open>json_username username = ''{"username":"'' @ jsonEscape username @ ''"}''\<close>

abbreviation sq :: bytes where
  "sq \<equiv> [CHR 0x27]"

definition select_user_sql :: "bytes \<Rightarrow> bytes" where
  "select_user_sql esc_user = ''SELECT 1 FROM users WHERE username='' @ sq @ esc_user @ sq @ '' LIMIT 1''"

definition insert_user_sql :: "bytes \<Rightarrow> bytes \<Rightarrow> bytes" where
  "insert_user_sql esc_user esc_pass =
     ''INSERT INTO users(username, password) VALUES('' @ sq @ esc_user @ sq @ '','' @ sq @ esc_pass @ sq @ '')''"

definition select_password_sql :: "bytes \<Rightarrow> bytes" where
  "select_password_sql esc_user =
     ''SELECT password FROM users WHERE username='' @ sq @ esc_user @ sq @ '' LIMIT 1''"

definition user_key :: "bytes \<Rightarrow> bytes" where
  "user_key username = ''user:'' @ username"

definition session_key :: "bytes \<Rightarrow> bytes" where
  "session_key token = ''session:'' @ token"

text \<open>
  \<^verbatim>\<open>mysql_real_escape_string\<close> into an array of \<open>n\<close> chars, then read as a C string: the
  escaped text and its terminator have to fit.
\<close>

definition escape_into :: "nat \<Rightarrow> bytes \<Rightarrow> bytes option" where
  "escape_into n escaped = (if length escaped + 1 \<le> n then Some (c_str escaped) else None)"

subsection \<open>Tokens\<close>

definition token_charset :: bytes where
  "token_charset = ''abcdefghijklmnopqrstuvwxyz0123456789''"

primrec draw_token :: "'w services \<Rightarrow> nat \<Rightarrow> bytes \<Rightarrow> 'w \<Rightarrow> bytes option \<times> 'w" where
  "draw_token S 0 token w = (Some token, w)"
| "draw_token S (Suc n) token w =
     (case sv_draw S w of
        (None, w1) \<Rightarrow> (None, w1)
      | (Some i, w1) \<Rightarrow> draw_token S n (token @ [token_charset ! i]) w1)"

definition generateToken :: "'w services \<Rightarrow> 'w \<Rightarrow> bytes option \<times> 'w" where
  "generateToken S w = draw_token S kTokenLen [] w"

subsection \<open>Task bodies\<close>

text \<open>The body of the register task, inside the scope of its \<open>MysqlGuard\<close>.\<close>

definition registerBody ::
    "'w services \<Rightarrow> int \<Rightarrow> bool \<Rightarrow> bytes \<Rightarrow> bytes \<Rightarrow> nat option \<Rightarrow> 'w \<Rightarrow> (db_result \<times> 'w) option" where
  "registerBody S fd keepAlive username password conn w =
     (case conn of
        None \<Rightarrow> reply S fd keepAlive 503 (json_error ''service unavailable'') w
      | Some c \<Rightarrow>
          (case (escape_into 129 (my_escape (sv_mysql S) username),
                 escape_into 257 (my_escape (sv_mysql S) password)) of
             (Some esc_user, Some esc_pass) \<Rightarrow>
               (case my_query (sv_mysql S) c (c_str (select_user_sql esc_user)) w of
                  (failed, w1) \<Rightarrow>
                    if failed then reply S fd keepAlive 500 (json_error ''database error'') w1
                    else
                      (case my_store_result (sv_mysql S) c w1 of
                         (res, w2) \<Rightarrow>
                           if res \<noteq> None \<and> the res \<noteq> [] then
                             reply S fd keepAlive 409 (json_error ''user already exists'') w2
                           else
                             (case my_query (sv_mysql S) c (c_str (insert_user_sql esc_user esc_pass)) w2 of
                                (failed, w3) \<Rightarrow>
                                  if failed then reply S fd keepAlive 500 (json_error ''database error'') w3
                                  else reply S fd keepAlive 200 (json_message ''register success'') w3)))
           | _ \<Rightarrow> Some (Overrun, w)))"

definition registerWork ::
    "'w services \<Rightarrow> int \<Rightarrow> bool \<Rightarrow> bytes \<Rightarrow> bytes \<Rightarrow> 'w db_state \<Rightarrow> (db_result \<times> 'w db_state) option" where
  "registerWork S fd keepAlive username password s =
     (case mysql_guard (mysqlPool s) (registerBody S fd keepAlive username password) (world s) of
        None \<Rightarrow> None
      | Some (r, mp, w) \<Rightarrow> Some (r, s\<lparr>mysqlPool := mp, world := w\<rparr>))"

text \<open>
  The MySQL part of the login task, inside the scope of its guard, on the Redis pool and
  the world: an early answer, or the password found.
\<close>

definition loginMysql ::
    "'w services \<Rightarrow> int \<Rightarrow> bool \<Rightarrow> bytes \<Rightarrow> nat option \<Rightarrow> redis_pool \<times> 'w
     \<Rightarrow> ((db_result + bytes option) \<times> redis_pool \<times> 'w) option" where
  "loginMysql S fd keepAlive username conn rw =
     (case rw of (rp, w) \<Rightarrow>
        (case conn of
           None \<Rightarrow>
             map_option (\<lambda>(r, w'). (Inl r, rp, w'))
               (reply S fd keepAlive 503 (json_error ''service unavailable'') w)
         | Some c \<Rightarrow>
             (case escape_into 129 (my_escape (sv_mysql S) username) of
                None \<Rightarrow> Some (Inl Overrun, rp, w)
              | Some esc_user \<Rightarrow>
                  (case my_query (sv_mysql S) c (c_str (select_password_sql esc_user)) w of
                     (failed, w1) \<Rightarrow>
                       if failed then
                         map_option (\<lambda>(r, w'). (Inl r, rp, w'))
                           (reply S fd keepAlive 500 (json_error ''database error'') w1)
                       else
                         (case my_store_result (sv_mysql S) c w1 of
                            (res, w2) \<Rightarrow>
                              (case res of
                                 Some (row # _) \<Rightarrow>
                                   (case redis_setex (sv_redis S) (user_key username) kUserCacheTtlSec
                                           (c_str row) rp w2 of
                                      (_, rp1, w3) \<Rightarrow> Some (Inr (Some (c_str row)), rp1, w3))
                               | _ \<Rightarrow> Some (Inr None, rp, w2)))))))"

text \<open>The rest of the login task, once the password has been looked up.\<close>

definition loginFinish ::
    "'w services \<Rightarrow> int \<Rightarrow> bool \<Rightarrow> bytes \<Rightarrow> bytes \<Rightarrow> bytes option \<Rightarrow> redis_pool \<times> 'w
     \<Rightarrow> (db_result \<times> redis_pool \<times> 'w) option" where
  "loginFinish S fd keepAlive username password found rw =
     (case rw of (rp, w) \<Rightarrow>
        (case found of
           None \<Rightarrow>
             map_option (\<lambda>(r, w'). (r, rp, w'))
               (reply S fd keepAlive 401 (json_error ''user not found'') w)
         | Some dbPassword \<Rightarrow>
             if password \<noteq> dbPassword then
               map_option (\<lambda>(r, w'). (r, rp, w'))
                 (reply S fd keepAlive 401 (json_error ''wrong password'') w)
             else
               (case generateToken S w of
                  (None, w1) \<Rightarrow> Some (Thrown, rp, w1)
                | (Some token, w1) \<Rightarrow>
                    (case redis_setex (sv_redis S) (session_key token) kSessionTtlSec username rp w1 of
                       (ok, rp1, w2) \<Rightarrow>
                         if \<not> ok then
                           map_option (\<lambda>(r, w'). (r, rp1, w'))
                             (reply S fd keepAlive 503 (json_error ''service unavailable'') w2)
                         else
                           map_option (\<lambda>(r, w'). (r, rp1, w'))
                             (reply S fd keepAlive 200 (json_token token) w2)))))"

definition loginWork ::
    "'w services \<Rightarrow> int \<Rightarrow> bool \<Rightarrow> bytes \<Rightarrow> bytes \<Rightarrow> 'w db_state \<Rightarrow> (db_result \<times> 'w db_state) option" where
  "loginWork S fd keepAlive username password s =
     (case redis_get (sv_redis S) (user_key username) (redisPool s) (world s) of
        ((cached, cacheSt), rp1, w1) \<Rightarrow>
          (case (if cacheSt = RedisOk \<and> cached \<noteq> [] then
                   Some (Inr (Some cached), mysqlPool s, rp1, w1)
                 else mysql_guard (mysqlPool s) (loginMysql S fd keepAlive username) (rp1, w1)) of
             None \<Rightarrow> None
           | Some (Inl r, mp, rp2, w2) \<Rightarrow>
               Some (r, \<lparr>mysqlPool = mp, redisPool = rp2, world = w2\<rparr>)
           | Some (Inr found, mp, rp2, w2) \<Rightarrow>
               (case loginFinish S fd keepAlive username password found (rp2, w2) of
                  None \<Rightarrow> None
                | Some (r, rp3, w3) \<Rightarrow> Some (r, \<lparr>mysqlPool = mp, redisPool = rp3, world = w3\<rparr>))))"

definition profileWork ::
    "'w services \<Rightarrow> int \<Rightarrow> bool \<Rightarrow> bytes \<Rightarrow> 'w db_state \<Rightarrow> (db_result \<times> 'w db_state) option" where
  "profileWork S fd keepAlive token s =
     (case redis_get (sv_redis S) (session_key token) (redisPool s) (world s) of
        ((username, st), rp1, w1) \<Rightarrow>
          map_option (\<lambda>(r, w'). (r, s\<lparr>redisPool := rp1, world := w'\<rparr>))
            (if st = RedisError then
               reply S fd keepAlive 503 (json_error ''service unavailable'') w1
             else if st = RedisNotFound \<or> username = [] then
               reply S fd keepAlive 401 (json_error ''invalid or expired token'') w1
             else reply S fd keepAlive 200 (json_username username) w1))"

definition logoutWork ::
    "'w services \<Rightarrow> int \<Rightarrow> bool \<Rightarrow> bytes \<Rightarrow> 'w db_state \<Rightarrow> (db_result \<times> 'w db_state) option" where
  "logoutWork S fd keepAlive token s =
     (case redis_del (sv_redis S) (session_key token) (redisPool s) (world s) of
        (st, rp1, w1) \<Rightarrow>
          map_option (\<lambda>(r, w'). (r, s\<lparr>redisPool := rp1, world := w'\<rparr>))
            (if st = RedisError then
               reply S fd keepAlive 503 (json_error ''service unavailable'') w1
             else if st = RedisNotFound then
               reply S fd keepAlive 401 (json_error ''invalid or expired token'') w1
             else reply S fd keepAlive 200 (json_message ''logout success'') w1))"

fun db_work :: "'w services \<Rightarrow> db_task \<Rightarrow> 'w db_state \<Rightarrow> (db_result \<times> 'w db_state) option" where
  "db_work S (RegisterTask fd ka username password) s = registerWork S fd ka username password s"
| "db_work S (LoginTask fd ka username password) s = loginWork S fd ka username password s"
| "db_work S (ProfileTask fd ka token) s = profileWork S fd ka token s"
| "db_work S (LogoutTask fd ka token) s = logoutWork S fd ka token s"

text \<open>\<open>runDbTask\<close>: a throw is answered with 500.\<close>

definition runDbTask :: "'w services \<Rightarrow> db_task \<Rightarrow> 'w db_state \<Rightarrow> (db_result \<times> 'w db_state) option" where
  "runDbTask S t s =
     (case db_work S t s of
        Some (Thrown, s1) \<Rightarrow>
          map_option (\<lambda>(r, w'). (r, s1\<lparr>world := w'\<rparr>))
            (reply S (task_fd t) (task_ka t) 500 (json_error ''internal error'') (world s1))
      | r \<Rightarrow> r)"

subsection \<open>Handlers on the reactor thread\<close>

definition checkCredentials ::
    "'w kernel \<Rightarrow> int \<Rightarrow> bool \<Rightarrow> bytes \<Rightarrow> bytes \<Rightarrow> 'w \<Rightarrow> (bool \<times> 'w) option" where
  "checkCredentials K fd keepAlive username password w =
     (if username = [] \<or> password = [] then
        map_option (\<lambda>w'. (False, w'))
          (sendJson K fd 400 (json_error ''missing username or password'') keepAlive w)
      else if length username > kMaxUsernameLen \<or> length password > kMaxPasswordLen then
        map_option (\<lambda>w'. (False, w'))
          (sendJson K fd 400 (json_error ''username or password too long'') keepAlive w)
      else Some (True, w))"

type_synonym 'w handled = "((pool_error + db_task thread_pool) \<times> 'w) option"

definition handleRegister ::
    "'w kernel \<Rightarrow> bytes \<Rightarrow> int \<Rightarrow> bool \<Rightarrow> db_task thread_pool \<Rightarrow> 'w \<Rightarrow> 'w handled" where
  "handleRegister K request fd keepAlive dbPool w =
     (let body = parseBody request;
          username = getJsonValue body ''username'';
          password = getJsonValue body ''password''
      in case checkCredentials K fd keepAlive username password w of
           None \<Rightarrow> None
         | Some (ok, w1) \<Rightarrow>
             if \<not> ok then Some (Inr dbPool, w1)
             else Some (pool_add (RegisterTask fd keepAlive username password) dbPool, w1))"

definition handleLogin ::
    "'w kernel \<Rightarrow> bytes \<Rightarrow> int \<Rightarrow> bool \<Rightarrow> db_task thread_pool \<Rightarrow> 'w \<Rightarrow> 'w handled" where
  "handleLogin K request fd keepAlive dbPool w =
     (let body = parseBody request;
          username = getJsonValue body ''username'';
          password = getJsonValue body ''password''
      in case checkCredentials K fd keepAlive username password w of
           None \<Rightarrow> None
         | Some (ok, w1) \<Rightarrow>
             if \<not> ok then Some (Inr dbPool, w1)
             else Some (pool_add (LoginTask fd keepAlive username password) dbPool, w1))"

definition handleProfile ::
    "'w kernel \<Rightarrow> bytes \<Rightarrow> int \<Rightarrow> bool \<Rightarrow> db_task thread_pool \<Rightarrow> 'w \<Rightarrow> 'w handled" where
  "handleProfile K request fd keepAlive dbPool w =
     (let token = parseBearerToken request
      in if token = [] then
           map_option (\<lambda>w'. (Inr dbPool, w')) (sendJson K fd 401 (json_error ''missing token'') keepAlive w)
         else Some (pool_add (ProfileTask fd keepAlive token) dbPool, w))"

definition handleLogout ::
    "'w kernel \<Rightarrow> bytes \<Rightarrow> int \<Rightarrow> bool \<Rightarrow> db_task thread_pool \<Rightarrow> 'w \<Rightarrow> 'w handled" where
  "handleLogout K request fd keepAlive dbPool w =
     (let token = parseBearerToken request
      in if token = [] then
           map_option (\<lambda>w'. (Inr dbPool, w')) (sendJson K fd 401 (json_error ''missing token'') keepAlive w)
         else Some (pool_add (LogoutTask fd keepAlive token) dbPool, w))"

end
