(* ===== verification/DbContract.thy ===== *)
theory DbContract
  imports DbHandlers
begin

section \<open>What the database tasks rely on\<close>

text \<open>
  The contracts of MySQL and Redis as predicates on the services, through what can be
  observed of the world: \<open>sent\<close> the bytes accepted on each socket, \<open>rows\<close> the users table
  (name and password of each row), \<open>kv\<close> the keys of Redis that have not expired. Names are
  compared by the collation of the table, \<open>same\<close>. Keys may expire at any time, so Redis only
  promises that nothing appears that was not stored. A statement that fails, or a command
  without a reply, may have been executed or not.
\<close>

text \<open>
  The documented behaviour of \<^verbatim>\<open>mysql_real_escape_string\<close> and of the three statements on the
  users table, with the escaped text in place of the string literal; the username column is
  unique.
\<close>

definition row_for :: "(bytes \<Rightarrow> bytes \<Rightarrow> bool) \<Rightarrow> (bytes \<times> bytes) list \<Rightarrow> bytes \<Rightarrow> (bytes \<times> bytes) list" where
  "row_for same table u = filter (\<lambda>row. same (fst row) u) table"

definition mysql_contract ::
    "'w mysql \<Rightarrow> (bytes \<Rightarrow> bytes \<Rightarrow> bool) \<Rightarrow> ('w \<Rightarrow> (bytes \<times> bytes) list) \<Rightarrow> bool" where
  "mysql_contract M same rows \<longleftrightarrow>
     (\<forall>s. length (my_escape M s) \<le> 2 * length s \<and> CHR 0x00 \<notin> set (my_escape M s))
     \<and> (\<forall>c u w f w1 r w2. my_query M c (select_user_sql (my_escape M u)) w = (f, w1) \<longrightarrow>
          my_store_result M c w1 = (r, w2) \<longrightarrow>
          rows w1 = rows w \<and> rows w2 = rows w
          \<and> (\<not> f \<longrightarrow> r \<noteq> None \<longrightarrow> the r = map (\<lambda>_. ''1'') (take 1 (row_for same (rows w) u))))
     \<and> (\<forall>c u w f w1 r w2. my_query M c (select_password_sql (my_escape M u)) w = (f, w1) \<longrightarrow>
          my_store_result M c w1 = (r, w2) \<longrightarrow>
          rows w1 = rows w \<and> rows w2 = rows w
          \<and> (\<not> f \<longrightarrow> r \<noteq> None \<longrightarrow> the r = map snd (take 1 (row_for same (rows w) u))))
     \<and> (\<forall>c u q w f w1. my_query M c (insert_user_sql (my_escape M u) (my_escape M q)) w = (f, w1) \<longrightarrow>
          rows w1 = rows w \<and> f \<or> rows w1 = rows w @ [(u, q)] \<and> row_for same (rows w) u = [])"

definition redis_contract :: "'w redis \<Rightarrow> ('w \<Rightarrow> bytes \<Rightarrow> bytes option) \<Rightarrow> bool" where
  "redis_contract R kv \<longleftrightarrow>
     (\<forall>h port w. kv (snd (rd_connect R h port w)) \<subseteq>\<^sub>m kv w)
     \<and> (\<forall>c w. kv (rd_free R c w) \<subseteq>\<^sub>m kv w)
     \<and> (\<forall>c k w r w'. rd_command R c [''GET'', k] w = (r, w') \<longrightarrow>
          kv w' \<subseteq>\<^sub>m kv w \<and> (\<forall>v. r = Some (ReplyString v) \<longrightarrow> kv w k = Some v))
     \<and> (\<forall>c k t v w r w'. rd_command R c [''SETEX'', k, t, v] w = (r, w') \<longrightarrow>
          kv w' \<subseteq>\<^sub>m kv w \<or> kv w' \<subseteq>\<^sub>m (kv w)(k \<mapsto> v))
     \<and> (\<forall>c k w r w'. rd_command R c [''DEL'', k] w = (r, w') \<longrightarrow>
          kv w' \<subseteq>\<^sub>m kv w \<and> (\<forall>n. r = Some (ReplyInteger n) \<longrightarrow> kv w' k = None))"

text \<open>The services do not disturb each other, except that time passes for Redis.\<close>

definition calm ::
    "('w \<Rightarrow> int \<Rightarrow> bytes) \<Rightarrow> ('w \<Rightarrow> (bytes \<times> bytes) list) \<Rightarrow> ('w \<Rightarrow> bytes \<Rightarrow> bytes option) \<Rightarrow> 'w \<Rightarrow> 'w \<Rightarrow> bool" where
  "calm sent rows kv w w' \<longleftrightarrow> sent w' = sent w \<and> rows w' = rows w \<and> kv w' \<subseteq>\<^sub>m kv w"

definition independent ::
    "'w services \<Rightarrow> ('w \<Rightarrow> int \<Rightarrow> bytes) \<Rightarrow> ('w \<Rightarrow> (bytes \<times> bytes) list) \<Rightarrow> ('w \<Rightarrow> bytes \<Rightarrow> bytes option) \<Rightarrow> bool" where
  "independent S sent rows kv \<longleftrightarrow>
     (\<forall>fd d w r w'. k_write (sv_kernel S) fd d w = (r, w') \<longrightarrow> rows w' = rows w \<and> kv w' \<subseteq>\<^sub>m kv w)
     \<and> (\<forall>c q w r w'. my_query (sv_mysql S) c q w = (r, w') \<longrightarrow> sent w' = sent w \<and> kv w' \<subseteq>\<^sub>m kv w)
     \<and> (\<forall>c w r w'. my_store_result (sv_mysql S) c w = (r, w') \<longrightarrow> sent w' = sent w \<and> kv w' \<subseteq>\<^sub>m kv w)
     \<and> (\<forall>h p w r w'. rd_connect (sv_redis S) h p w = (r, w') \<longrightarrow> sent w' = sent w \<and> rows w' = rows w)
     \<and> (\<forall>c w. sent (rd_free (sv_redis S) c w) = sent w \<and> rows (rd_free (sv_redis S) c w) = rows w)
     \<and> (\<forall>c cmd w r w'. rd_command (sv_redis S) c cmd w = (r, w') \<longrightarrow> sent w' = sent w \<and> rows w' = rows w)
     \<and> (\<forall>w r w'. sv_draw S w = (r, w') \<longrightarrow> calm sent rows kv w w')"

definition db_services ::
    "'w services \<Rightarrow> (bytes \<Rightarrow> bytes \<Rightarrow> bool) \<Rightarrow> ('w \<Rightarrow> int \<Rightarrow> bytes) \<Rightarrow> ('w \<Rightarrow> (bytes \<times> bytes) list)
     \<Rightarrow> ('w \<Rightarrow> bytes \<Rightarrow> bytes option) \<Rightarrow> bool" where
  "db_services S same sent rows kv \<longleftrightarrow>
     write_accepts (sv_kernel S) sent \<and> mysql_contract (sv_mysql S) same rows
     \<and> redis_contract (sv_redis S) kv \<and> independent S sent rows kv"

subsection \<open>Consequences for single operations\<close>

lemma calm_refl [simp]: "calm sent rows kv w w"
  by (simp add: calm_def)

lemma calm_trans: "calm sent rows kv w w1 \<Longrightarrow> calm sent rows kv w1 w2 \<Longrightarrow> calm sent rows kv w w2"
  by (auto simp: calm_def intro: map_le_trans)

lemma independentD:
  assumes "independent S sent rows kv"
  shows "k_write (sv_kernel S) fd d w = (n, w') \<Longrightarrow> rows w' = rows w \<and> kv w' \<subseteq>\<^sub>m kv w"
    and "my_query (sv_mysql S) c q w = (f, w') \<Longrightarrow> sent w' = sent w \<and> kv w' \<subseteq>\<^sub>m kv w"
    and "my_store_result (sv_mysql S) c w = (res, w') \<Longrightarrow> sent w' = sent w \<and> kv w' \<subseteq>\<^sub>m kv w"
    and "rd_connect (sv_redis S) h p w = (con, w') \<Longrightarrow> sent w' = sent w \<and> rows w' = rows w"
    and "sent (rd_free (sv_redis S) c w) = sent w \<and> rows (rd_free (sv_redis S) c w) = rows w"
    and "rd_command (sv_redis S) c cmd w = (rep, w') \<Longrightarrow> sent w' = sent w \<and> rows w' = rows w"
    and "sv_draw S w = (i, w') \<Longrightarrow> calm sent rows kv w w'"
  using assms unfolding independent_def by metis+

lemma redis_contractD:
  assumes "redis_contract R kv"
  shows "rd_connect R h port w = (con, w') \<Longrightarrow> kv w' \<subseteq>\<^sub>m kv w"
    and "kv (rd_free R c w) \<subseteq>\<^sub>m kv w"
    and "rd_command R c [''GET'', k] w = (r, w') \<Longrightarrow>
      kv w' \<subseteq>\<^sub>m kv w \<and> (\<forall>v. r = Some (ReplyString v) \<longrightarrow> kv w k = Some v)"
    and "rd_command R c [''SETEX'', k, t, v] w = (r, w') \<Longrightarrow>
      kv w' \<subseteq>\<^sub>m kv w \<or> kv w' \<subseteq>\<^sub>m (kv w)(k \<mapsto> v)"
    and "rd_command R c [''DEL'', k] w = (r, w') \<Longrightarrow>
      kv w' \<subseteq>\<^sub>m kv w \<and> (\<forall>n. r = Some (ReplyInteger n) \<longrightarrow> kv w' k = None)"
  using assms unfolding redis_contract_def by (metis snd_conv, blast+)

lemma c_str_sql [simp]:
  "CHR 0x00 \<notin> set e \<Longrightarrow> c_str (select_user_sql e) = select_user_sql e"
  "CHR 0x00 \<notin> set e \<Longrightarrow> c_str (select_password_sql e) = select_password_sql e"
  "CHR 0x00 \<notin> set e \<Longrightarrow> CHR 0x00 \<notin> set e' \<Longrightarrow> c_str (insert_user_sql e e') = insert_user_sql e e'"
  by (rule c_str_id; simp add: select_user_sql_def select_password_sql_def insert_user_sql_def)+

lemma escape_into_Some:
  assumes "mysql_contract M same rows" and "escape_into n (my_escape M s) = Some e"
  shows "e = my_escape M s" and "CHR 0x00 \<notin> set e"
  using assms by (auto simp: escape_into_def mysql_contract_def c_str_id split: if_splits)

lemma escape_into_fits:
  "mysql_contract M same rows \<Longrightarrow> 2 * length s + 1 \<le> n \<Longrightarrow> escape_into n (my_escape M s) = Some (my_escape M s)"
  unfolding escape_into_def mysql_contract_def using c_str_id by (metis add_le_mono1 le_trans)

lemma c_str_keys [simp]:
  "c_str (user_key u) = user_key (c_str u)" "c_str (session_key u) = session_key (c_str u)"
  unfolding user_key_def session_key_def by (rule c_str_append; simp)+

lemma keys_distinct [simp]:
  "user_key u = user_key u' \<longleftrightarrow> u = u'" "session_key u = session_key u' \<longleftrightarrow> u = u'"
  "user_key u \<noteq> session_key t" "session_key t \<noteq> user_key u"
  by (simp_all add: user_key_def session_key_def)

lemma c_str_idem [simp]: "c_str (c_str s) = c_str s"
  by (rule c_str_id) (rule c_str_NUL_free)

text \<open>
  What a task sends: one response, whole, or cut where the kernel refused the rest.
\<close>

definition sends :: "'w kernel \<Rightarrow> ('w \<Rightarrow> int \<Rightarrow> bytes) \<Rightarrow> int \<Rightarrow> bool \<Rightarrow> db_result \<Rightarrow> 'w \<Rightarrow> 'w \<Rightarrow> bool" where
  "sends K sent fd ka r w w' \<longleftrightarrow>
     (case r of
        Answered st body \<Rightarrow>
          \<exists>n. sent w' = (sent w)(fd := sent w fd @ take n (buildHttpResponse st ''application/json'' body ka))
            \<and> (n = length (buildHttpResponse st ''application/json'' body ka)
                \<or> cut_short K fd (drop n (buildHttpResponse st ''application/json'' body ka)) w')
      | _ \<Rightarrow> sent w' = sent w)"

lemma sends_calm: "sent w1 = sent w \<Longrightarrow> sends K sent fd ka r w1 w' \<Longrightarrow> sends K sent fd ka r w w'"
  by (cases r) (simp_all add: sends_def)

lemma send_loop_keeps:
  assumes "send_loop K fd data n w = Some (d, n', w')"
    and "\<And>d w r w'. k_write K fd d w = (r, w') \<Longrightarrow> Q w w'"
    and "\<And>w. Q w w" and "\<And>w w1 w2. Q w w1 \<Longrightarrow> Q w1 w2 \<Longrightarrow> Q w w2"
  shows "Q w w'"
proof -
  have "Q w w' \<and> (d = Drained \<longrightarrow> \<not> n' < length data) \<and> (d \<noteq> Drained \<longrightarrow> n' < length data)"
    by (rule sendloop.run_rule [OF assms(1), where I = "\<lambda>n v. Q w v"]) (use assms(2-4) in blast)+
  then show ?thesis by simp
qed

lemma reply_spec:
  assumes "write_accepts (sv_kernel S) sent" and "independent S sent rows kv"
    and "reply S fd ka st body w = Some (r, w')"
  shows "r = Answered st body" and "sends (sv_kernel S) sent fd ka r w w'" and "rows w' = rows w" and "kv w' \<subseteq>\<^sub>m kv w"
proof -
  from assms(3) have r: "r = Answered st body"
    "sendHttpResponse (sv_kernel S) fd st ''application/json'' body ka w = Some w'"
    by (auto simp: reply_def sendJson_def split: option.splits)
  then obtain d n where "send_loop (sv_kernel S) fd (buildHttpResponse st ''application/json'' body ka) 0 w = Some (d, n, w')"
    by (auto simp: sendHttpResponse_def split: option.splits)
  then have "rows w' = rows w \<and> kv w' \<subseteq>\<^sub>m kv w"
    by (rule send_loop_keeps [where Q = "\<lambda>w w'. rows w' = rows w \<and> kv w' \<subseteq>\<^sub>m kv w"])
      (use independentD(1) [OF assms(2)] in \<open>auto intro: map_le_trans\<close>)
  then show "rows w' = rows w" "kv w' \<subseteq>\<^sub>m kv w" by simp_all
  show "r = Answered st body" by (rule r)
  from sendHttpResponse_complete [OF assms(1) r(2)]
  show "sends (sv_kernel S) sent fd ka r w w'" unfolding r sends_def db_result.case .
qed

lemma redis_createConn_calm:
  assumes "redis_contract (sv_redis S) kv" and "independent S sent rows kv"
    and "redis_createConn (sv_redis S) p w = (r, w')"
  shows "calm sent rows kv w w'"
proof -
  note R = redis_contractD [OF assms(1)] and I = independentD [OF assms(2)]
  obtain con w1 where c: "rd_connect (sv_redis S) (c_str (redis_host p)) (redis_port p) w = (con, w1)"
    by fastforce
  have c1: "calm sent rows kv w w1" using R(1) [OF c] I(4) [OF c] by (simp add: calm_def)
  have "calm sent rows kv w (rd_free (sv_redis S) d w1)" for d
    using c1 R(2) I(5) by (auto simp: calm_def intro: map_le_trans)
  with c c1 assms(3) show ?thesis
    by (auto simp: redis_createConn_def split: option.splits if_splits)
qed

lemma redis_discard_calm:
  assumes "redis_contract (sv_redis S) kv" and "independent S sent rows kv"
    and "redis_discardBrokenConn (sv_redis S) c p w = (p', w')"
  shows "calm sent rows kv w w'"
proof -
  have "calm sent rows kv w (rd_free (sv_redis S) c w)"
    using redis_contractD(2) [OF assms(1)] independentD(5) [OF assms(2)] by (simp add: calm_def)
  moreover obtain r w1 where r: "redis_createConn (sv_redis S) p (rd_free (sv_redis S) c w) = (r, w1)"
    by fastforce
  moreover have "w' = w1" using assms(3) r by (auto simp: redis_discardBrokenConn_def split: option.splits)
  ultimately show ?thesis using redis_createConn_calm [OF assms(1,2)] by (blast intro: calm_trans)
qed

text \<open>
  The three Redis operations: \<open>get\<close> observes a value that is stored, \<open>setex\<close> stores at most
  its own value, \<open>del\<close> removes.
\<close>

lemma redis_get_spec:
  assumes "redis_contract (sv_redis S) kv" and "independent S sent rows kv"
    and "redis_get (sv_redis S) key p w = ((v, st), p', w')"
  shows "calm sent rows kv w w'" and "st = RedisOk \<Longrightarrow> kv w (c_str key) = Some v"
proof -
  have "calm sent rows kv w w' \<and> (st = RedisOk \<longrightarrow> kv w (c_str key) = Some v)"
  proof (cases "redis_getConn p")
    case (Pair co p1)
    show ?thesis
    proof (cases co)
      case None
      with assms(3) Pair show ?thesis by (simp add: redis_get_def)
    next
      case (Some c)
      obtain rep w1 where g: "rd_command (sv_redis S) c [''GET'', c_str key] w = (rep, w1)" by fastforce
      have c1: "calm sent rows kv w w1"
        using redis_contractD(3) [OF assms(1) g] independentD(6) [OF assms(2) g] by (simp add: calm_def)
      obtain p2 w2 where d: "redis_discardBrokenConn (sv_redis S) c p1 w1 = (p2, w2)" by fastforce
      have c2: "calm sent rows kv w1 w2" by (rule redis_discard_calm [OF assms(1,2) d])
      show ?thesis
        using assms(3) Pair Some g d c1 calm_trans [OF c1 c2] redis_contractD(3) [OF assms(1) g]
        by (auto simp: redis_get_def split: option.splits redis_reply.splits)
    qed
  qed
  then show "calm sent rows kv w w'" and "st = RedisOk \<Longrightarrow> kv w (c_str key) = Some v" by simp_all
qed

lemma redis_setex_spec:
  assumes "redis_contract (sv_redis S) kv" and "independent S sent rows kv"
    and "redis_setex (sv_redis S) key ttl v p w = (ok, p', w')"
  shows "sent w' = sent w \<and> rows w' = rows w
    \<and> (kv w' \<subseteq>\<^sub>m kv w \<or> kv w' \<subseteq>\<^sub>m (kv w)(c_str key \<mapsto> c_str v))"
proof (cases "redis_getConn p")
  case (Pair co p1)
  show ?thesis
  proof (cases co)
    case None
    with assms(3) Pair show ?thesis by (simp add: redis_setex_def)
  next
    case (Some c)
    obtain rep w1 where g: "rd_command (sv_redis S) c [''SETEX'', c_str key, to_string ttl, c_str v] w = (rep, w1)"
      by fastforce
    obtain p2 w2 where d: "redis_discardBrokenConn (sv_redis S) c p1 w1 = (p2, w2)" by fastforce
    have "w' = w1 \<or> w' = w2"
      using assms(3) Pair Some g d by (auto simp: redis_setex_def split: option.splits)
    with redis_contractD(4) [OF assms(1) g] independentD(6) [OF assms(2) g] redis_discard_calm [OF assms(1,2) d]
    show ?thesis by (auto simp: calm_def intro: map_le_trans)
  qed
qed

lemma redis_del_spec:
  assumes "redis_contract (sv_redis S) kv" and "independent S sent rows kv"
    and "redis_del (sv_redis S) key p w = (st, p', w')"
  shows "calm sent rows kv w w'" and "st = RedisOk \<Longrightarrow> kv w' (c_str key) = None"
proof -
  have "calm sent rows kv w w' \<and> (st = RedisOk \<longrightarrow> kv w' (c_str key) = None)"
  proof (cases "redis_getConn p")
    case (Pair co p1)
    show ?thesis
    proof (cases co)
      case None
      with assms(3) Pair show ?thesis by (simp add: redis_del_def)
    next
      case (Some c)
      obtain rep w1 where g: "rd_command (sv_redis S) c [''DEL'', c_str key] w = (rep, w1)" by fastforce
      have c1: "calm sent rows kv w w1"
        using redis_contractD(5) [OF assms(1) g] independentD(6) [OF assms(2) g] by (simp add: calm_def)
      obtain p2 w2 where d: "redis_discardBrokenConn (sv_redis S) c p1 w1 = (p2, w2)" by fastforce
      have c2: "calm sent rows kv w1 w2" by (rule redis_discard_calm [OF assms(1,2) d])
      show ?thesis
        using assms(3) Pair Some g d c1 calm_trans [OF c1 c2] redis_contractD(5) [OF assms(1) g]
        by (auto simp: redis_del_def split: option.splits redis_reply.splits if_splits)
    qed
  qed
  then show "calm sent rows kv w w'" and "st = RedisOk \<Longrightarrow> kv w' (c_str key) = None" by simp_all
qed

lemma draw_token_calm:
  assumes "independent S sent rows kv"
  shows "draw_token S n tok w = (r, w') \<Longrightarrow> calm sent rows kv w w'"
proof (induction n arbitrary: tok w)
  case (Suc n)
  obtain i w1 where d: "sv_draw S w = (i, w1)" by fastforce
  from independentD(7) [OF assms d] Suc.IH Suc.prems d show ?case
    by (auto split: option.splits intro: calm_trans)
qed simp

end
