(* ===== verification/DbCorrect.thy ===== *)
theory DbCorrect
  imports DbContract
begin

section \<open>The effect of the database tasks\<close>

text \<open>
  For every task what it sends, what it does to the users table and what it leaves in Redis,
  on every branch (\<open>runDbTask_spec\<close>); that it returns; that it never overruns an escape
  buffer; and that the password cache stays coherent with the table over any history of
  tasks.
\<close>

subsection \<open>Register\<close>

definition register_effect ::
    "(bytes \<Rightarrow> bytes \<Rightarrow> bool) \<Rightarrow> bytes \<Rightarrow> bytes \<Rightarrow> db_result \<Rightarrow> (bytes \<times> bytes) list \<Rightarrow> (bytes \<times> bytes) list \<Rightarrow> bool" where
  "register_effect same u q r table table' \<longleftrightarrow>
     (case r of
        Answered st body \<Rightarrow>
          (if st = 200 then row_for same table u = [] \<and> table' = table @ [(u, q)]
           else if st = 409 then row_for same table u \<noteq> [] \<and> table' = table
           else if st = 500 then table' = table \<or> row_for same table u = [] \<and> table' = table @ [(u, q)]
           else st = 503 \<and> table' = table)
      | _ \<Rightarrow> table' = table)"

lemma mysql_contract_select:
  assumes "mysql_contract M same rows" and "my_store_result M c w1 = (r, w2)"
  shows "my_query M c (select_user_sql (my_escape M u)) w = (f, w1) \<Longrightarrow>
      rows w1 = rows w \<and> rows w2 = rows w
      \<and> (\<not> f \<longrightarrow> r \<noteq> None \<longrightarrow> the r = map (\<lambda>_. ''1'') (take 1 (row_for same (rows w) u)))"
    and "my_query M c (select_password_sql (my_escape M u)) w = (f, w1) \<Longrightarrow>
      rows w1 = rows w \<and> rows w2 = rows w
      \<and> (\<not> f \<longrightarrow> r \<noteq> None \<longrightarrow> the r = map snd (take 1 (row_for same (rows w) u)))"
  using assms unfolding mysql_contract_def by metis+

lemma mysql_contract_insert:
  assumes "mysql_contract M same rows"
    and "my_query M c (insert_user_sql (my_escape M u) (my_escape M q)) w = (f, w1)"
  shows "rows w1 = rows w \<and> f \<or> rows w1 = rows w @ [(u, q)] \<and> row_for same (rows w) u = []"
  using assms unfolding mysql_contract_def by metis

lemma db_servicesD:
  assumes "db_services S same sent rows kv"
  shows "write_accepts (sv_kernel S) sent" and "mysql_contract (sv_mysql S) same rows"
    and "redis_contract (sv_redis S) kv" and "independent S sent rows kv"
  using assms by (simp_all add: db_services_def)

lemma reply_after:
  assumes "db_services S same sent rows kv" and "reply S fd ka st body w1 = Some (r, w')"
    and "sent w1 = sent w" and "kv w1 \<subseteq>\<^sub>m kv w"
  shows "r = Answered st body" and "sends (sv_kernel S) sent fd ka r w w'" and "rows w' = rows w1" and "kv w' \<subseteq>\<^sub>m kv w"
  using reply_spec [OF db_servicesD(1,4) [OF assms(1)] assms(2)] assms(3,4) assms(1)
  by (auto intro: sends_calm map_le_trans)

text \<open>The statements the register task runs, and how it answers them.\<close>

lemma registerBody_run:
  assumes "db_services S same sent rows kv" and "registerBody S fd ka u q (Some c) w = Some (r, w')"
    and "r \<noteq> Overrun"
  obtains f w1 res w2 g w3 where
    "my_query (sv_mysql S) c (select_user_sql (my_escape (sv_mysql S) u)) w = (f, w1)"
    and "my_store_result (sv_mysql S) c w1 = (res, w2)"
    and "my_query (sv_mysql S) c (insert_user_sql (my_escape (sv_mysql S) u) (my_escape (sv_mysql S) q)) w2 = (g, w3)"
    and "f \<and> reply S fd ka 500 (json_error ''database error'') w1 = Some (r, w')
      \<or> \<not> f \<and> res \<noteq> None \<and> the res \<noteq> [] \<and> reply S fd ka 409 (json_error ''user already exists'') w2 = Some (r, w')
      \<or> \<not> f \<and> g \<and> reply S fd ka 500 (json_error ''database error'') w3 = Some (r, w')
      \<or> \<not> f \<and> \<not> g \<and> reply S fd ka 200 (json_message ''register success'') w3 = Some (r, w')"
proof -
  let ?m = "sv_mysql S"
  note M = db_servicesD(2) [OF assms(1)]
  obtain eu ep where e: "escape_into 129 (my_escape ?m u) = Some eu" "escape_into 257 (my_escape ?m q) = Some ep"
    using assms(2,3) by (auto simp: registerBody_def split: option.splits)
  have esc: "my_escape ?m u = eu" "my_escape ?m q = ep" "CHR 0x00 \<notin> set eu" "CHR 0x00 \<notin> set ep"
    using escape_into_Some [OF M e(1)] escape_into_Some [OF M e(2)] by simp_all
  obtain f w1 where q1: "my_query ?m c (select_user_sql eu) w = (f, w1)" by fastforce
  obtain res w2 where s: "my_store_result ?m c w1 = (res, w2)" by fastforce
  obtain g w3 where q2: "my_query ?m c (insert_user_sql eu ep) w2 = (g, w3)" by fastforce
  show thesis
    by (rule that [of f w1 res w2 g w3])
      (use assms(2) e q1 s q2 esc in \<open>simp_all add: registerBody_def split: if_splits\<close>)
qed

lemma registerBody_answered:
  assumes "db_services S same sent rows kv" and "registerBody S fd ka u q (Some c) w = Some (r, w')"
    and "r \<noteq> Overrun"
  shows "sends (sv_kernel S) sent fd ka r w w' \<and> kv w' \<subseteq>\<^sub>m kv w \<and> register_effect same u q r (rows w) (rows w')"
proof (rule registerBody_run [OF assms])
  fix f w1 res w2 g w3
  note M = db_servicesD(2) [OF assms(1)] and I = db_servicesD(4) [OF assms(1)]
  assume q1: "my_query (sv_mysql S) c (select_user_sql (my_escape (sv_mysql S) u)) w = (f, w1)"
    and s: "my_store_result (sv_mysql S) c w1 = (res, w2)"
    and q2: "my_query (sv_mysql S) c (insert_user_sql (my_escape (sv_mysql S) u) (my_escape (sv_mysql S) q)) w2 = (g, w3)"
    and run: "f \<and> reply S fd ka 500 (json_error ''database error'') w1 = Some (r, w')
      \<or> \<not> f \<and> res \<noteq> None \<and> the res \<noteq> [] \<and> reply S fd ka 409 (json_error ''user already exists'') w2 = Some (r, w')
      \<or> \<not> f \<and> g \<and> reply S fd ka 500 (json_error ''database error'') w3 = Some (r, w')
      \<or> \<not> f \<and> \<not> g \<and> reply S fd ka 200 (json_message ''register success'') w3 = Some (r, w')"
  note sel = mysql_contract_select(1) [OF M s q1] and ins = mysql_contract_insert [OF M q2]
  have o1: "sent w1 = sent w" "kv w1 \<subseteq>\<^sub>m kv w" using independentD(2) [OF I q1] by simp_all
  have o2: "sent w2 = sent w" "kv w2 \<subseteq>\<^sub>m kv w" using independentD(3) [OF I s] o1 by (auto intro: map_le_trans)
  have o3: "sent w3 = sent w" "kv w3 \<subseteq>\<^sub>m kv w" using independentD(2) [OF I q2] o2 by (auto intro: map_le_trans)
  note A = reply_after [OF assms(1)]
  from run show ?thesis
  proof (elim disjE conjE)
    assume "reply S fd ka 500 (json_error ''database error'') w1 = Some (r, w')"
    from A [OF this o1] sel show ?thesis by (simp add: register_effect_def)
  next
    assume "\<not> f" "res \<noteq> None" "the res \<noteq> []"
      and "reply S fd ka 409 (json_error ''user already exists'') w2 = Some (r, w')"
    with A [OF this(4) o2] sel show ?thesis by (auto simp: register_effect_def)
  next
    assume "reply S fd ka 500 (json_error ''database error'') w3 = Some (r, w')"
    from A [OF this o3] sel ins show ?thesis by (auto simp: register_effect_def)
  next
    assume "\<not> g" and "reply S fd ka 200 (json_message ''register success'') w3 = Some (r, w')"
    with A [OF this(2) o3] sel ins show ?thesis by (simp add: register_effect_def)
  qed
qed

lemma registerBody_spec:
  assumes "db_services S same sent rows kv" and "registerBody S fd ka u q conn w = Some (r, w')"
  shows "sends (sv_kernel S) sent fd ka r w w' \<and> kv w' \<subseteq>\<^sub>m kv w \<and> register_effect same u q r (rows w) (rows w')"
proof (cases conn)
  case None
  with assms(2) have "reply S fd ka 503 (json_error ''service unavailable'') w = Some (r, w')"
    by (simp add: registerBody_def)
  from reply_after [OF assms(1) this refl map_le_refl] show ?thesis by (simp add: register_effect_def)
next
  case (Some c)
  show ?thesis
  proof (cases "r = Overrun")
    case True
    then have "w' = w" using assms(2) Some
      by (auto simp: registerBody_def reply_def split: option.splits prod.splits if_splits)
    with True show ?thesis by (simp add: sends_def register_effect_def)
  qed (rule registerBody_answered [OF assms(1) assms(2) [unfolded Some]])
qed

subsection \<open>Login\<close>

definition knows_password :: "(bytes \<Rightarrow> bytes \<Rightarrow> bool) \<Rightarrow> (bytes \<times> bytes) list \<Rightarrow> bytes \<Rightarrow> bytes \<Rightarrow> bool" where
  "knows_password same table u q \<longleftrightarrow> (\<exists>row \<in> set table. same (fst row) u \<and> q = c_str (snd row))"

text \<open>
  What a login may leave in Redis: \<open>m\<close> and \<open>m'\<close> are the stores before and after. The user cache
  gets the password of the user's row, a session only appears when the password presented was
  right, and a 200 is only answered then.
\<close>

definition authentic ::
    "(bytes \<Rightarrow> bytes \<Rightarrow> bool) \<Rightarrow> (bytes \<times> bytes) list \<Rightarrow> (bytes \<Rightarrow> bytes option) \<Rightarrow> bytes \<Rightarrow> bytes \<Rightarrow> bool" where
  "authentic same table m u q \<longleftrightarrow>
     knows_password same table u q \<or> q \<noteq> [] \<and> m (user_key (c_str u)) = Some q"

definition login_effect ::
    "(bytes \<Rightarrow> bytes \<Rightarrow> bool) \<Rightarrow> (bytes \<times> bytes) list \<Rightarrow> bytes \<Rightarrow> bool
     \<Rightarrow> (bytes \<Rightarrow> bytes option) \<Rightarrow> (bytes \<Rightarrow> bytes option) \<Rightarrow> bool" where
  "login_effect same table u auth m m' \<longleftrightarrow>
     (\<forall>k v. m' k = Some v \<longrightarrow> m k = Some v
        \<or> k = user_key (c_str u) \<and> knows_password same table u v
        \<or> auth \<and> (\<exists>t. k = session_key t) \<and> v = c_str u)"

lemma login_effect_le: "m' \<subseteq>\<^sub>m m \<Longrightarrow> login_effect same table u auth m m'"
  by (auto simp: login_effect_def map_le_def dom_def)

lemma login_effect_trans:
  "login_effect same table u a1 m m1 \<Longrightarrow> login_effect same table u a2 m1 m2 \<Longrightarrow>
   login_effect same table u (a1 \<or> a2) m m2"
  unfolding login_effect_def by blast

lemma login_effect_shrink:
  "login_effect same table u a m m1 \<Longrightarrow> m' \<subseteq>\<^sub>m m1 \<Longrightarrow> login_effect same table u a m m'"
  using login_effect_trans [OF _ login_effect_le, of same table u a m m1 m' a] by simp

lemma login_effect_user:
  "login_effect same table u a m m' \<Longrightarrow> m' (user_key x) = Some v \<Longrightarrow>
   m (user_key x) = Some v \<or> x = c_str u \<and> knows_password same table u v"
  unfolding login_effect_def by (metis keys_distinct(1,3))

lemma map_le_upd_cases: "m' \<subseteq>\<^sub>m m(k \<mapsto> v) \<Longrightarrow> m' x = Some y \<Longrightarrow> m x = Some y \<or> x = k \<and> y = v"
  using domI [of m' x y] by (auto simp: map_le_def split: if_splits)

text \<open>Caching the password that was found.\<close>

lemma cache_password:
  assumes "db_services S same sent rows kv" and "knows_password same (rows w) u p"
    and "redis_setex (sv_redis S) (user_key u) kUserCacheTtlSec p rp w = (ok, rp1, w1)" and "c_str p = p"
  shows "sent w1 = sent w" and "rows w1 = rows w" and "login_effect same (rows w) u False (kv w) (kv w1)"
proof -
  from redis_setex_spec [OF db_servicesD(3,4) [OF assms(1)] assms(3)] assms(4)
  have x: "sent w1 = sent w" "rows w1 = rows w"
    "kv w1 \<subseteq>\<^sub>m kv w \<or> kv w1 \<subseteq>\<^sub>m (kv w)(user_key (c_str u) \<mapsto> p)" by simp_all
  show "sent w1 = sent w" "rows w1 = rows w" by (fact x(1), fact x(2))
  show "login_effect same (rows w) u False (kv w) (kv w1)"
    using x(3) assms(2) by (auto simp: login_effect_le) (auto simp: login_effect_def dest: map_le_upd_cases)
qed

text \<open>The query of the login task, and what it makes of the result.\<close>

lemma loginMysql_looked_up:
  assumes "db_services S same sent rows kv" and "loginMysql S fd ka u (Some c) (rp, w) = Some (res, rp', w')"
    and "escape_into 129 (my_escape (sv_mysql S) u) = Some eu"
    and q1: "my_query (sv_mysql S) c (select_password_sql eu) w = (False, w1)"
    and s: "my_store_result (sv_mysql S) c w1 = (rs, w2)"
  shows "rows w' = rows w \<and> login_effect same (rows w) u False (kv w) (kv w')
    \<and> (\<exists>found. res = Inr found \<and> sent w' = sent w \<and> (\<forall>q. found = Some q \<longrightarrow> knows_password same (rows w) u q))"
proof -
  note M = db_servicesD(2) [OF assms(1)] and I = db_servicesD(4) [OF assms(1)]
  have eu: "eu = my_escape (sv_mysql S) u" "CHR 0x00 \<notin> set eu" using escape_into_Some [OF M assms(3)] by simp_all
  note sel = mysql_contract_select(2) [OF M s q1 [unfolded eu(1)]]
  have o2: "sent w2 = sent w" "kv w2 \<subseteq>\<^sub>m kv w"
    using independentD(2) [OF I q1] independentD(3) [OF I s] by (auto intro: map_le_trans)
  show ?thesis
  proof (cases "rs = None \<or> the rs = []")
    case True
    with assms(2,3) eu(2) q1 s have "res = Inr None" "w' = w2"
      by (auto simp: loginMysql_def split: list.splits option.splits)
    with o2 sel show ?thesis by (simp add: login_effect_le)
  next
    case False
    then obtain row more' where rs: "rs = Some (row # more')" by (cases rs; cases "the rs") auto
    with sel have "row \<in> snd ` set (take 1 (row_for same (rows w) u))"
      by (metis list.set_intros(1) list.set_map option.distinct(1) option.sel)
    then have k: "knows_password same (rows w) u (c_str row)"
      by (force simp: knows_password_def row_for_def dest!: in_set_takeD)
    obtain ok rp1 w3 where x: "redis_setex (sv_redis S) (user_key u) kUserCacheTtlSec (c_str row) rp w2 = (ok, rp1, w3)"
      by (metis prod_cases3)
    have res: "res = Inr (Some (c_str row))" "w' = w3"
      using assms(2,3) eu(2) q1 s rs x by (auto simp: loginMysql_def)
    have "knows_password same (rows w2) u (c_str row)" using k sel by simp
    note c = cache_password [OF assms(1) this x]
    from login_effect_trans [OF login_effect_le [OF o2(2)], of same "rows w" u False "kv w3" False]
    show ?thesis using c res o2(1) sel k by simp
  qed
qed

lemma loginMysql_spec:
  assumes "db_services S same sent rows kv" and "loginMysql S fd ka u conn (rp, w) = Some (res, rp', w')"
  shows "rows w' = rows w \<and> login_effect same (rows w) u False (kv w) (kv w')
    \<and> (case res of
         Inl r \<Rightarrow> sends (sv_kernel S) sent fd ka r w w' \<and> (\<forall>b. r \<noteq> Answered 200 b) \<and> r \<noteq> Thrown
       | Inr found \<Rightarrow> sent w' = sent w \<and> (\<forall>q. found = Some q \<longrightarrow> knows_password same (rows w) u q))"
proof (cases conn)
  case None
  with assms(2) obtain r where r: "res = Inl r" "reply S fd ka 503 (json_error ''service unavailable'') w = Some (r, w')"
    by (auto simp: loginMysql_def)
  from reply_after [OF assms(1) r(2) refl map_le_refl] r(1) show ?thesis by (simp add: login_effect_le)
next
  case (Some c)
  let ?m = "sv_mysql S"
  note M = db_servicesD(2) [OF assms(1)] and I = db_servicesD(4) [OF assms(1)]
  show ?thesis
  proof (cases "escape_into 129 (my_escape ?m u)")
    case None
    with assms(2) Some show ?thesis by (auto simp: loginMysql_def sends_def login_effect_le)
  next
    case esc: (Some eu)
    then have eu: "eu = my_escape ?m u" "CHR 0x00 \<notin> set eu" using escape_into_Some [OF M] by blast+
    obtain f w1 where q1: "my_query ?m c (select_password_sql eu) w = (f, w1)" by fastforce
    obtain rs w2 where s: "my_store_result ?m c w1 = (rs, w2)" by fastforce
    show ?thesis
    proof (cases f)
      case True
      with assms(2) Some esc eu(2) q1 obtain r where
        r: "res = Inl r" "reply S fd ka 500 (json_error ''database error'') w1 = Some (r, w')"
        by (auto simp: loginMysql_def)
      have "sent w1 = sent w" "kv w1 \<subseteq>\<^sub>m kv w" using independentD(2) [OF I q1] by simp_all
      from reply_after [OF assms(1) r(2) this] mysql_contract_select(2) [OF M s q1 [unfolded eu(1)]] r(1)
      show ?thesis by (simp add: login_effect_le)
    next
      case False
      with loginMysql_looked_up [OF assms(1) assms(2) [unfolded Some] esc _ s] q1 show ?thesis by auto
    qed
  qed
qed

lemma loginFinish_spec:
  assumes "db_services S same sent rows kv"
    and "loginFinish S fd ka u q found (rp, w) = Some (r, rp', w')"
  shows "rows w' = rows w \<and> sends (sv_kernel S) sent fd ka r w w' \<and> r \<noteq> Overrun
    \<and> login_effect same (rows w) u (found = Some q) (kv w) (kv w')
    \<and> (\<forall>b. r = Answered 200 b \<longrightarrow> found = Some q)"
proof (cases "found = Some q")
  case False
  then obtain msg where r: "reply S fd ka 401 msg w = Some (r, w')"
    using assms(2) by (auto simp: loginFinish_def split: option.splits if_splits)
  from reply_after [OF assms(1) r refl map_le_refl] show ?thesis by (simp add: login_effect_le)
next
  case True
  obtain tok w1 where g: "generateToken S w = (tok, w1)" by fastforce
  have c1: "calm sent rows kv w w1"
    using draw_token_calm [OF db_servicesD(4) [OF assms(1)]] g by (simp add: generateToken_def)
  show ?thesis
  proof (cases tok)
    case None
    with True assms(2) g c1 show ?thesis
      by (auto simp: loginFinish_def sends_def calm_def login_effect_le)
  next
    case (Some token)
    obtain ok rp1 w2 where x: "redis_setex (sv_redis S) (session_key token) kSessionTtlSec u rp w1 = (ok, rp1, w2)"
      by (metis prod_cases3)
    from redis_setex_spec [OF db_servicesD(3,4) [OF assms(1)] x]
    have x': "sent w2 = sent w1" "rows w2 = rows w1"
      "kv w2 \<subseteq>\<^sub>m kv w1 \<or> kv w2 \<subseteq>\<^sub>m (kv w1)(session_key (c_str token) \<mapsto> c_str u)" by simp_all
    obtain st b where rp: "reply S fd ka st b w2 = Some (r, w')"
      using True assms(2) g Some x by (auto simp: loginFinish_def split: if_splits)
    have s2: "sent w2 = sent w" "rows w2 = rows w" using x'(1,2) c1 by (simp_all add: calm_def)
    have "login_effect same (rows w) u True (kv w1) (kv w2)"
      using x'(3) by (auto simp: login_effect_le) (auto simp: login_effect_def dest: map_le_upd_cases)
    from login_effect_trans [OF login_effect_le this, of "kv w" False]
    have "login_effect same (rows w) u True (kv w) (kv w2)" using c1 by (simp add: calm_def)
    from login_effect_trans [OF this login_effect_le, of "kv w'" True]
    show ?thesis
      using True s2 reply_spec [OF db_servicesD(1,4) [OF assms(1)] rp] assms(1)
      by (auto intro: sends_calm)
  qed
qed

text \<open>The end of a login, with what was looked up before.\<close>

lemma login_finished:
  assumes "db_services S same sent rows kv"
    and "loginFinish S fd ka u q found (rp, w1) = Some (r, rp', w')"
    and "found = Some q \<longrightarrow> authentic same (rows w) (kv w) u q"
    and "sent w1 = sent w" and "rows w1 = rows w" and "login_effect same (rows w) u False (kv w) (kv w1)"
  shows "rows w' = rows w \<and> sends (sv_kernel S) sent fd ka r w w'
    \<and> login_effect same (rows w) u (authentic same (rows w) (kv w) u q) (kv w) (kv w')
    \<and> (\<forall>b. r = Answered 200 b \<longrightarrow> authentic same (rows w) (kv w) u q)"
  using loginFinish_spec [OF assms(1,2)] assms(3-)
    login_effect_trans [OF assms(6), of "found = Some q" "kv w'"]
  by (cases "found = Some q") (auto intro: sends_calm simp: login_effect_def)

lemma loginWork_spec:
  assumes "db_services S same sent rows kv" and "loginWork S fd ka u q s = Some (r, s')"
  shows "rows (world s') = rows (world s) \<and> sends (sv_kernel S) sent fd ka r (world s) (world s')
    \<and> login_effect same (rows (world s)) u (authentic same (rows (world s)) (kv (world s)) u q)
        (kv (world s)) (kv (world s'))
    \<and> (\<forall>b. r = Answered 200 b \<longrightarrow> authentic same (rows (world s)) (kv (world s)) u q)"
proof -
  let ?w = "world s"
  obtain cached st rp1 w1 where g: "redis_get (sv_redis S) (user_key u) (redisPool s) ?w = ((cached, st), rp1, w1)"
    by (metis prod.exhaust)
  note get = redis_get_spec [OF db_servicesD(3,4) [OF assms(1)] g]
  have c1: "sent w1 = sent ?w" "rows w1 = rows ?w" "kv w1 \<subseteq>\<^sub>m kv ?w" using get(1) by (simp_all add: calm_def)
  have mono: "login_effect same (rows ?w) u a (kv w1) m \<Longrightarrow> login_effect same (rows ?w) u a (kv ?w) m" for a m
    using login_effect_trans [OF login_effect_le [OF c1(3)], of same "rows ?w" u a m a] by simp
  note fin = login_finished [OF assms(1)]
  show ?thesis
  proof (cases "st = RedisOk \<and> cached \<noteq> []")
    case True
    from assms(2) g True obtain rp' where
      f: "loginFinish S fd ka u q (Some cached) (rp1, w1) = Some (r, rp', world s')"
      by (auto simp: loginWork_def split: option.splits)
    show ?thesis
      by (rule fin [OF f]) (use c1 get(2) True in \<open>auto simp: authentic_def login_effect_le\<close>)
  next
    case False
    from assms(2) g False obtain res mp rp2 w2 where
      m: "mysql_guard (mysqlPool s) (loginMysql S fd ka u) (rp1, w1) = Some (res, mp, rp2, w2)"
      by (auto simp: loginWork_def split: option.splits sum.splits)
    then have "loginMysql S fd ka u (fst (mysql_getConn (mysqlPool s))) (rp1, w1) = Some (res, rp2, w2)"
      by (simp add: mysql_guard_Some)
    note spec = loginMysql_spec [OF assms(1) this, unfolded c1(2)]
    show ?thesis
    proof (cases res)
      case (Inl r')
      with assms(2) g False m have "r' = r" "world s' = w2" by (auto simp: loginWork_def)
      with spec Inl c1 mono [of False "kv w2"] show ?thesis
        by (auto intro: sends_calm simp: login_effect_def)
    next
      case (Inr found)
      with assms(2) g False m obtain rp' where
        f: "loginFinish S fd ka u q found (rp2, w2) = Some (r, rp', world s')"
        by (auto simp: loginWork_def split: option.splits)
      show ?thesis
        by (rule fin [OF f]) (use spec Inr c1 mono [of False "kv w2"] in \<open>auto simp: authentic_def\<close>)
    qed
  qed
qed

text \<open>
  The token a login draws, if it gets that far: the password lookup of the task up to the
  call of \<open>generateToken\<close>.
\<close>

definition drawn_token :: "'w services \<Rightarrow> db_task \<Rightarrow> 'w db_state \<Rightarrow> bytes option" where
  "drawn_token S t s =
     (case t of
        LoginTask fd ka u q \<Rightarrow>
          (case redis_get (sv_redis S) (user_key u) (redisPool s) (world s) of
             ((cached, st), rp1, w1) \<Rightarrow>
               (case (if st = RedisOk \<and> cached \<noteq> [] then Some (Inr (Some cached), mysqlPool s, rp1, w1)
                      else mysql_guard (mysqlPool s) (loginMysql S fd ka u) (rp1, w1)) of
                  Some (Inr (Some p), _, _, w2) \<Rightarrow> if q = p then fst (generateToken S w2) else None
                | _ \<Rightarrow> None))
      | _ \<Rightarrow> None)"

lemma login_effect_session:
  "login_effect same table u False m m' \<Longrightarrow> m' (session_key k) = Some v \<Longrightarrow> m (session_key k) = Some v"
  unfolding login_effect_def by (metis keys_distinct(3))

lemma loginFinish_session:
  assumes "db_services S same sent rows kv"
    and "loginFinish S fd ka u q found (rp, w) = Some (r, rp', w')" and "kv w' (session_key k) = Some v"
  shows "kv w (session_key k) = Some v
    \<or> found = Some q \<and> (\<exists>t. fst (generateToken S w) = Some t \<and> k = c_str t)"
proof (cases "found = Some q")
  case False
  with loginFinish_spec [OF assms(1,2)] login_effect_session assms(3) show ?thesis by auto
next
  case True
  obtain tok w1 where g: "generateToken S w = (tok, w1)" by fastforce
  have c1: "kv w1 \<subseteq>\<^sub>m kv w"
    using draw_token_calm [OF db_servicesD(4) [OF assms(1)]] g by (simp add: generateToken_def calm_def)
  show ?thesis
  proof (cases tok)
    case None
    with True assms(2) g have "w' = w1" by (simp add: loginFinish_def)
    with c1 assms(3) show ?thesis by (auto simp: map_le_def dom_def)
  next
    case (Some token)
    obtain ok rp1 w2 where x: "redis_setex (sv_redis S) (session_key token) kSessionTtlSec u rp w1 = (ok, rp1, w2)"
      by (metis prod_cases3)
    obtain st b where rp: "reply S fd ka st b w2 = Some (r, w')"
      using True assms(2) g Some x by (auto simp: loginFinish_def split: if_splits)
    have "kv w' \<subseteq>\<^sub>m kv w2" using reply_spec(4) [OF db_servicesD(1,4) [OF assms(1)] rp] assms(1) by blast
    with assms(3) have v: "kv w2 (session_key k) = Some v" by (auto simp: map_le_def dom_def)
    have "kv w2 \<subseteq>\<^sub>m kv w1 \<or> kv w2 \<subseteq>\<^sub>m (kv w1)(session_key (c_str token) \<mapsto> c_str u)"
      using redis_setex_spec [OF db_servicesD(3,4) [OF assms(1)] x] by simp
    then have "kv w1 (session_key k) = Some v \<or> k = c_str token"
      using v by (auto simp: map_le_def dom_def dest: map_le_upd_cases)
    with c1 True g Some show ?thesis by (auto simp: map_le_def dom_def)
  qed
qed

lemma loginWork_session:
  assumes "db_services S same sent rows kv" and "loginWork S fd ka u q s = Some (r, s')"
    and "kv (world s') (session_key k) = Some v"
  shows "kv (world s) (session_key k) = Some v
    \<or> (\<exists>t. drawn_token S (LoginTask fd ka u q) s = Some t \<and> k = c_str t)"
proof -
  obtain cached st rp1 w1 where g: "redis_get (sv_redis S) (user_key u) (redisPool s) (world s) = ((cached, st), rp1, w1)"
    by (metis prod.exhaust)
  have c1: "kv w1 \<subseteq>\<^sub>m kv (world s)"
    using redis_get_spec(1) [OF db_servicesD(3,4) [OF assms(1)] g] by (simp add: calm_def)
  note fin = loginFinish_session [OF assms(1) _ assms(3)]
  show ?thesis
  proof (cases "st = RedisOk \<and> cached \<noteq> []")
    case True
    from assms(2) g True obtain rp' where
      "loginFinish S fd ka u q (Some cached) (rp1, w1) = Some (r, rp', world s')"
      by (auto simp: loginWork_def split: option.splits)
    from fin [OF this] c1 g True show ?thesis by (auto simp: drawn_token_def map_le_def dom_def)
  next
    case False
    from assms(2) g False obtain res mp rp2 w2 where
      m: "mysql_guard (mysqlPool s) (loginMysql S fd ka u) (rp1, w1) = Some (res, mp, rp2, w2)"
      by (auto simp: loginWork_def split: option.splits sum.splits)
    then have "loginMysql S fd ka u (fst (mysql_getConn (mysqlPool s))) (rp1, w1) = Some (res, rp2, w2)"
      by (simp add: mysql_guard_Some)
    from loginMysql_spec [OF assms(1) this]
    have eff: "login_effect same (rows w1) u False (kv w1) (kv w2)" by blast
    have earlier: "kv w2 (session_key k) = Some v \<Longrightarrow> kv (world s) (session_key k) = Some v"
      using login_effect_session [OF eff] c1 by (auto simp: map_le_def dom_def)
    show ?thesis
    proof (cases res)
      case (Inl r')
      with assms(2) g False m have "world s' = w2" by (auto simp: loginWork_def)
      with earlier assms(3) show ?thesis by simp
    next
      case (Inr found)
      with assms(2) g False m obtain rp' where
        "loginFinish S fd ka u q found (rp2, w2) = Some (r, rp', world s')"
        by (auto simp: loginWork_def split: option.splits)
      from fin [OF this] earlier g False m Inr show ?thesis by (auto simp: drawn_token_def)
    qed
  qed
qed

subsection \<open>Profile and logout\<close>

lemma profileWork_spec:
  assumes "db_services S same sent rows kv" and "profileWork S fd ka tok s = Some (r, s')"
  shows "rows (world s') = rows (world s) \<and> sends (sv_kernel S) sent fd ka r (world s) (world s')
    \<and> kv (world s') \<subseteq>\<^sub>m kv (world s)
    \<and> (\<exists>st b. r = Answered st b \<and> (st = 200 \<longrightarrow>
         (\<exists>v. kv (world s) (session_key (c_str tok)) = Some v \<and> v \<noteq> [] \<and> b = json_username v)))"
proof -
  obtain v st rp1 w1 where g: "redis_get (sv_redis S) (session_key tok) (redisPool s) (world s) = ((v, st), rp1, w1)"
    by (metis prod.exhaust)
  note get = redis_get_spec [OF db_servicesD(3,4) [OF assms(1)] g]
  have c1: "sent w1 = sent (world s)" "rows w1 = rows (world s)" "kv w1 \<subseteq>\<^sub>m kv (world s)"
    using get(1) by (simp_all add: calm_def)
  obtain code b where r: "reply S fd ka code b w1 = Some (r, world s')"
    and ok: "code = 200 \<longrightarrow> st = RedisOk \<and> v \<noteq> [] \<and> b = json_username v"
    using assms(2) g by (cases st) (auto simp: profileWork_def split: if_splits)
  from reply_after [OF assms(1) r c1(1,3)] c1(2) ok get(2) show ?thesis by auto
qed

lemma logoutWork_spec:
  assumes "db_services S same sent rows kv" and "logoutWork S fd ka tok s = Some (r, s')"
  shows "rows (world s') = rows (world s) \<and> sends (sv_kernel S) sent fd ka r (world s) (world s')
    \<and> kv (world s') \<subseteq>\<^sub>m kv (world s)
    \<and> (\<exists>st b. r = Answered st b \<and> (st = 200 \<longrightarrow> kv (world s') (session_key (c_str tok)) = None))"
proof -
  obtain st rp1 w1 where g: "redis_del (sv_redis S) (session_key tok) (redisPool s) (world s) = (st, rp1, w1)"
    by (metis prod.exhaust)
  note del = redis_del_spec [OF db_servicesD(3,4) [OF assms(1)] g]
  have c1: "sent w1 = sent (world s)" "rows w1 = rows (world s)" "kv w1 \<subseteq>\<^sub>m kv (world s)"
    using del(1) by (simp_all add: calm_def)
  obtain code b where r: "reply S fd ka code b w1 = Some (r, world s')" and ok: "code = 200 \<longrightarrow> st = RedisOk"
    using assms(2) g by (cases st) (auto simp: logoutWork_def split: if_splits)
  have "kv (world s') \<subseteq>\<^sub>m kv w1"
    using reply_spec [OF db_servicesD(1,4) [OF assms(1)] r] assms(1) by blast
  then have "st = RedisOk \<Longrightarrow> kv (world s') (session_key (c_str tok)) = None"
    using del(2) by (auto simp: map_le_def dom_def)
  with reply_after [OF assms(1) r c1(1,3)] c1(2) ok show ?thesis by auto
qed

lemma registerWork_spec:
  assumes "db_services S same sent rows kv" and "registerWork S fd ka u q s = Some (r, s')"
  shows "sends (sv_kernel S) sent fd ka r (world s) (world s') \<and> kv (world s') \<subseteq>\<^sub>m kv (world s)
    \<and> register_effect same u q r (rows (world s)) (rows (world s'))"
proof -
  obtain mp w where "mysql_guard (mysqlPool s) (registerBody S fd ka u q) (world s) = Some (r, mp, w)"
    "s' = s\<lparr>mysqlPool := mp, world := w\<rparr>"
    using assms(2) by (auto simp: registerWork_def split: option.splits)
  with registerBody_spec [OF assms(1)] show ?thesis by (fastforce simp: mysql_guard_Some)
qed

subsection \<open>All tasks\<close>

fun task_fits :: "db_task \<Rightarrow> bool" where
  "task_fits (RegisterTask fd ka u q) \<longleftrightarrow> length u \<le> kMaxUsernameLen \<and> length q \<le> kMaxPasswordLen"
| "task_fits (LoginTask fd ka u q) \<longleftrightarrow> length u \<le> kMaxUsernameLen \<and> length q \<le> kMaxPasswordLen"
| "task_fits _ \<longleftrightarrow> True"

text \<open>
  The effect of a task, whichever way it goes: the answer, the rows of the users table, the
  keys of Redis.
\<close>

fun task_effect ::
    "(bytes \<Rightarrow> bytes \<Rightarrow> bool) \<Rightarrow> db_task \<Rightarrow> db_result \<Rightarrow> (bytes \<times> bytes) list \<Rightarrow> (bytes \<times> bytes) list
     \<Rightarrow> (bytes \<Rightarrow> bytes option) \<Rightarrow> (bytes \<Rightarrow> bytes option) \<Rightarrow> bool" where
  "task_effect same (RegisterTask fd ka u q) r table table' m m' \<longleftrightarrow>
     register_effect same u q r table table' \<and> m' \<subseteq>\<^sub>m m"
| "task_effect same (LoginTask fd ka u q) r table table' m m' \<longleftrightarrow>
     table' = table \<and> login_effect same table u (authentic same table m u q) m m'
     \<and> (\<forall>b. r = Answered 200 b \<longrightarrow> authentic same table m u q)"
| "task_effect same (ProfileTask fd ka tok) r table table' m m' \<longleftrightarrow>
     table' = table \<and> m' \<subseteq>\<^sub>m m
     \<and> (\<forall>b. r = Answered 200 b \<longrightarrow> (\<exists>v. m (session_key (c_str tok)) = Some v \<and> v \<noteq> [] \<and> b = json_username v))"
| "task_effect same (LogoutTask fd ka tok) r table table' m m' \<longleftrightarrow>
     table' = table \<and> m' \<subseteq>\<^sub>m m
     \<and> (\<forall>b. r = Answered 200 b \<longrightarrow> m' (session_key (c_str tok)) = None)"

lemma db_work_spec:
  assumes "db_services S same sent rows kv" and "db_work S t s = Some (r, s')"
  shows "sends (sv_kernel S) sent (task_fd t) (task_ka t) r (world s) (world s')
    \<and> task_effect same t r (rows (world s)) (rows (world s')) (kv (world s)) (kv (world s'))"
proof (cases t)
  case (RegisterTask fd ka u q)
  with registerWork_spec [OF assms(1)] assms(2) show ?thesis by simp
next
  case (LoginTask fd ka u q)
  with loginWork_spec [OF assms(1)] assms(2) show ?thesis by simp
next
  case (ProfileTask fd ka tok)
  with assms profileWork_spec [OF assms(1), of fd ka tok s r s'] show ?thesis by auto
next
  case (LogoutTask fd ka tok)
  with assms logoutWork_spec [OF assms(1), of fd ka tok s r s'] show ?thesis by auto
qed

lemma task_effect_shrink:
  assumes "task_effect same t Thrown table table' m m1" and "m' \<subseteq>\<^sub>m m1"
  shows "task_effect same t (Answered 500 b) table table' m m'"
proof (cases t)
  case (LoginTask fd ka u q)
  with assms(1) login_effect_shrink [OF _ assms(2)] show ?thesis by simp
qed (use assms in \<open>auto simp: register_effect_def intro: map_le_trans\<close>)

lemma runDbTask_spec:
  assumes "db_services S same sent rows kv" and "runDbTask S t s = Some (r, s')"
  shows "sends (sv_kernel S) sent (task_fd t) (task_ka t) r (world s) (world s')
    \<and> task_effect same t r (rows (world s)) (rows (world s')) (kv (world s)) (kv (world s'))
    \<and> r \<noteq> Thrown"
proof -
  obtain r1 s1 where work: "db_work S t s = Some (r1, s1)"
    using assms(2) by (auto simp: runDbTask_def split: option.splits)
  note spec = db_work_spec [OF assms(1) work]
  show ?thesis
  proof (cases "r1 = Thrown")
    case False
    with assms(2) work have "r = r1" "s' = s1" by (auto simp: runDbTask_def split: db_result.splits)
    with spec False show ?thesis by simp
  next
    case True
    with assms(2) work have rp: "reply S (task_fd t) (task_ka t) 500 (json_error ''internal error'') (world s1)
        = Some (r, world s')" by (auto simp: runDbTask_def)
    note after = reply_spec [OF db_servicesD(1,4) [OF assms(1)] rp] assms(1)
    have "sent (world s1) = sent (world s)" using spec True by (simp add: sends_def)
    moreover have "task_effect same t r (rows (world s)) (rows (world s1)) (kv (world s)) (kv (world s'))"
      using task_effect_shrink spec True after by metis
    ultimately show ?thesis using after by (metis sends_calm db_result.distinct(1))
  qed
qed

text \<open>A session stored under a token was there before, or a login has just drawn that token.\<close>

lemma runDbTask_session:
  assumes "db_services S same sent rows kv" and "runDbTask S t s = Some (r, s')"
    and "kv (world s') (session_key k) = Some v"
  shows "kv (world s) (session_key k) = Some v \<or> (\<exists>tok. drawn_token S t s = Some tok \<and> k = c_str tok)"
proof -
  obtain r1 s1 where work: "db_work S t s = Some (r1, s1)"
    using assms(2) by (auto simp: runDbTask_def split: option.splits)
  have v: "kv (world s1) (session_key k) = Some v"
  proof (cases "r1 = Thrown")
    case False
    with assms work show ?thesis by (auto simp: runDbTask_def split: db_result.splits)
  next
    case True
    with assms(2) work have rp: "reply S (task_fd t) (task_ka t) 500 (json_error ''internal error'') (world s1)
        = Some (r, world s')" by (auto simp: runDbTask_def)
    from reply_spec(4) [OF db_servicesD(1,4) [OF assms(1)] rp] assms(1,3)
    show ?thesis by (auto simp: map_le_def dom_def)
  qed
  show ?thesis
  proof (cases t)
    case (LoginTask fd ka u q)
    with loginWork_session [OF assms(1) _ v] work show ?thesis by simp
  qed (use db_work_spec [OF assms(1) work] v in \<open>auto simp: map_le_def dom_def\<close>)
qed

lemma db_work_fits:
  assumes "mysql_contract (sv_mysql S) same rows" and "task_fits t" and "db_work S t s = Some (r, s')"
  shows "r \<noteq> Overrun"
proof -
  have rep: "reply S fd ka st b w = Some (Overrun, w') \<Longrightarrow> False" for fd ka st b w w'
    by (auto simp: reply_def split: option.splits)
  have fits: "length u \<le> kMaxUsernameLen \<Longrightarrow> \<exists>e. escape_into 129 (my_escape (sv_mysql S) u) = Some e"
    "length u \<le> kMaxPasswordLen \<Longrightarrow> \<exists>e. escape_into 257 (my_escape (sv_mysql S) u) = Some e" for u
    using escape_into_fits [OF assms(1)] by (auto simp: kMaxUsernameLen_def kMaxPasswordLen_def)
  show ?thesis
  proof (cases t)
    case (RegisterTask fd ka u q)
    then show ?thesis using assms(2,3) fits(1) [of u] fits(2) [of q] rep
      by (auto simp: registerWork_def registerBody_def mysql_guard_def split: option.splits prod.splits if_splits)
  next
    case (LoginTask fd ka u q)
    have fin: "loginFinish S fd ka u q found rw \<noteq> Some (Overrun, rw')" for found rw rw'
      by (auto simp: loginFinish_def dest: rep split: option.splits prod.splits if_splits)
    have my: "loginMysql S fd ka u conn rw \<noteq> Some (Inl Overrun, rw')" for conn rw rw'
      using LoginTask assms(2) fits(1) [of u]
      by (auto simp: loginMysql_def dest: rep split: option.splits prod.splits if_splits list.splits)
    show ?thesis using LoginTask assms(3) fin my
      by (auto simp: loginWork_def mysql_guard_def split: option.splits prod.splits if_splits sum.splits)
  qed (use assms(3) rep in \<open>auto simp: profileWork_def logoutWork_def split: prod.splits if_splits\<close>)
qed

subsection \<open>Every task returns\<close>

lemma reply_returns:
  assumes "write_accepts (sv_kernel S) sent" and "finite_eintr (sv_kernel S) fuel"
  shows "\<exists>w'. reply S fd ka st b w = Some (Answered st b, w')"
  using sendHttpResponse_returns [OF assms(2,1)] by (auto simp: reply_def sendJson_def split: option.splits)

lemma db_work_returns:
  assumes "write_accepts (sv_kernel S) sent" and "finite_eintr (sv_kernel S) fuel"
  shows "\<exists>r s'. db_work S t s = Some (r, s')"
proof -
  obtain F where R [simp]: "reply S fd ka st b w = Some (Answered st b, F fd ka st b w)" for fd ka st b w
    using reply_returns [OF assms] by metis
  have reg: "\<exists>y. registerBody S fd ka u q conn w = Some y" for fd ka u q conn w
    by (simp add: registerBody_def split: option.split prod.split)
  have fin: "\<exists>y. loginFinish S fd ka u q found rw = Some y" for fd ka u q found rw
    by (simp add: loginFinish_def split: option.split prod.split)
  have my: "\<exists>y. loginMysql S fd ka u conn rw = Some y" for fd ka u conn rw
    by (simp add: loginMysql_def split: option.split prod.split list.split)
  obtain A B C where [simp]: "registerBody S fd ka u q conn w = Some (A fd ka u q conn w)"
      "loginFinish S fd ka u q found rw = Some (B fd ka u q found rw)"
      "loginMysql S fd ka u conn rw = Some (C fd ka u conn rw)" for fd ka u q conn w found rw
    using reg fin my by metis
  have "db_work S t s \<noteq> None"
    by (cases t) (simp_all add: registerWork_def loginWork_def profileWork_def logoutWork_def mysql_guard_def
        split: option.split prod.split sum.split)
  then show ?thesis by auto
qed

lemma runDbTask_returns:
  assumes "write_accepts (sv_kernel S) sent" and "finite_eintr (sv_kernel S) fuel"
  shows "\<exists>r s'. runDbTask S t s = Some (r, s')"
proof -
  obtain r s1 where "db_work S t s = Some (r, s1)" using db_work_returns [OF assms] by blast
  moreover obtain w' where "reply S (task_fd t) (task_ka t) 500 (json_error ''internal error'') (world s1) =
      Some (Answered 500 (json_error ''internal error''), w')"
    using reply_returns [OF assms] by blast
  ultimately show ?thesis by (cases r) (simp_all add: runDbTask_def)
qed

text \<open>The MySQL connections after a task are the ones before it.\<close>

lemma runDbTask_mysql_idle:
  assumes "runDbTask S t s = Some (r, s')"
  shows "mysql_idle (mysqlPool s') \<in> {mysql_idle (mysqlPool s), rotate1 (mysql_idle (mysqlPool s))}"
proof -
  obtain r1 s1 where work: "db_work S t s = Some (r1, s1)" "mysqlPool s' = mysqlPool s1"
    using assms by (auto simp: runDbTask_def split: option.splits db_result.splits)
  show ?thesis
  proof (cases t)
    case (RegisterTask fd ka u q)
    with work show ?thesis
      by (auto simp: registerWork_def split: option.splits dest: mysql_guard_idle)
  next
    case (LoginTask fd ka u q)
    with work show ?thesis
      by (auto simp: loginWork_def split: option.splits prod.splits if_splits sum.splits dest: mysql_guard_idle)
  qed (use work in \<open>auto simp: profileWork_def logoutWork_def split: prod.splits\<close>)
qed

subsection \<open>Any history of tasks\<close>

text \<open>
  The DB threads run tasks one after the other, as far as the services are concerned; keys
  may expire in between. The usernames are free of NUL bytes.
\<close>

fun nul_free_user :: "db_task \<Rightarrow> bool" where
  "nul_free_user (RegisterTask fd ka u q) \<longleftrightarrow> CHR 0x00 \<notin> set u"
| "nul_free_user (LoginTask fd ka u q) \<longleftrightarrow> CHR 0x00 \<notin> set u"
| "nul_free_user _ \<longleftrightarrow> True"

inductive db_step ::
    "'w services \<Rightarrow> ('w \<Rightarrow> (bytes \<times> bytes) list) \<Rightarrow> ('w \<Rightarrow> bytes \<Rightarrow> bytes option) \<Rightarrow> 'w db_state \<Rightarrow> 'w db_state \<Rightarrow> bool"
  for S rows kv where
  db_task: "nul_free_user t \<Longrightarrow> runDbTask S t s = Some (r, s') \<Longrightarrow> db_step S rows kv s s'"
| db_idle: "rows w' = rows (world s) \<Longrightarrow> kv w' \<subseteq>\<^sub>m kv (world s) \<Longrightarrow>
    db_step S rows kv s \<lparr>mysqlPool = mp, redisPool = rp, world = w'\<rparr>"

text \<open>The cache never disagrees with the table.\<close>

definition cache_coherent :: "(bytes \<Rightarrow> bytes \<Rightarrow> bool) \<Rightarrow> (bytes \<times> bytes) list \<Rightarrow> (bytes \<Rightarrow> bytes option) \<Rightarrow> bool" where
  "cache_coherent same table m \<longleftrightarrow> (\<forall>u v. m (user_key u) = Some v \<longrightarrow> knows_password same table u v)"

lemma knows_password_append:
  "knows_password same table u q \<Longrightarrow> knows_password same (table @ more_rows) u q"
  by (auto simp: knows_password_def)

lemma register_effect_extends:
  "register_effect same u q r table table' \<Longrightarrow> \<exists>rs. table' = table @ rs"
  by (auto simp: register_effect_def split: db_result.splits if_splits)

lemma cache_coherent_le:
  "cache_coherent same table m \<Longrightarrow> m' \<subseteq>\<^sub>m m \<Longrightarrow> cache_coherent same (table @ rs) m'"
  unfolding cache_coherent_def map_le_def dom_def by (auto intro!: knows_password_append)

lemma cache_coherent_authentic:
  "cache_coherent same table m \<Longrightarrow> CHR 0x00 \<notin> set u \<Longrightarrow> authentic same table m u q \<Longrightarrow> knows_password same table u q"
  by (auto simp: cache_coherent_def authentic_def c_str_id)

lemma task_effect_coherent:
  assumes "cache_coherent same table m" and "nul_free_user t" and "task_effect same t r table table' m m'"
  shows "cache_coherent same table' m'"
proof (cases t)
  case (RegisterTask fd ka u q)
  with assms obtain rs where "table' = table @ rs" "m' \<subseteq>\<^sub>m m" using register_effect_extends by fastforce
  with cache_coherent_le [OF assms(1)] show ?thesis by simp
next
  case (LoginTask fd ka u q)
  with assms show ?thesis
    unfolding cache_coherent_def by (auto simp: c_str_id dest: login_effect_user)
qed (use assms cache_coherent_le [OF assms(1), of m' "[]"] in auto)

interpretation dbsys: inductive_invariant
    "\<lambda>s. cache_coherent same (rows (world s)) (kv (world s))" "db_step S rows kv"
    "\<lambda>s. db_services S same sent rows kv \<longrightarrow> cache_coherent same (rows (world s)) (kv (world s))"
  for same S sent rows kv
proof (unfold_locales, goal_cases)
  case (2 s t)
  from 2(2) show ?case
  proof (cases rule: db_step.cases)
    case (db_task x r)
    with 2(1) runDbTask_spec task_effect_coherent show ?thesis by metis
  next
    case (db_idle w' mp rp)
    with 2(1) cache_coherent_le [of same "rows (world s)" "kv (world s)" "kv w'" "[]"] show ?thesis by simp
  qed
qed simp

end
