(* ===== verification/DbWorking.thy ===== *)
theory DbWorking
  imports DbCorrect
begin

section \<open>Services that work\<close>

text \<open>
  The second half of the contracts: \<open>healthy\<close> services answer every call and lose nothing.
  For them the result of each task is determined, which gives the round trips.
\<close>

definition healthy ::
    "'w services \<Rightarrow> (bytes \<Rightarrow> bytes \<Rightarrow> bool) \<Rightarrow> ('w \<Rightarrow> (bytes \<times> bytes) list) \<Rightarrow> ('w \<Rightarrow> bytes \<Rightarrow> bytes option) \<Rightarrow> bool" where
  "healthy S same rows kv \<longleftrightarrow>
     (\<forall>c u w. \<exists>w1 w2. my_query (sv_mysql S) c (select_user_sql (my_escape (sv_mysql S) u)) w = (False, w1)
        \<and> my_store_result (sv_mysql S) c w1 = (Some (map (\<lambda>_. ''1'') (take 1 (row_for same (rows w) u))), w2)
        \<and> rows w2 = rows w \<and> kv w2 = kv w)
     \<and> (\<forall>c u w. \<exists>w1 w2. my_query (sv_mysql S) c (select_password_sql (my_escape (sv_mysql S) u)) w = (False, w1)
        \<and> my_store_result (sv_mysql S) c w1 = (Some (map snd (take 1 (row_for same (rows w) u))), w2)
        \<and> rows w2 = rows w \<and> kv w2 = kv w)
     \<and> (\<forall>c u q w. row_for same (rows w) u = [] \<longrightarrow>
        (\<exists>w1. my_query (sv_mysql S) c (insert_user_sql (my_escape (sv_mysql S) u) (my_escape (sv_mysql S) q)) w = (False, w1)
          \<and> rows w1 = rows w @ [(u, q)] \<and> kv w1 = kv w))
     \<and> (\<forall>c k w. \<exists>w1. rd_command (sv_redis S) c [''GET'', k] w =
          (Some (case kv w k of None \<Rightarrow> ReplyNil | Some v \<Rightarrow> ReplyString v), w1) \<and> rows w1 = rows w \<and> kv w1 = kv w)
     \<and> (\<forall>c k t v w. \<exists>st w1. rd_command (sv_redis S) c [''SETEX'', k, t, v] w = (Some (ReplyStatus st), w1)
          \<and> rows w1 = rows w \<and> kv w1 = (kv w)(k \<mapsto> v))
     \<and> (\<forall>c k w. \<exists>w1. rd_command (sv_redis S) c [''DEL'', k] w =
          (Some (ReplyInteger (if kv w k = None then 0 else 1)), w1) \<and> rows w1 = rows w \<and> kv w1 = (kv w)(k := None))
     \<and> (\<forall>fd d w r w1. k_write (sv_kernel S) fd d w = (r, w1) \<longrightarrow> rows w1 = rows w \<and> kv w1 = kv w)
     \<and> (\<forall>w. \<exists>i w1. sv_draw S w = (Some i, w1) \<and> i < length token_charset \<and> rows w1 = rows w \<and> kv w1 = kv w)"

lemma healthyD:
  assumes "healthy S same rows kv"
  shows "\<exists>w1 w2. my_query (sv_mysql S) c (select_user_sql (my_escape (sv_mysql S) u)) w = (False, w1)
        \<and> my_store_result (sv_mysql S) c w1 = (Some (map (\<lambda>_. ''1'') (take 1 (row_for same (rows w) u))), w2)
        \<and> rows w2 = rows w \<and> kv w2 = kv w"
    and "\<exists>w1 w2. my_query (sv_mysql S) c (select_password_sql (my_escape (sv_mysql S) u)) w = (False, w1)
        \<and> my_store_result (sv_mysql S) c w1 = (Some (map snd (take 1 (row_for same (rows w) u))), w2)
        \<and> rows w2 = rows w \<and> kv w2 = kv w"
    and "row_for same (rows w) u = [] \<Longrightarrow>
        \<exists>w1. my_query (sv_mysql S) c (insert_user_sql (my_escape (sv_mysql S) u) (my_escape (sv_mysql S) q)) w = (False, w1)
          \<and> rows w1 = rows w @ [(u, q)] \<and> kv w1 = kv w"
    and "\<exists>w1. rd_command (sv_redis S) c [''GET'', k] w =
          (Some (case kv w k of None \<Rightarrow> ReplyNil | Some v \<Rightarrow> ReplyString v), w1) \<and> rows w1 = rows w \<and> kv w1 = kv w"
    and "\<exists>st w1. rd_command (sv_redis S) c [''SETEX'', k, t, v] w = (Some (ReplyStatus st), w1)
          \<and> rows w1 = rows w \<and> kv w1 = (kv w)(k \<mapsto> v)"
    and "\<exists>w1. rd_command (sv_redis S) c [''DEL'', k] w =
          (Some (ReplyInteger (if kv w k = None then 0 else 1)), w1) \<and> rows w1 = rows w \<and> kv w1 = (kv w)(k := None)"
    and "k_write (sv_kernel S) fd d w = (r, w1) \<Longrightarrow> rows w1 = rows w \<and> kv w1 = kv w"
    and "\<exists>i w1. sv_draw S w = (Some i, w1) \<and> i < length token_charset \<and> rows w1 = rows w \<and> kv w1 = kv w"
  using assms unfolding healthy_def by simp_all

definition ready :: "'w db_state \<Rightarrow> bool" where
  "ready s \<longleftrightarrow> mysql_idle (mysqlPool s) \<noteq> [] \<and> redis_idle (redisPool s) \<noteq> []"

lemma redis_getConn_ready:
  "redis_idle p \<noteq> [] \<Longrightarrow> \<exists>c p1. redis_getConn p = (Some c, p1)"
  by (auto simp: redis_getConn_def split: list.splits)

lemma mysql_getConn_ready:
  "mysql_idle p \<noteq> [] \<Longrightarrow> \<exists>c p1. mysql_getConn p = (Some c, p1) \<and> mysql_idle (mysql_releaseConn (Some c) p1) \<noteq> []"
  by (auto simp: mysql_getConn_def mysql_releaseConn_def split: list.splits)

lemma redis_release_nonempty [simp]: "redis_idle (redis_releaseConn (Some c) p) \<noteq> []"
  by (simp add: redis_releaseConn_def)

lemma healthy_get:
  assumes "healthy S same rows kv" and "redis_idle p \<noteq> []"
  shows "\<exists>p' w'. redis_get (sv_redis S) key p w =
      ((case kv w (c_str key) of None \<Rightarrow> ([], RedisNotFound) | Some v \<Rightarrow> (v, RedisOk)), p', w')
    \<and> redis_idle p' \<noteq> [] \<and> rows w' = rows w \<and> kv w' = kv w"
proof -
  obtain c p1 where "redis_getConn p = (Some c, p1)" using redis_getConn_ready [OF assms(2)] by blast
  moreover obtain w1 where "rd_command (sv_redis S) c [''GET'', c_str key] w =
      (Some (case kv w (c_str key) of None \<Rightarrow> ReplyNil | Some v \<Rightarrow> ReplyString v), w1)"
      "rows w1 = rows w" "kv w1 = kv w"
    using healthyD(4) [OF assms(1)] by blast
  ultimately show ?thesis by (simp add: redis_get_def split: option.split)
qed

lemma healthy_setex:
  assumes "healthy S same rows kv" and "redis_idle p \<noteq> []"
  shows "\<exists>p' w'. redis_setex (sv_redis S) key ttl v p w = (True, p', w')
    \<and> redis_idle p' \<noteq> [] \<and> rows w' = rows w \<and> kv w' = (kv w)(c_str key \<mapsto> c_str v)"
proof -
  obtain c p1 where "redis_getConn p = (Some c, p1)" using redis_getConn_ready [OF assms(2)] by blast
  moreover obtain st w1 where "rd_command (sv_redis S) c [''SETEX'', c_str key, to_string ttl, c_str v] w =
      (Some (ReplyStatus st), w1)" "rows w1 = rows w" "kv w1 = (kv w)(c_str key \<mapsto> c_str v)"
    using healthyD(5) [OF assms(1)] by blast
  ultimately show ?thesis by (simp add: redis_setex_def)
qed

lemma healthy_del:
  assumes "healthy S same rows kv" and "redis_idle p \<noteq> []"
  shows "\<exists>p' w'. redis_del (sv_redis S) key p w =
      ((if kv w (c_str key) = None then RedisNotFound else RedisOk), p', w')
    \<and> redis_idle p' \<noteq> [] \<and> rows w' = rows w \<and> kv w' = (kv w)(c_str key := None)"
proof -
  obtain c p1 where "redis_getConn p = (Some c, p1)" using redis_getConn_ready [OF assms(2)] by blast
  moreover obtain w1 where "rd_command (sv_redis S) c [''DEL'', c_str key] w =
      (Some (ReplyInteger (if kv w (c_str key) = None then 0 else 1)), w1)"
      "rows w1 = rows w" "kv w1 = (kv w)(c_str key := None)"
    using healthyD(6) [OF assms(1)] by blast
  ultimately show ?thesis by (simp add: redis_del_def)
qed

lemma healthy_reply:
  assumes "healthy S same rows kv" and "write_accepts (sv_kernel S) sent" and "finite_eintr (sv_kernel S) fuel"
  shows "\<exists>w'. reply S fd ka st b w = Some (Answered st b, w') \<and> rows w' = rows w \<and> kv w' = kv w"
proof -
  obtain w' where r: "reply S fd ka st b w = Some (Answered st b, w')"
    using reply_returns [OF assms(2,3)] by blast
  then obtain d n where "send_loop (sv_kernel S) fd (buildHttpResponse st ''application/json'' b ka) 0 w = Some (d, n, w')"
    by (auto simp: reply_def sendJson_def sendHttpResponse_def split: option.splits)
  then have "rows w' = rows w \<and> kv w' = kv w"
    by (rule send_loop_keeps [where Q = "\<lambda>w w'. rows w' = rows w \<and> kv w' = kv w"])
      (use healthyD(7) [OF assms(1)] in auto)
  with r show ?thesis by blast
qed

lemma healthy_token:
  assumes "healthy S same rows kv"
  shows "\<exists>tok w'. draw_token S n pre w = (Some (pre @ tok), w') \<and> length tok = n \<and> set tok \<subseteq> set token_charset
    \<and> rows w' = rows w \<and> kv w' = kv w"
proof (induction n arbitrary: pre w)
  case 0
  then show ?case by simp
next
  case (Suc n)
  obtain i w1 where i: "sv_draw S w = (Some i, w1)" "i < length token_charset" "rows w1 = rows w" "kv w1 = kv w"
    using healthyD(8) [OF assms] by blast
  from Suc [of "pre @ [token_charset ! i]" w1] obtain tok w' where
    "draw_token S n (pre @ [token_charset ! i]) w1 = (Some ((pre @ [token_charset ! i]) @ tok), w')"
    "length tok = n" "set tok \<subseteq> set token_charset" "rows w' = rows w1" "kv w' = kv w1" by blast
  with i show ?case by (intro exI [of _ "(token_charset ! i) # tok"] exI [of _ w']) simp
qed

subsection \<open>The result of each task\<close>

lemma escaped_sql:
  assumes "mysql_contract M same rows" and "length u \<le> kMaxUsernameLen" and "length q \<le> kMaxPasswordLen"
  shows "escape_into 129 (my_escape M u) = Some (my_escape M u)"
    and "escape_into 257 (my_escape M q) = Some (my_escape M q)"
    and "c_str (select_user_sql (my_escape M u)) = select_user_sql (my_escape M u)"
    and "c_str (select_password_sql (my_escape M u)) = select_password_sql (my_escape M u)"
    and "c_str (insert_user_sql (my_escape M u) (my_escape M q)) = insert_user_sql (my_escape M u) (my_escape M q)"
proof -
  have "CHR 0x00 \<notin> set (my_escape M s)" for s using assms(1) by (simp add: mysql_contract_def)
  then show "c_str (select_user_sql (my_escape M u)) = select_user_sql (my_escape M u)"
    "c_str (select_password_sql (my_escape M u)) = select_password_sql (my_escape M u)"
    "c_str (insert_user_sql (my_escape M u) (my_escape M q)) = insert_user_sql (my_escape M u) (my_escape M q)"
    by simp_all
  show "escape_into 129 (my_escape M u) = Some (my_escape M u)"
    "escape_into 257 (my_escape M q) = Some (my_escape M q)"
    using assms by (simp_all add: escape_into_fits kMaxUsernameLen_def kMaxPasswordLen_def)
qed

text \<open>The assumptions of the round trips: healthy services whose writes return.\<close>

definition working ::
    "'w services \<Rightarrow> (bytes \<Rightarrow> bytes \<Rightarrow> bool) \<Rightarrow> ('w \<Rightarrow> int \<Rightarrow> bytes) \<Rightarrow> ('w \<Rightarrow> (bytes \<times> bytes) list)
     \<Rightarrow> ('w \<Rightarrow> bytes \<Rightarrow> bytes option) \<Rightarrow> ('w \<Rightarrow> nat) \<Rightarrow> bool" where
  "working S same sent rows kv fuel \<longleftrightarrow>
     db_services S same sent rows kv \<and> healthy S same rows kv \<and> finite_eintr (sv_kernel S) fuel"

lemma workingD:
  assumes "working S same sent rows kv fuel"
  shows "healthy S same rows kv" and "mysql_contract (sv_mysql S) same rows"
    and "\<exists>w'. reply S fd ka st b w = Some (Answered st b, w') \<and> rows w' = rows w \<and> kv w' = kv w"
  using assms healthy_reply by (auto simp: working_def db_services_def)

lemma working_register:
  assumes "working S same sent rows kv fuel" and "ready s"
    and "length u \<le> kMaxUsernameLen" and "length q \<le> kMaxPasswordLen"
    and "row_for same (rows (world s)) u = []"
  shows "\<exists>s'. runDbTask S (RegisterTask fd ka u q) s = Some (Answered 200 (json_message ''register success''), s')
    \<and> rows (world s') = rows (world s) @ [(u, q)] \<and> kv (world s') = kv (world s) \<and> ready s'"
proof -
  note H = workingD(1) [OF assms(1)] and E = escaped_sql [OF workingD(2) [OF assms(1)] assms(3,4)]
  obtain c p1 where g: "mysql_getConn (mysqlPool s) = (Some c, p1)" "mysql_idle (mysql_releaseConn (Some c) p1) \<noteq> []"
    using mysql_getConn_ready assms(2) unfolding ready_def by blast
  obtain w1 w2 where q1: "my_query (sv_mysql S) c (select_user_sql (my_escape (sv_mysql S) u)) (world s) = (False, w1)"
    "my_store_result (sv_mysql S) c w1 = (Some [], w2)" "rows w2 = rows (world s)" "kv w2 = kv (world s)"
    using healthyD(1) [OF H, of c u "world s"] assms(5) by auto
  obtain w3 where q2: "my_query (sv_mysql S) c (insert_user_sql (my_escape (sv_mysql S) u) (my_escape (sv_mysql S) q)) w2 = (False, w3)"
    "rows w3 = rows (world s) @ [(u, q)]" "kv w3 = kv (world s)"
    using healthyD(3) [OF H, of w2 u c q] assms(5) q1(3,4) by auto
  obtain w4 where rp: "reply S fd ka 200 (json_message ''register success'') w3 =
      Some (Answered 200 (json_message ''register success''), w4)" "rows w4 = rows w3" "kv w4 = kv w3"
    using workingD(3) [OF assms(1)] by blast
  have "registerBody S fd ka u q (Some c) (world s) = Some (Answered 200 (json_message ''register success''), w4)"
    using q1(1,2) q2(1) rp(1) by (simp add: registerBody_def E)
  with g rp q2 assms(2) show ?thesis
    by (simp add: runDbTask_def registerWork_def mysql_guard_def ready_def)
qed

lemma working_profile:
  assumes "working S same sent rows kv fuel" and "ready s"
  shows "\<exists>s'. runDbTask S (ProfileTask fd ka tok) s = Some
      ((case kv (world s) (session_key (c_str tok)) of
          None \<Rightarrow> Answered 401 (json_error ''invalid or expired token'')
        | Some v \<Rightarrow> if v = [] then Answered 401 (json_error ''invalid or expired token'')
                   else Answered 200 (json_username v)), s')
    \<and> rows (world s') = rows (world s) \<and> kv (world s') = kv (world s) \<and> ready s'"
proof -
  obtain p' w1 where g: "redis_get (sv_redis S) (session_key tok) (redisPool s) (world s) =
      ((case kv (world s) (c_str (session_key tok)) of None \<Rightarrow> ([], RedisNotFound) | Some v \<Rightarrow> (v, RedisOk)), p', w1)"
    "redis_idle p' \<noteq> []" "rows w1 = rows (world s)" "kv w1 = kv (world s)"
    using healthy_get [OF workingD(1) [OF assms(1)]] assms(2) unfolding ready_def by blast
  have R: "\<exists>w'. reply S fd ka st b w1 = Some (Answered st b, w') \<and> rows w' = rows w1 \<and> kv w' = kv w1" for st b
    using workingD(3) [OF assms(1)] .
  show ?thesis
  proof (cases "kv (world s) (session_key (c_str tok))")
    case None
    with g R [of 401 "json_error ''invalid or expired token''"] assms(2) show ?thesis
      by (auto simp: runDbTask_def profileWork_def ready_def)
  next
    case (Some v)
    with g R [of 401 "json_error ''invalid or expired token''"] R [of 200 "json_username v"] assms(2)
    show ?thesis by (auto simp: runDbTask_def profileWork_def ready_def)
  qed
qed

lemma working_logout:
  assumes "working S same sent rows kv fuel" and "ready s"
    and "kv (world s) (session_key (c_str tok)) \<noteq> None"
  shows "\<exists>s'. runDbTask S (LogoutTask fd ka tok) s = Some (Answered 200 (json_message ''logout success''), s')
    \<and> rows (world s') = rows (world s) \<and> kv (world s') = (kv (world s))(session_key (c_str tok) := None) \<and> ready s'"
proof -
  obtain p' w1 where g: "redis_del (sv_redis S) (session_key tok) (redisPool s) (world s) = (RedisOk, p', w1)"
    "redis_idle p' \<noteq> []" "rows w1 = rows (world s)" "kv w1 = (kv (world s))(session_key (c_str tok) := None)"
    using healthy_del [OF workingD(1) [OF assms(1)], of "redisPool s" "session_key tok" "world s"] assms(2,3)
    by (auto simp: ready_def)
  obtain w2 where "reply S fd ka 200 (json_message ''logout success'') w1 =
      Some (Answered 200 (json_message ''logout success''), w2)" "rows w2 = rows w1" "kv w2 = kv w1"
    using workingD(3) [OF assms(1)] by blast
  with g assms(2) show ?thesis by (auto simp: runDbTask_def logoutWork_def ready_def)
qed

lemma token_c_str: "set tok \<subseteq> set token_charset \<Longrightarrow> c_str tok = tok"
  by (rule c_str_id) (auto simp: token_charset_def)

lemma working_finish:
  assumes "working S same sent rows kv fuel" and "redis_idle rp \<noteq> []"
  shows "\<exists>tok rp' w'. loginFinish S fd ka u q (Some q) (rp, w) = Some (Answered 200 (json_token tok), rp', w')
    \<and> length tok = kTokenLen \<and> set tok \<subseteq> set token_charset \<and> redis_idle rp' \<noteq> []
    \<and> rows w' = rows w \<and> kv w' = (kv w)(session_key tok \<mapsto> c_str u)"
proof -
  note H = workingD(1) [OF assms(1)]
  obtain tok w1 where d: "generateToken S w = (Some tok, w1)" "length tok = kTokenLen" "set tok \<subseteq> set token_charset"
    "rows w1 = rows w" "kv w1 = kv w"
    using healthy_token [OF H, of kTokenLen "[]" w] by (auto simp: generateToken_def)
  obtain rp' w2 where x: "redis_setex (sv_redis S) (session_key tok) kSessionTtlSec u rp w1 = (True, rp', w2)"
    "redis_idle rp' \<noteq> []" "rows w2 = rows w1" "kv w2 = (kv w1)(session_key tok \<mapsto> c_str u)"
    using healthy_setex [OF H assms(2), of "session_key tok" kSessionTtlSec u w1] by (auto simp: token_c_str [OF d(3)])
  obtain w3 where "reply S fd ka 200 (json_token tok) w2 = Some (Answered 200 (json_token tok), w3)"
    "rows w3 = rows w2" "kv w3 = kv w2"
    using workingD(3) [OF assms(1)] by blast
  with d x show ?thesis by (intro exI [of _ tok]) (simp add: loginFinish_def)
qed

lemma working_mysql:
  assumes "working S same sent rows kv fuel" and "redis_idle rp \<noteq> []" and "length u \<le> kMaxUsernameLen"
    and "row_for same (rows w) u = row # rest"
  shows "\<exists>rp' w'. loginMysql S fd ka u (Some c) (rp, w) = Some (Inr (Some (c_str (snd row))), rp', w')
    \<and> redis_idle rp' \<noteq> [] \<and> rows w' = rows w \<and> kv w' = (kv w)(user_key (c_str u) \<mapsto> c_str (snd row))"
proof -
  note H = workingD(1) [OF assms(1)]
  note E = escaped_sql [OF workingD(2) [OF assms(1)] assms(3), of "[]"]
  obtain w1 w2 where q1: "my_query (sv_mysql S) c (select_password_sql (my_escape (sv_mysql S) u)) w = (False, w1)"
    "my_store_result (sv_mysql S) c w1 = (Some [snd row], w2)" "rows w2 = rows w" "kv w2 = kv w"
    using healthyD(2) [OF H, of c u w] assms(4) by auto
  obtain rp' w3 where "redis_setex (sv_redis S) (user_key u) kUserCacheTtlSec (c_str (snd row)) rp w2 = (True, rp', w3)"
    "redis_idle rp' \<noteq> []" "rows w3 = rows w2" "kv w3 = (kv w2)(user_key (c_str u) \<mapsto> c_str (snd row))"
    using healthy_setex [OF H assms(2), of "user_key u" kUserCacheTtlSec "c_str (snd row)" w2] by auto
  with q1 show ?thesis by (simp add: loginMysql_def E)
qed

lemma working_login:
  assumes "working S same sent rows kv fuel" and "ready s" and "length u \<le> kMaxUsernameLen"
    and "kv (world s) (user_key (c_str u)) = Some q \<and> q \<noteq> []
      \<or> kv (world s) (user_key (c_str u)) = None
        \<and> (\<exists>row rest. row_for same (rows (world s)) u = row # rest \<and> c_str (snd row) = q)"
  shows "\<exists>tok s'. runDbTask S (LoginTask fd ka u q) s = Some (Answered 200 (json_token tok), s')
    \<and> length tok = kTokenLen \<and> set tok \<subseteq> set token_charset \<and> rows (world s') = rows (world s)
    \<and> kv (world s') = (kv (world s))(user_key (c_str u) \<mapsto> q, session_key tok \<mapsto> c_str u) \<and> ready s'"
proof -
  obtain rp1 w1 where g: "redis_get (sv_redis S) (user_key u) (redisPool s) (world s) =
      ((case kv (world s) (c_str (user_key u)) of None \<Rightarrow> ([], RedisNotFound) | Some v \<Rightarrow> (v, RedisOk)), rp1, w1)"
    "redis_idle rp1 \<noteq> []" "rows w1 = rows (world s)" "kv w1 = kv (world s)"
    using healthy_get [OF workingD(1) [OF assms(1)]] assms(2) unfolding ready_def by blast
  note fin = working_finish [OF assms(1), where fd = fd and ka = ka and u = u and q = q]
  from assms(4) show ?thesis
  proof (elim disjE conjE exE)
    assume hit: "kv (world s) (user_key (c_str u)) = Some q" "q \<noteq> []"
    then have same_kv: "(kv w1)(user_key (c_str u) \<mapsto> q) = kv w1" using g(4) by auto
    from fin [OF g(2), of w1] hit g same_kv assms(2) show ?thesis
      by (fastforce simp: runDbTask_def loginWork_def ready_def)
  next
    fix row rest assume miss: "kv (world s) (user_key (c_str u)) = None"
      "row_for same (rows (world s)) u = row # rest" "c_str (snd row) = q"
    obtain c p1 where m: "mysql_getConn (mysqlPool s) = (Some c, p1)" "mysql_idle (mysql_releaseConn (Some c) p1) \<noteq> []"
      using mysql_getConn_ready assms(2) unfolding ready_def by blast
    obtain rp2 w2 where l: "loginMysql S fd ka u (Some c) (rp1, w1) = Some (Inr (Some q), rp2, w2)"
      "redis_idle rp2 \<noteq> []" "rows w2 = rows w1" "kv w2 = (kv w1)(user_key (c_str u) \<mapsto> q)"
      using working_mysql [OF assms(1) g(2) assms(3), of w1 row rest fd ka c] miss g(3) by auto
    from fin [OF l(2), of w2] m l g miss(1) show ?thesis
      by (fastforce simp: runDbTask_def loginWork_def mysql_guard_def ready_def)
  qed
qed

end
