(* ===== verification/DbProperties.thy ===== *)
theory DbProperties
  imports DbWorking
begin

section \<open>Properties of the database requests\<close>

text \<open>
  The contract of the four handlers, concrete services to run them with, and the properties
  of registration, authentication and sessions.
\<close>

subsection \<open>Handlers\<close>

text \<open>
  What \<open>processRequests\<close> relies on of a DB handler: it refuses a bad request with one
  answer, or submits one task for the same socket, and the task's strings fit the escape
  buffers.
\<close>

locale db_handler =
  fixes handle :: "'w kernel \<Rightarrow> bytes \<Rightarrow> int \<Rightarrow> bool \<Rightarrow> db_task thread_pool \<Rightarrow> 'w \<Rightarrow> 'w handled"
    and refuse :: "bytes \<Rightarrow> (nat \<times> bytes) option"
    and task :: "int \<Rightarrow> bool \<Rightarrow> bytes \<Rightarrow> db_task"
  assumes handle_refuse: "refuse request = Some (st, body) \<Longrightarrow>
      handle K request fd ka pool w =
        map_option (\<lambda>w'. (Inr pool, w')) (sendJson K fd st body ka w)"
    and handle_submit: "refuse request = None \<Longrightarrow>
      handle K request fd ka pool w = Some (pool_add (task fd ka request) pool, w)"
    and task_socket: "task_fd (task fd ka request) = fd" "task_ka (task fd ka request) = ka"
    and task_checked: "refuse request = None \<Longrightarrow> task_fits (task fd ka request)"
begin

lemma answers_or_submits:
  assumes "write_accepts K sent" and "handle K request fd ka pool w = Some (res, w')"
  shows "(\<exists>st body n. res = Inr pool
      \<and> sent w' = (sent w)(fd := sent w fd @ take n (buildHttpResponse st ''application/json'' body ka)))
    \<or> w' = w \<and> (\<exists>t. res = pool_add t pool \<and> task_fd t = fd \<and> task_ka t = ka \<and> task_fits t)"
proof (cases "refuse request")
  case None
  from handle_submit [OF None] assms(2) have "res = pool_add (task fd ka request) pool" "w' = w" by simp_all
  with task_socket task_checked [OF None] show ?thesis by blast
next
  case (Some rf)
  obtain st body where rf: "rf = (st, body)" by (cases rf)
  with Some handle_refuse assms(2) have r: "res = Inr pool"
    "sendHttpResponse K fd st ''application/json'' body ka w = Some w'"
    by (auto simp: sendJson_def)
  from sendHttpResponse_delivers [OF assms(1) r(2)] have
    "\<exists>n. sent w' = (sent w)(fd := sent w fd @ take n (buildHttpResponse st ''application/json'' body ka))"
    by (auto simp: fun_eq_iff)
  with r(1) show ?thesis by blast
qed

lemma handler_returns:
  assumes "write_accepts K sent" and "finite_eintr K fuel"
  shows "\<exists>res w'. handle K request fd ka pool w = Some (res, w')"
proof (cases "refuse request")
  case (Some rf)
  obtain st body where rf: "rf = (st, body)" by (cases rf)
  from sendHttpResponse_returns [OF assms(2,1)] obtain w' where "sendJson K fd st body ka w = Some w'"
    unfolding sendJson_def by blast
  with handle_refuse Some rf show ?thesis by auto
qed (use handle_submit in auto)

lemma handler_sends:
  assumes "handle K request fd ka pool w = Some (res, w')"
  shows "w' = w \<or> (\<exists>st body. sendJson K fd st body ka w = Some w')"
proof (cases "refuse request")
  case (Some rf)
  with assms handle_refuse [of request "fst rf" "snd rf" K fd ka pool w]
  have "map_option (\<lambda>w'. (Inr pool, w')) (sendJson K fd (fst rf) (snd rf) ka w) = Some (res, w')" by simp
  then show ?thesis by auto
qed (use assms handle_submit in simp)

end

definition refuse_credentials :: "bytes \<Rightarrow> (nat \<times> bytes) option" where
  "refuse_credentials request =
     (let username = getJsonValue (parseBody request) ''username'';
          password = getJsonValue (parseBody request) ''password''
      in if username = [] \<or> password = [] then Some (400, json_error ''missing username or password'')
         else if length username > kMaxUsernameLen \<or> length password > kMaxPasswordLen
         then Some (400, json_error ''username or password too long'')
         else None)"

definition refuse_token :: "bytes \<Rightarrow> (nat \<times> bytes) option" where
  "refuse_token request =
     (if parseBearerToken request = [] then Some (401, json_error ''missing token'') else None)"

lemma checkCredentials_refuse:
  "checkCredentials K fd ka (getJsonValue (parseBody request) ''username'')
     (getJsonValue (parseBody request) ''password'') w =
   (case refuse_credentials request of
      None \<Rightarrow> Some (True, w)
    | Some (st, body) \<Rightarrow> map_option (\<lambda>w'. (False, w')) (sendJson K fd st body ka w))"
  by (simp add: checkCredentials_def refuse_credentials_def Let_def)

lemma credentials_fit:
  "refuse_credentials request = None \<Longrightarrow>
   length (getJsonValue (parseBody request) ''username'') \<le> kMaxUsernameLen
   \<and> length (getJsonValue (parseBody request) ''password'') \<le> kMaxPasswordLen"
  by (simp add: refuse_credentials_def Let_def split: if_splits)

interpretation registerh: db_handler handleRegister refuse_credentials
    "\<lambda>fd ka request. RegisterTask fd ka (getJsonValue (parseBody request) ''username'')
       (getJsonValue (parseBody request) ''password'')"
  by unfold_locales
    (auto simp: handleRegister_def checkCredentials_refuse option.map_comp comp_def Let_def
      split: option.split dest: credentials_fit)

interpretation loginh: db_handler handleLogin refuse_credentials
    "\<lambda>fd ka request. LoginTask fd ka (getJsonValue (parseBody request) ''username'')
       (getJsonValue (parseBody request) ''password'')"
  by unfold_locales
    (auto simp: handleLogin_def checkCredentials_refuse option.map_comp comp_def Let_def
      split: option.split dest: credentials_fit)

interpretation profileh: db_handler handleProfile refuse_token
    "\<lambda>fd ka request. ProfileTask fd ka (parseBearerToken request)"
  by unfold_locales (auto simp: handleProfile_def refuse_token_def split: if_splits)

interpretation logouth: db_handler handleLogout refuse_token
    "\<lambda>fd ka request. LogoutTask fd ka (parseBearerToken request)"
  by unfold_locales (auto simp: handleLogout_def refuse_token_def split: if_splits)

subsection \<open>Services for concrete runs\<close>

text \<open>
  Services that satisfy the contracts: a socket layer that accepts everything, a users table
  with an interpreter for the three statements, a key-value store and a token generator that
  draws the letter a. The escape function doubles quotes' backslashes the way MySQL does.
\<close>

definition sql_esc :: "bytes \<Rightarrow> bytes" where
  "sql_esc s = concat (map (\<lambda>c. if c = CHR 0x00 then [CHR 0x5C, CHR ''0'']
      else if c = CHR 0x27 \<or> c = CHR 0x5C then [CHR 0x5C, c] else [c]) s)"

fun sql_read :: "bytes \<Rightarrow> (bytes \<times> bytes) option" where
  "sql_read [] = None"
| "sql_read (c # cs) =
     (if c = CHR 0x27 then Some ([], cs)
      else if c = CHR 0x5C then
        (case cs of
           [] \<Rightarrow> None
         | d # ds \<Rightarrow> map_option (\<lambda>(s, rest). ((if d = CHR ''0'' then CHR 0x00 else d) # s, rest)) (sql_read ds))
      else map_option (\<lambda>(s, rest). (c # s, rest)) (sql_read cs))"

lemma sql_read_esc [simp]: "sql_read (sql_esc s @ CHR 0x27 # rest) = Some (s, rest)"
  by (induction s) (auto simp: sql_esc_def)

lemma sql_esc_props: "length (sql_esc s) \<le> 2 * length s" "CHR 0x00 \<notin> set (sql_esc s)"
  by (induction s) (auto simp: sql_esc_def)

definition strip_prefix :: "bytes \<Rightarrow> bytes \<Rightarrow> bytes option" where
  "strip_prefix p s = (if take (length p) s = p then Some (drop (length p) s) else None)"

lemma strip_prefix_append [simp]: "strip_prefix p (p @ s) = Some s"
  by (simp add: strip_prefix_def)

datatype statement = SelectUser bytes | SelectPassword bytes | InsertUser bytes bytes | Unknown

definition sel1 :: bytes where "sel1 = ''SELECT 1 FROM users WHERE username='' @ sq"
definition selp :: bytes where "selp = ''SELECT password FROM users WHERE username='' @ sq"
definition inss :: bytes where "inss = ''INSERT INTO users(username, password) VALUES('' @ sq"

definition sql_parse :: "bytes \<Rightarrow> statement" where
  "sql_parse q =
     (case strip_prefix sel1 q of
        Some s \<Rightarrow> (case sql_read s of Some (u, _) \<Rightarrow> SelectUser u | None \<Rightarrow> Unknown)
      | None \<Rightarrow>
          (case strip_prefix selp q of
             Some s \<Rightarrow> (case sql_read s of Some (u, _) \<Rightarrow> SelectPassword u | None \<Rightarrow> Unknown)
           | None \<Rightarrow>
               (case strip_prefix inss q of
                  None \<Rightarrow> Unknown
                | Some s \<Rightarrow>
                    (case sql_read s of
                       None \<Rightarrow> Unknown
                     | Some (u, rest) \<Rightarrow>
                         (case sql_read (drop 2 rest) of None \<Rightarrow> Unknown | Some (p, _) \<Rightarrow> InsertUser u p)))))"

lemma sql_parse_select_user: "sql_parse (select_user_sql (sql_esc u)) = SelectUser u"
proof -
  have "select_user_sql (sql_esc u) = sel1 @ sql_esc u @ CHR 0x27 # '' LIMIT 1''"
    by (simp add: select_user_sql_def sel1_def)
  then show ?thesis by (simp add: sql_parse_def)
qed

lemma sql_parse_select_password: "sql_parse (select_password_sql (sql_esc u)) = SelectPassword u"
proof -
  have "select_password_sql (sql_esc u) = selp @ sql_esc u @ CHR 0x27 # '' LIMIT 1''"
    by (simp add: select_password_sql_def selp_def)
  moreover have "strip_prefix sel1 (selp @ s) = None" for s by (simp add: strip_prefix_def sel1_def selp_def)
  ultimately show ?thesis by (simp add: sql_parse_def)
qed

lemma sql_parse_insert: "sql_parse (insert_user_sql (sql_esc u) (sql_esc p)) = InsertUser u p"
proof -
  have "insert_user_sql (sql_esc u) (sql_esc p) =
      inss @ sql_esc u @ CHR 0x27 # '','' @ sq @ sql_esc p @ CHR 0x27 # '')''"
    by (simp add: insert_user_sql_def inss_def)
  moreover have "strip_prefix sel1 (inss @ s) = None" "strip_prefix selp (inss @ s) = None" for s
    by (simp_all add: strip_prefix_def sel1_def selp_def inss_def)
  ultimately show ?thesis by (simp add: sql_parse_def)
qed

record toy =
  toy_sent :: "int \<Rightarrow> bytes"
  toy_rows :: "(bytes \<times> bytes) list"
  toy_kv :: "bytes \<Rightarrow> bytes option"
  toy_result :: "nat \<Rightarrow> bytes list"

definition toy_kernel :: "toy kernel" where
  "toy_kernel =
     \<lparr>k_write = (\<lambda>fd d w. (Ret (length d), w\<lparr>toy_sent := (toy_sent w)(fd := toy_sent w fd @ d)\<rparr>)),
      k_read = (\<lambda>fd n w. (Err EAGAIN, w)),
      k_sendfile = (\<lambda>fd f off cnt w. (Err EAGAIN, w)),
      k_epoll_ctl = (\<lambda>ep op fd ev w. (Ret (), w)),
      k_time = (\<lambda>w. (0, w)),
      k_open = (\<lambda>p w. (-1, w)),
      k_fstat = (\<lambda>fd w. (None, w)),
      k_close = (\<lambda>fd w. w)\<rparr>"

definition toy_mysql :: "toy mysql" where
  "toy_mysql =
     \<lparr>my_init = (\<lambda>w. (None, w)),
      my_real_connect = (\<lambda>c prm w. (False, w)),
      my_close = (\<lambda>c w. w),
      my_set_charset = (\<lambda>c s w. w),
      my_escape = sql_esc,
      my_query = (\<lambda>c q w.
        case sql_parse q of
          SelectUser u \<Rightarrow> (False, w\<lparr>toy_result := (toy_result w)(c := map (\<lambda>_. ''1'') (take 1 (row_for (=) (toy_rows w) u)))\<rparr>)
        | SelectPassword u \<Rightarrow> (False, w\<lparr>toy_result := (toy_result w)(c := map snd (take 1 (row_for (=) (toy_rows w) u)))\<rparr>)
        | InsertUser u p \<Rightarrow>
            if row_for (=) (toy_rows w) u = [] then (False, w\<lparr>toy_rows := toy_rows w @ [(u, p)]\<rparr>) else (True, w)
        | Unknown \<Rightarrow> (True, w)),
      my_store_result = (\<lambda>c w. (Some (toy_result w c), w))\<rparr>"

fun toy_command :: "bytes list \<Rightarrow> toy \<Rightarrow> redis_reply option \<times> toy" where
  "toy_command [cmd, k] w =
     (if cmd = ''GET'' then
        (Some (case toy_kv w k of None \<Rightarrow> ReplyNil | Some v \<Rightarrow> ReplyString v), w)
      else if cmd = ''DEL'' then
        (Some (ReplyInteger (if toy_kv w k = None then 0 else 1)), w\<lparr>toy_kv := (toy_kv w)(k := None)\<rparr>)
      else (Some (ReplyError []), w))"
| "toy_command [cmd, k, ttl, v] w = (Some (ReplyStatus ''OK''), w\<lparr>toy_kv := (toy_kv w)(k \<mapsto> v)\<rparr>)"
| "toy_command _ w = (Some (ReplyError []), w)"

definition toy_redis :: "toy redis" where
  "toy_redis =
     \<lparr>rd_connect = (\<lambda>h port w. (None, w)), rd_free = (\<lambda>c w. w), rd_command = (\<lambda>c. toy_command)\<rparr>"

definition toy_services :: "toy services" where
  "toy_services =
     \<lparr>sv_kernel = toy_kernel, sv_mysql = toy_mysql, sv_redis = toy_redis, sv_draw = (\<lambda>w. (Some 0, w))\<rparr>"

lemma toy_write: "write_accepts toy_kernel toy_sent"
  by (simp add: write_accepts_def toy_kernel_def)

lemma toy_finite: "finite_eintr toy_kernel (\<lambda>w. 0)"
  by (simp add: finite_eintr_def toy_kernel_def)

lemma toy_mysql_contract: "mysql_contract toy_mysql (=) toy_rows"
  using sql_esc_props
  by (auto simp: mysql_contract_def toy_mysql_def sql_parse_select_user sql_parse_select_password
      sql_parse_insert split: if_splits)

lemma toy_redis_contract: "redis_contract toy_redis toy_kv"
  by (auto simp: redis_contract_def toy_redis_def map_le_def split: option.splits)

lemma toy_command_frame:
  "toy_command cmd w = (r, w') \<Longrightarrow> toy_sent w' = toy_sent w \<and> toy_rows w' = toy_rows w"
  by (cases "(cmd, w)" rule: toy_command.cases) (auto split: if_splits)

lemma toy_independent: "independent toy_services toy_sent toy_rows toy_kv"
  by (auto simp: independent_def toy_services_def toy_kernel_def toy_mysql_def toy_redis_def
      dest: toy_command_frame split: statement.splits if_splits)

lemma toy_db_services: "db_services toy_services (=) toy_sent toy_rows toy_kv"
  using toy_write toy_mysql_contract toy_redis_contract toy_independent
  by (simp add: db_services_def toy_services_def)

lemma toy_healthy: "healthy toy_services (=) toy_rows toy_kv"
  by (simp add: healthy_def toy_services_def toy_kernel_def toy_mysql_def toy_redis_def token_charset_def
      sql_parse_select_user sql_parse_select_password sql_parse_insert)

lemma toy_working: "working toy_services (=) toy_sent toy_rows toy_kv (\<lambda>w. 0)"
  using toy_db_services toy_healthy toy_finite by (simp add: working_def toy_services_def)

lemma runDbTask_fits:
  assumes "mysql_contract (sv_mysql S) same rows" and "task_fits t" and "runDbTask S t s = Some (r, s')"
  shows "r \<noteq> Overrun"
  using assms(3)
  by (auto simp: runDbTask_def reply_def split: option.splits db_result.splits dest: db_work_fits [OF assms(1,2)])

subsection \<open>Properties\<close>

text \<open>
  C29: every database task ends, and answers exactly once. Whatever the databases do, and
  also when the token generator throws, a task whose strings fit the escape buffers (the
  handlers submit no other) returns, if the socket calls are not interrupted for ever: it has
  sent one JSON response on its own socket and nothing on any other, the whole of it unless
  the kernel refused the missing bytes (a full socket or a hard error); and it leaves the
  MySQL pool with the connections it found.
\<close>

theorem db_task_answers_once:
  assumes "db_services S same sent rows kv" and "finite_eintr (sv_kernel S) fuel" and "task_fits t"
  shows "\<exists>st body s' n. runDbTask S t s = Some (Answered st body, s')
    \<and> sent (world s') = (sent (world s))(task_fd t :=
        sent (world s) (task_fd t) @ take n (buildHttpResponse st ''application/json'' body (task_ka t)))
    \<and> (n = length (buildHttpResponse st ''application/json'' body (task_ka t))
        \<or> cut_short (sv_kernel S) (task_fd t)
            (drop n (buildHttpResponse st ''application/json'' body (task_ka t))) (world s'))
    \<and> mysql_idle (mysqlPool s') \<in> {mysql_idle (mysqlPool s), rotate1 (mysql_idle (mysqlPool s))}"
proof -
  obtain r s' where run: "runDbTask S t s = Some (r, s')"
    using runDbTask_returns [OF db_servicesD(1) [OF assms(1)] assms(2)] by blast
  note spec = runDbTask_spec [OF assms(1) run]
  have "r \<noteq> Overrun" using runDbTask_fits [OF db_servicesD(2) [OF assms(1)] assms(3) run] .
  with spec run runDbTask_mysql_idle [OF run] show ?thesis
    by (cases r) (auto simp: sends_def)
qed

definition toy_start :: "toy db_state" where
  "toy_start =
     \<lparr>mysqlPool = \<lparr>mysql_idle = [1, 2]\<rparr>,
      redisPool = \<lparr>redis_idle = [7], redis_host = ''::1'', redis_port = 6379\<rparr>,
      world = \<lparr>toy_sent = (\<lambda>_. []), toy_rows = [(''admin'', ''secret'')], toy_kv = Map.empty, toy_result = (\<lambda>_. [])\<rparr>\<rparr>"

theorem db_task_answers_once_witness:
  "\<exists>st body s'. runDbTask toy_services (LoginTask 5 True ''admin'' ''secret'') toy_start = Some (Answered st body, s')
     \<and> toy_sent (world s') 5 = buildHttpResponse st ''application/json'' body True
     \<and> toy_sent (world s') 6 = [] \<and> mysql_idle (mysqlPool s') \<in> {[1, 2], [2, 1]}"
proof -
  have f: "finite_eintr (sv_kernel toy_services) (\<lambda>w. 0)" using toy_finite by (simp add: toy_services_def)
  have "task_fits (LoginTask 5 True ''admin'' ''secret'')"
    by (simp add: kMaxUsernameLen_def kMaxPasswordLen_def)
  from db_task_answers_once [OF toy_db_services f this, of toy_start] obtain st body s' n where
    "runDbTask toy_services (LoginTask 5 True ''admin'' ''secret'') toy_start = Some (Answered st body, s')"
    "toy_sent (world s') = (toy_sent (world toy_start))(5 := toy_sent (world toy_start) 5 @
        take n (buildHttpResponse st ''application/json'' body True))"
    "n = length (buildHttpResponse st ''application/json'' body True)
      \<or> cut_short (sv_kernel toy_services) 5 (drop n (buildHttpResponse st ''application/json'' body True)) (world s')"
    "mysql_idle (mysqlPool s') \<in> {mysql_idle (mysqlPool toy_start), rotate1 (mysql_idle (mysqlPool toy_start))}"
    by auto
  moreover have "\<not> cut_short (sv_kernel toy_services) fd rest w" for fd rest w
    by (auto simp: cut_short_def full_socket_def hard_failure_def toy_services_def toy_kernel_def)
  ultimately show ?thesis by (auto simp: toy_start_def)
qed

lemma toy_ready: "ready toy_start" by (simp add: ready_def toy_start_def)

lemma toy_fits_names:
  "length ''admin'' \<le> kMaxUsernameLen" "length ''secret'' \<le> kMaxPasswordLen"
  by (simp_all add: kMaxUsernameLen_def kMaxPasswordLen_def)

lemma toy_login_runs:
  "\<exists>tok s'. runDbTask toy_services (LoginTask 5 True ''admin'' ''secret'') toy_start =
       Some (Answered 200 (json_token tok), s')
     \<and> toy_kv (world s') (session_key tok) = Some ''admin''"
proof -
  have row: "row_for (=) (toy_rows (world toy_start)) ''admin'' = (''admin'', ''secret'') # []"
    "toy_kv (world toy_start) (user_key (c_str ''admin'')) = None" "c_str (snd (''admin'', ''secret'')) = ''secret''"
    "c_str ''admin'' = ''admin''"
    by (simp_all add: row_for_def toy_start_def c_str_id)
  have "\<exists>row rest. row_for (=) (toy_rows (world toy_start)) ''admin'' = row # rest \<and> c_str (snd row) = ''secret''"
    using row(1,3) by blast
  with working_login [OF toy_working toy_ready toy_fits_names(1), of "''secret''" 5 True] row(2)
  obtain tok s' where "runDbTask toy_services (LoginTask 5 True ''admin'' ''secret'') toy_start = Some (Answered 200 (json_token tok), s')"
    "toy_kv (world s') = (toy_kv (world toy_start))(user_key (c_str ''admin'') \<mapsto> ''secret'', session_key tok \<mapsto> c_str ''admin'')"
    by auto
  then show ?thesis using row(4) by (intro exI [of _ tok] exI [of _ s']) simp
qed

lemma toy_coherent: "cache_coherent (=) (toy_rows (world toy_start)) (toy_kv (world toy_start))"
  by (simp add: cache_coherent_def toy_start_def)

lemma toy_reach:
  "reach (\<lambda>s. cache_coherent (=) (toy_rows (world s)) (toy_kv (world s))) (db_step toy_services toy_rows toy_kv) toy_start"
  by (rule reach_init) (rule toy_coherent)

text \<open>
  C10: authentication is sound. After any history of tasks with NUL-free usernames, starting
  from a cache that agrees with the users table, a login is only answered 200 when the
  password presented is the one in the user's row, also when it was checked against the
  cache.
\<close>

theorem login_sound:
  assumes "db_services S same sent rows kv"
    and "reach (\<lambda>s. cache_coherent same (rows (world s)) (kv (world s))) (db_step S rows kv) s"
    and "CHR 0x00 \<notin> set u"
    and "runDbTask S (LoginTask fd ka u q) s = Some (Answered 200 body, s')"
  shows "\<exists>row \<in> set (rows (world s)). same (fst row) u \<and> q = c_str (snd row)"
proof -
  have "cache_coherent same (rows (world s)) (kv (world s))"
    using dbsys.reach_inv [OF assms(2)] assms(1) by blast
  moreover have "authentic same (rows (world s)) (kv (world s)) u q"
    using runDbTask_spec [OF assms(1,4)] by simp
  ultimately show ?thesis
    using cache_coherent_authentic assms(3) unfolding knows_password_def by blast
qed

theorem login_sound_witness:
  "\<exists>row \<in> set (toy_rows (world toy_start)). fst row = ''admin'' \<and> ''secret'' = c_str (snd row)"
proof -
  obtain tok s' where run: "runDbTask toy_services (LoginTask 5 True ''admin'' ''secret'') toy_start =
      Some (Answered 200 (json_token tok), s')" using toy_login_runs by blast
  have "CHR 0x00 \<notin> set ''admin''" by simp
  from login_sound [OF toy_db_services toy_reach this run] show ?thesis .
qed

text \<open>
  C13: no session without the password. After any history of tasks with NUL-free usernames,
  starting from a cache that agrees with the users table, a session that a task with a
  NUL-free username creates or changes is created by a login, it names the user who logged
  in, and that login presented the password of the user's row. (Without the condition this is
  false, see \<open>nul_username_takes_over_account\<close>.)
\<close>

theorem session_needs_password:
  assumes "db_services S same sent rows kv"
    and "reach (\<lambda>s. cache_coherent same (rows (world s)) (kv (world s))) (db_step S rows kv) s"
    and "nul_free_user t" and "runDbTask S t s = Some (r, s')"
    and "kv (world s') (session_key tok) = Some v" and "kv (world s) (session_key tok) \<noteq> Some v"
  shows "\<exists>fd ka q. t = LoginTask fd ka v q
    \<and> (\<exists>row \<in> set (rows (world s)). same (fst row) v \<and> q = c_str (snd row))"
proof -
  have coh: "cache_coherent same (rows (world s)) (kv (world s))"
    using dbsys.reach_inv [OF assms(2)] assms(1) by blast
  have le: "\<not> kv (world s') \<subseteq>\<^sub>m kv (world s)" using assms(5,6) by (auto simp: map_le_def dom_def)
  note eff = runDbTask_spec [OF assms(1,4), THEN conjunct2, THEN conjunct1]
  then obtain fd ka u q where t: "t = LoginTask fd ka u q" using le by (cases t) auto
  with eff assms(5,6) have "authentic same (rows (world s)) (kv (world s)) u q" "v = c_str u"
    by (auto simp: login_effect_def) (metis keys_distinct(4))+
  moreover have "c_str u = u" using assms(3) t by (simp add: c_str_id)
  ultimately show ?thesis
    using t assms(3) cache_coherent_authentic [OF coh] unfolding knows_password_def by auto
qed

theorem session_needs_password_witness:
  "\<exists>tok s'. runDbTask toy_services (LoginTask 5 True ''admin'' ''secret'') toy_start = Some (Answered 200 (json_token tok), s')
     \<and> (\<exists>row \<in> set (toy_rows (world toy_start)). fst row = ''admin'')"
proof -
  obtain tok s' where run: "runDbTask toy_services (LoginTask 5 True ''admin'' ''secret'') toy_start =
      Some (Answered 200 (json_token tok), s')" "toy_kv (world s') (session_key tok) = Some ''admin''"
    using toy_login_runs by blast
  have n: "nul_free_user (LoginTask 5 True ''admin'' ''secret'')" by simp
  have k: "toy_kv (world toy_start) (session_key tok) \<noteq> Some ''admin''" by (simp add: toy_start_def)
  from session_needs_password [OF toy_db_services toy_reach n run(1,2) k] run(1) show ?thesis by auto
qed

lemma lifecycle_runs:
  assumes "working S same sent rows kv fuel" and "ready s" and "same u u"
    and "u \<noteq> []" and "CHR 0x00 \<notin> set u" and "CHR 0x00 \<notin> set q"
    and "length u \<le> kMaxUsernameLen" and "length q \<le> kMaxPasswordLen"
    and "row_for same (rows (world s)) u = []" and "kv (world s) (user_key u) = None"
  shows "\<exists>tok s1 s2 s3 s4 s5.
      runDbTask S (RegisterTask fd ka u q) s = Some (Answered 200 (json_message ''register success''), s1)
    \<and> runDbTask S (LoginTask fd ka u q) s1 = Some (Answered 200 (json_token tok), s2)
    \<and> runDbTask S (ProfileTask fd ka tok) s2 = Some (Answered 200 (json_username u), s3)
    \<and> runDbTask S (LogoutTask fd ka tok) s3 = Some (Answered 200 (json_message ''logout success''), s4)
    \<and> runDbTask S (ProfileTask fd ka tok) s4 = Some (Answered 401 (json_error ''invalid or expired token''), s5)
    \<and> length tok = kTokenLen \<and> set tok \<subseteq> set token_charset"
proof -
  have u: "c_str u = u" "c_str q = q" using assms(5,6) by (simp_all add: c_str_id)
  obtain s1 where s1: "runDbTask S (RegisterTask fd ka u q) s = Some (Answered 200 (json_message ''register success''), s1)"
    "rows (world s1) = rows (world s) @ [(u, q)]" "kv (world s1) = kv (world s)" "ready s1"
    using working_register [OF assms(1,2,7-9)] by blast
  have "row_for same (rows (world s1)) u = [(u, q)]"
    using s1(2) assms(3,9) by (simp add: row_for_def)
  then obtain tok s2 where s2: "runDbTask S (LoginTask fd ka u q) s1 = Some (Answered 200 (json_token tok), s2)"
    "length tok = kTokenLen" "set tok \<subseteq> set token_charset" "ready s2"
    "kv (world s2) = (kv (world s1))(user_key (c_str u) \<mapsto> q, session_key tok \<mapsto> c_str u)"
    using working_login [OF assms(1) s1(4) assms(7), of q fd ka] assms(10) s1(3) u by auto
  have tok: "c_str tok = tok" by (rule token_c_str [OF s2(3)])
  obtain s3 where s3: "runDbTask S (ProfileTask fd ka tok) s2 = Some (Answered 200 (json_username u), s3)"
    "kv (world s3) = kv (world s2)" "ready s3"
    using working_profile [OF assms(1) s2(4), of fd ka tok] s2(5) tok u assms(4) by auto
  obtain s4 where s4: "runDbTask S (LogoutTask fd ka tok) s3 = Some (Answered 200 (json_message ''logout success''), s4)"
    "kv (world s4) = (kv (world s3))(session_key tok := None)" "ready s4"
    using working_logout [OF assms(1) s3(3), of tok fd ka] s2(5) s3(2) tok by auto
  obtain s5 where "runDbTask S (ProfileTask fd ka tok) s4 = Some (Answered 401 (json_error ''invalid or expired token''), s5)"
    using working_profile [OF assms(1) s4(3), of fd ka tok] s4(2) tok by auto
  with s1(1) s2(1-3) s3(1) s4(1) show ?thesis by blast
qed

text \<open>
  The life of an account. With working databases, a new user can register, log in, see
  the profile under the same name with the token the login handed out, log out, and the
  token is refused from then on.
\<close>

theorem session_lifecycle:
  assumes "working S same sent rows kv fuel" and "ready s" and "same u u"
    and "u \<noteq> []" and "CHR 0x00 \<notin> set u" and "CHR 0x00 \<notin> set q"
    and "length u \<le> kMaxUsernameLen" and "length q \<le> kMaxPasswordLen"
    and "row_for same (rows (world s)) u = []" and "kv (world s) (user_key u) = None"
  shows "\<exists>tok s1 s2 s3 s4 s5.
      runDbTask S (RegisterTask fd ka u q) s = Some (Answered 200 (json_message ''register success''), s1)
    \<and> runDbTask S (LoginTask fd ka u q) s1 = Some (Answered 200 (json_token tok), s2)
    \<and> runDbTask S (ProfileTask fd ka tok) s2 = Some (Answered 200 (json_username u), s3)
    \<and> runDbTask S (LogoutTask fd ka tok) s3 = Some (Answered 200 (json_message ''logout success''), s4)
    \<and> runDbTask S (ProfileTask fd ka tok) s4 = Some (Answered 401 (json_error ''invalid or expired token''), s5)
    \<and> length tok = kTokenLen"
  using lifecycle_runs [OF assms, of fd ka] by blast

lemma session_lifecycle_runs:
  "\<exists>tok s1 s2 s3 s4 s5.
      runDbTask toy_services (RegisterTask 5 True ''bob'' ''hunter2'') toy_start = Some (Answered 200 (json_message ''register success''), s1)
    \<and> runDbTask toy_services (LoginTask 5 True ''bob'' ''hunter2'') s1 = Some (Answered 200 (json_token tok), s2)
    \<and> runDbTask toy_services (ProfileTask 5 True tok) s2 = Some (Answered 200 (json_username ''bob''), s3)
    \<and> runDbTask toy_services (LogoutTask 5 True tok) s3 = Some (Answered 200 (json_message ''logout success''), s4)
    \<and> runDbTask toy_services (ProfileTask 5 True tok) s4 = Some (Answered 401 (json_error ''invalid or expired token''), s5)"
  using lifecycle_runs [OF toy_working toy_ready, of "''bob''" "''hunter2''" 5 True]
  by (simp add: kMaxUsernameLen_def kMaxPasswordLen_def toy_start_def row_for_def) blast

theorem session_lifecycle_witness:
  "\<exists>tok s1 s2 s3 s4 s5.
      runDbTask toy_services (RegisterTask 5 True ''bob'' ''hunter2'') toy_start = Some (Answered 200 (json_message ''register success''), s1)
    \<and> runDbTask toy_services (LoginTask 5 True ''bob'' ''hunter2'') s1 = Some (Answered 200 (json_token tok), s2)
    \<and> runDbTask toy_services (ProfileTask 5 True tok) s2 = Some (Answered 200 (json_username ''bob''), s3)
    \<and> runDbTask toy_services (LogoutTask 5 True tok) s3 = Some (Answered 200 (json_message ''logout success''), s4)
    \<and> runDbTask toy_services (ProfileTask 5 True tok) s4 = Some (Answered 401 (json_error ''invalid or expired token''), s5)
    \<and> length tok = 32"
  using session_lifecycle [OF toy_working toy_ready, of "''bob''" "''hunter2''" 5 True]
  by (simp add: kMaxUsernameLen_def kMaxPasswordLen_def kTokenLen_def toy_start_def row_for_def)

text \<open>
  C25: registration, for every answer. 200 means that no row had the name and exactly the
  new row was appended; 409 that a row with the name exists, and nothing changed; 503
  changes nothing; 500 changes nothing or (the connection was lost after the statement ran)
  appended the row of a new name. In every case names stay unique.
\<close>

theorem register_correct:
  assumes "db_services S same sent rows kv"
    and "runDbTask S (RegisterTask fd ka u q) s = Some (Answered st body, s')"
    and "sorted_wrt (\<lambda>a b. \<not> same (fst a) (fst b)) (rows (world s))"
  shows "st \<in> {200, 409, 500, 503}
    \<and> (st = 200 \<longrightarrow> row_for same (rows (world s)) u = [] \<and> rows (world s') = rows (world s) @ [(u, q)])
    \<and> (st = 409 \<longrightarrow> row_for same (rows (world s)) u \<noteq> [] \<and> rows (world s') = rows (world s))
    \<and> (st = 503 \<longrightarrow> rows (world s') = rows (world s))
    \<and> (st = 500 \<longrightarrow> rows (world s') = rows (world s)
        \<or> row_for same (rows (world s)) u = [] \<and> rows (world s') = rows (world s) @ [(u, q)])
    \<and> sorted_wrt (\<lambda>a b. \<not> same (fst a) (fst b)) (rows (world s'))"
proof -
  have eff: "register_effect same u q (Answered st body) (rows (world s)) (rows (world s'))"
    using runDbTask_spec [OF assms(1,2)] by simp
  have uniq: "sorted_wrt (\<lambda>a b. \<not> same (fst a) (fst b)) (rows (world s) @ [(u, q)])"
    if "row_for same (rows (world s)) u = []"
    using assms(3) that by (simp add: sorted_wrt_append row_for_def filter_empty_conv)
  from eff consider "st = 200" "row_for same (rows (world s)) u = []" "rows (world s') = rows (world s) @ [(u, q)]"
    | "st = 409" "row_for same (rows (world s)) u \<noteq> []" "rows (world s') = rows (world s)"
    | "st = 500" "rows (world s') = rows (world s)"
    | "st = 500" "row_for same (rows (world s)) u = []" "rows (world s') = rows (world s) @ [(u, q)]"
    | "st = 503" "rows (world s') = rows (world s)"
    unfolding register_effect_def db_result.case by (metis (full_types))
  then show ?thesis by cases (use uniq assms(3) in simp_all)
qed

theorem register_correct_witness:
  "\<exists>s'. runDbTask toy_services (RegisterTask 5 True ''bob'' ''hunter2'') toy_start =
       Some (Answered 200 (json_message ''register success''), s')
     \<and> toy_rows (world s') = [(''admin'', ''secret''), (''bob'', ''hunter2'')]"
proof -
  have f: "row_for (=) (toy_rows (world toy_start)) ''bob'' = []"
    "length ''bob'' \<le> kMaxUsernameLen" "length ''hunter2'' \<le> kMaxPasswordLen"
    by (simp_all add: row_for_def toy_start_def kMaxUsernameLen_def kMaxPasswordLen_def)
  obtain s' where run: "runDbTask toy_services (RegisterTask 5 True ''bob'' ''hunter2'') toy_start =
      Some (Answered 200 (json_message ''register success''), s')"
    using working_register [OF toy_working toy_ready f(2,3,1)] by blast
  have "sorted_wrt (\<lambda>a b. \<not> fst a = fst b) (toy_rows (world toy_start))" by (simp add: toy_start_def)
  from register_correct [OF toy_db_services run this] run show ?thesis by (simp add: toy_start_def)
qed

text \<open>A sequence of tasks, one after the other.\<close>

fun run_tasks :: "'w services \<Rightarrow> db_task list \<Rightarrow> 'w db_state \<Rightarrow> 'w db_state option" where
  "run_tasks S [] s = Some s"
| "run_tasks S (t # ts) s = (case runDbTask S t s of None \<Rightarrow> None | Some (r, s') \<Rightarrow> run_tasks S ts s')"

text \<open>The tokens that the logins of a sequence draw.\<close>

fun tokens_drawn :: "'w services \<Rightarrow> db_task list \<Rightarrow> 'w db_state \<Rightarrow> bytes list" where
  "tokens_drawn S [] s = []"
| "tokens_drawn S (t # ts) s =
     (case drawn_token S t s of None \<Rightarrow> [] | Some tok \<Rightarrow> [tok])
     @ (case runDbTask S t s of None \<Rightarrow> [] | Some (_, s') \<Rightarrow> tokens_drawn S ts s')"

lemma run_tasks_session:
  "\<lbrakk>db_services S same sent rows kv; run_tasks S ts s = Some s'; kv (world s') (session_key k) = Some v;
    k \<notin> c_str ` set (tokens_drawn S ts s)\<rbrakk> \<Longrightarrow> kv (world s) (session_key k) = Some v"
proof (induction ts arbitrary: s)
  case (Cons t ts)
  then obtain r s1 where run: "runDbTask S t s = Some (r, s1)" "run_tasks S ts s1 = Some s'"
    by (auto split: option.splits)
  with Cons.prems(4) have fresh: "k \<notin> c_str ` set (tokens_drawn S ts s1)" "\<And>tok. drawn_token S t s = Some tok \<Longrightarrow> k \<noteq> c_str tok"
    by (auto split: option.splits)
  from Cons.IH [OF Cons.prems(1) run(2) Cons.prems(3) fresh(1)]
  show ?case using runDbTask_session [OF Cons.prems(1) run(1)] fresh(2) by blast
qed simp

text \<open>
  C32: logging out revokes the token. Once a logout was answered 200, no later profile
  request with that token is answered 200, whatever tasks ran in between, logins included,
  as long as no login among them draws the very token again.
\<close>

theorem logout_revokes:
  assumes "db_services S same sent rows kv"
    and "runDbTask S (LogoutTask fd ka tok) s = Some (Answered 200 body, s1)"
    and "run_tasks S ts s1 = Some s2" and "c_str tok \<notin> c_str ` set (tokens_drawn S ts s1)"
  shows "runDbTask S (ProfileTask fd' ka' tok) s2 \<noteq> Some (Answered 200 body', s3)"
proof
  assume run: "runDbTask S (ProfileTask fd' ka' tok) s2 = Some (Answered 200 body', s3)"
  have "kv (world s1) (session_key (c_str tok)) = None" using runDbTask_spec [OF assms(1,2)] by simp
  moreover obtain v where "kv (world s2) (session_key (c_str tok)) = Some v"
    using runDbTask_spec [OF assms(1) run] by auto
  ultimately show False using run_tasks_session [OF assms(1,3) _ assms(4)] by fastforce
qed

theorem logout_revokes_witness:
  "\<exists>tok s1 s2. runDbTask toy_services (LogoutTask 5 True tok) s1 = Some (Answered 200 (json_message ''logout success''), s2)
     \<and> (\<forall>body s3. runDbTask toy_services (ProfileTask 6 True tok) s2 \<noteq> Some (Answered 200 body, s3))"
proof -
  obtain tok s1 s2 s3 s4 s5 where
    "runDbTask toy_services (LogoutTask 5 True tok) s3 = Some (Answered 200 (json_message ''logout success''), s4)"
    using session_lifecycle_runs by blast
  moreover from logout_revokes [OF toy_db_services this, of "[]"]
  have "runDbTask toy_services (ProfileTask 6 True tok) s4 \<noteq> Some (Answered 200 body, s)" for body s by simp
  ultimately show ?thesis by blast
qed

text \<open>
  The escape buffers never overrun. Whatever request reaches \<open>handleRegister\<close> or
  \<open>handleLogin\<close>, the task it submits escapes its username and password within the 129 and
  257 bytes of the arrays, in every state of the databases.
\<close>

theorem submitted_tasks_never_overrun:
  assumes "write_accepts K sent" and "mysql_contract (sv_mysql S) same rows"
    and "handleRegister K request fd ka pool w = Some (Inr pool', w')
      \<or> handleLogin K request fd ka pool w = Some (Inr pool', w')"
    and "tasks pool' = tasks pool @ [t]" and "runDbTask S t s = Some (r, s')"
  shows "r \<noteq> Overrun"
proof -
  have "task_fits t"
    using assms(3) registerh.answers_or_submits [OF assms(1)] loginh.answers_or_submits [OF assms(1)] assms(4)
    by (fastforce simp: pool_add_def split: if_splits)
  then show ?thesis by (rule runDbTask_fits [OF assms(2) _ assms(5)])
qed

definition toy_request :: bytes where
  "toy_request = http_message [''POST /register HTTP/1.1'', ''Content-Length: 38'']
     (credentials_json ''admin'' ''secret'')"

lemma toy_request_fields:
  "getJsonValue (parseBody toy_request) ''username'' = ''admin''"
  "getJsonValue (parseBody toy_request) ''password'' = ''secret''"
proof -
  have "parseBody toy_request = credentials_json ''admin'' ''secret''"
    unfolding toy_request_def by (rule parseBody_message) (simp_all add: good_line_def)
  then show "getJsonValue (parseBody toy_request) ''username'' = ''admin''"
    "getJsonValue (parseBody toy_request) ''password'' = ''secret''"
    by (simp_all add: getJsonValue_username getJsonValue_password)
qed

lemma toy_request_submits:
  "handleRegister K toy_request 5 True (pool_new 2) w =
     Some (Inr ((pool_new 2)\<lparr>tasks := [RegisterTask 5 True ''admin'' ''secret'']\<rparr>), w)"
proof -
  have "refuse_credentials toy_request = None"
    by (simp add: refuse_credentials_def toy_request_fields kMaxUsernameLen_def kMaxPasswordLen_def)
  then show ?thesis
    by (subst registerh.handle_submit) (simp_all add: toy_request_fields pool_add_def pool_new_def)
qed

theorem submitted_tasks_never_overrun_witness:
  "\<exists>pool' r s'. handleRegister toy_kernel toy_request 5 True (pool_new 2) (world toy_start) = Some (Inr pool', world toy_start)
     \<and> tasks pool' = [RegisterTask 5 True ''admin'' ''secret'']
     \<and> runDbTask toy_services (RegisterTask 5 True ''admin'' ''secret'') toy_start = Some (r, s') \<and> r \<noteq> Overrun"
proof -
  let ?t = "RegisterTask 5 True ''admin'' ''secret''"
  obtain r s' where run: "runDbTask toy_services ?t toy_start = Some (r, s')"
    using runDbTask_returns [of toy_services toy_sent "\<lambda>w. 0"] toy_write toy_finite
    by (fastforce simp: toy_services_def)
  have m: "mysql_contract (sv_mysql toy_services) (=) toy_rows"
    using toy_mysql_contract by (simp add: toy_services_def)
  have "r \<noteq> Overrun"
    by (rule submitted_tasks_never_overrun [OF toy_write m disjI1 [OF toy_request_submits] _ run])
      (simp add: pool_new_def)
  with run show ?thesis by (simp add: toy_request_submits)
qed

lemma handler_effect:
  assumes "write_accepts K sent" and "finite_eintr K fuel"
    and "h \<in> {handleRegister, handleLogin, handleProfile, handleLogout}"
  shows "\<exists>res w'. h K request fd ka pool w = Some (res, w') \<and>
    ((\<exists>st body n. res = Inr pool
        \<and> sent w' = (sent w)(fd := sent w fd @ take n (buildHttpResponse st ''application/json'' body ka)))
     \<or> w' = w \<and> (\<exists>t. res = pool_add t pool \<and> task_fd t = fd \<and> task_ka t = ka \<and> task_fits t))"
proof -
  have "\<exists>res w'. h K request fd ka pool w = Some (res, w')"
    using assms(3) registerh.handler_returns [OF assms(1,2), of request fd ka pool w]
      loginh.handler_returns [OF assms(1,2), of request fd ka pool w]
      profileh.handler_returns [OF assms(1,2), of request fd ka pool w]
      logouth.handler_returns [OF assms(1,2), of request fd ka pool w] by auto
  then obtain res w' where h: "h K request fd ka pool w = Some (res, w')" by blast
  from assms(3) consider "h = handleRegister" | "h = handleLogin" | "h = handleProfile" | "h = handleLogout"
    by auto
  then have "(\<exists>st body n. res = Inr pool
        \<and> sent w' = (sent w)(fd := sent w fd @ take n (buildHttpResponse st ''application/json'' body ka)))
     \<or> w' = w \<and> (\<exists>t. res = pool_add t pool \<and> task_fd t = fd \<and> task_ka t = ka \<and> task_fits t)"
  proof cases
    case 1 show ?thesis by (rule registerh.answers_or_submits [OF assms(1) h [unfolded 1]])
  next
    case 2 show ?thesis by (rule loginh.answers_or_submits [OF assms(1) h [unfolded 2]])
  next
    case 3 show ?thesis by (rule profileh.answers_or_submits [OF assms(1) h [unfolded 3]])
  next
    case 4 show ?thesis by (rule logouth.answers_or_submits [OF assms(1) h [unfolded 4]])
  qed
  with h show ?thesis by blast
qed

text \<open>
  A DB request is answered or handed over, once. Each of the four handlers returns; it
  either sends (a prefix of) one response on the request's socket and leaves the pool alone,
  or sends nothing and submits exactly one task that will answer on that socket with the
  negotiated persistence (or throws, when the pool is already stopped).
\<close>

theorem db_handlers_answer_or_submit:
  assumes "write_accepts K sent" and "finite_eintr K fuel"
    and "h \<in> {handleRegister, handleLogin, handleProfile, handleLogout}"
  shows "\<exists>res w'. h K request fd ka pool w = Some (res, w') \<and>
    ((\<exists>st body n. res = Inr pool
        \<and> sent w' = (sent w)(fd := sent w fd @ take n (buildHttpResponse st ''application/json'' body ka)))
     \<or> w' = w \<and> (\<exists>t. res = pool_add t pool \<and> task_fd t = fd \<and> task_ka t = ka \<and> task_fits t))"
  by (rule handler_effect [OF assms])

theorem db_handlers_answer_or_submit_witness:
  "\<exists>res w'. handleRegister toy_kernel toy_request 5 True (pool_new 2) (world toy_start) = Some (res, w')"
  using db_handlers_answer_or_submit [OF toy_write toy_finite, of handleRegister toy_request 5 True "pool_new 2" "world toy_start"]
  by blast

lemma getJsonValue_token:
  assumes "CHR 0x22 \<notin> set tok"
  shows "getJsonValue (json_token tok) ''token'' = tok"
proof (rule getJsonValue_at)
  show "json_token tok = (''{'' @ json_search ''message'' @ ''login success'' @ [CHR 0x22] @ '','') @
      json_search ''token'' @ tok @ CHR 0x22 # ''}''"
    by (simp add: json_token_def json_search_def)
  show "str_find (json_search ''token'') (json_token tok) =
      Some (length (''{'' @ json_search ''message'' @ ''login success'' @ [CHR 0x22] @ '',''))"
    by (simp add: json_token_def json_search_def)
qed (rule assms)

text \<open>
  The token comes back. The token in the answer of a login, read from the JSON body and
  sent back as the bearer token of a request, is the token of the task that \<open>handleProfile\<close>
  submits.
\<close>

theorem token_roundtrip_http:
  assumes "length tok = kTokenLen" and "set tok \<subseteq> set token_charset"
    and "ls \<noteq> []" and "list_all good_line ls"
    and "header_lookup ls ''authorization'' = '' Bearer '' @ getJsonValue (json_token tok) ''token''"
  shows "handleProfile K (http_message ls body) fd ka pool w = Some (pool_add (ProfileTask fd ka tok) pool, w)"
proof -
  have clean: "CHR 0x22 \<notin> set tok" "\<not> is_blank c" if "c \<in> set tok" for c
    using assms(2) that by (auto simp: token_charset_def is_blank_def)
  have ne: "tok \<noteq> []" using assms(1) by (auto simp: kTokenLen_def)
  have tok: "getJsonValue (json_token tok) ''token'' = tok"
    using ne clean(1) hd_in_set by (intro getJsonValue_token) blast
  have "parseBearerToken (http_message ls body) = tok"
    by (rule parseBearerToken_value [OF assms(3,4), of "'' ''" "''Bearer ''" tok "[]"])
      (use assms(1,5) tok ne clean(2) [OF last_in_set] in
        \<open>auto simp: is_blank_def char_tolower_def kTokenLen_def str_simps\<close>)
  then show ?thesis using ne by (subst profileh.handle_submit) (simp_all add: refuse_token_def)
qed

theorem token_roundtrip_http_witness:
  "handleProfile toy_kernel
     (http_message [''GET /profile HTTP/1.1'', ''Authorization: Bearer '' @ replicate 32 (CHR ''a'')] []) 5 True
     (pool_new 1) (world toy_start) =
   Some (pool_add (ProfileTask 5 True (replicate 32 (CHR ''a''))) (pool_new 1), world toy_start)"
proof (rule token_roundtrip_http)
  show "length (replicate 32 CHR ''a'') = kTokenLen" by (simp add: kTokenLen_def)
  show "set (replicate 32 CHR ''a'') \<subseteq> set token_charset" by (simp add: token_charset_def)
  show "list_all good_line [''GET /profile HTTP/1.1'', ''Authorization: Bearer '' @ replicate 32 CHR ''a'']"
    by (simp add: good_line_def)
  have tok: "getJsonValue (json_token (replicate 32 CHR ''a'')) ''token'' = replicate 32 CHR ''a''"
    by (rule getJsonValue_token) simp
  have name: "map char_tolower ''Authorization'' = ''authorization''" by (simp add: char_tolower_def str_simps)
  have "header_lookup [''GET /profile HTTP/1.1'', ''Authorization'' @ '':'' @ '' Bearer '' @ replicate 32 CHR ''a''] ''authorization''
      = '' Bearer '' @ replicate 32 CHR ''a''"
    using name by (simp add: header_lookup_def header_name_def header_value_def str_simps)
  then show "header_lookup [''GET /profile HTTP/1.1'', ''Authorization: Bearer '' @ replicate 32 CHR ''a''] ''authorization''
      = '' Bearer '' @ getJsonValue (json_token (replicate 32 CHR ''a'')) ''token''"
    unfolding tok by simp
qed simp

subsection \<open>Usernames with a NUL byte\<close>

text \<open>
  Redis keys and values are passed as C strings, MySQL gets the whole username. A user who
  registers as \<open>admin\<close>, a NUL byte and any suffix therefore shares the cache entry and the
  session name of \<open>admin\<close>: after logging in, the profile names \<open>admin\<close>, and \<open>admin\<close> itself can be
  logged into with the attacker's password as long as the cache entry lives.
\<close>

lemma nul_username_takes_over_account:
  fixes evil :: bytes
  defines "evil \<equiv> ''admin'' @ [CHR 0x00] @ ''x''"
  shows "\<exists>tok tok' s1 s2 s3 s4.
      runDbTask toy_services (RegisterTask 5 True evil ''pw'') toy_start = Some (Answered 200 (json_message ''register success''), s1)
    \<and> runDbTask toy_services (LoginTask 5 True evil ''pw'') s1 = Some (Answered 200 (json_token tok), s2)
    \<and> runDbTask toy_services (ProfileTask 5 True tok) s2 = Some (Answered 200 (json_username ''admin''), s3)
    \<and> runDbTask toy_services (LoginTask 5 True ''admin'' ''pw'') s3 = Some (Answered 200 (json_token tok'), s4)"
proof -
  have names: "c_str evil = ''admin''" "c_str ''admin'' = ''admin''" "c_str ''pw'' = ''pw''"
    "length evil \<le> kMaxUsernameLen" "length ''pw'' \<le> kMaxPasswordLen"
    by (simp_all add: evil_def c_str_def kMaxUsernameLen_def kMaxPasswordLen_def)
  have "row_for (=) (toy_rows (world toy_start)) evil = []" by (simp add: row_for_def toy_start_def evil_def)
  then obtain s1 where s1: "runDbTask toy_services (RegisterTask 5 True evil ''pw'') toy_start =
      Some (Answered 200 (json_message ''register success''), s1)" "ready s1"
      "toy_rows (world s1) = [(''admin'', ''secret''), (evil, ''pw'')]" "toy_kv (world s1) = Map.empty"
    using working_register [OF toy_working toy_ready names(4,5)] by (auto simp: toy_start_def)
  have "row_for (=) (toy_rows (world s1)) evil = [(evil, ''pw'')]"
    by (simp add: s1(3) row_for_def evil_def)
  then obtain tok s2 where s2: "runDbTask toy_services (LoginTask 5 True evil ''pw'') s1 = Some (Answered 200 (json_token tok), s2)"
      "ready s2" "set tok \<subseteq> set token_charset"
      "toy_kv (world s2) = [user_key ''admin'' \<mapsto> ''pw'', session_key tok \<mapsto> ''admin'']"
    using working_login [OF toy_working s1(2) names(4), of "''pw''" 5 True] s1(4) names(1,3) by auto
  obtain s3 where s3: "runDbTask toy_services (ProfileTask 5 True tok) s2 = Some (Answered 200 (json_username ''admin''), s3)"
      "ready s3" "toy_kv (world s3) = toy_kv (world s2)"
    using working_profile [OF toy_working s2(2), of 5 True tok] s2(4) token_c_str [OF s2(3)] by auto
  have "toy_kv (world s3) (user_key (c_str ''admin'')) = Some ''pw'' \<and> ''pw'' \<noteq> []"
    using s2(4) s3(3) names(2) by simp
  with working_login [OF toy_working s3(2) toy_fits_names(1), of "''pw''" 5 True]
  obtain tok' s4 where "runDbTask toy_services (LoginTask 5 True ''admin'' ''pw'') s3 = Some (Answered 200 (json_token tok'), s4)"
    by blast
  with s1(1) s2(1) s3(1) show ?thesis by blast
qed

end
