(* ===== verification/ConnRequest.thy ===== *)
theory ConnRequest
  imports DbProperties
begin

section \<open>Reading and dispatching requests\<close>

text \<open>
  \<open>handleMessage\<close>, \<open>processRequests\<close> and the constructor of \<^verbatim>\<open>src/Connection.cpp\<close>. The loop
  of \<open>processRequests\<close> is written as the code has it: frame a request from the input buffer,
  serve it, go on when the connection is kept alive. Going on after the connection was
  destroyed is the result \<open>UseAfterFree\<close>, an exception of \<open>dbPool_->add\<close> is \<open>Threw\<close>. The state
  that reactor threads share with each other (the DB pool, the statics of \<open>getStaticFd\<close> and
  \<open>allowRequest\<close>) is threaded through.
\<close>

record reactor_shared =
  dbPool :: "db_task thread_pool"
  staticCache :: static_cache
  rateLimiter :: limiter

subsection \<open>The constructor\<close>

definition connection_new ::
    "'w kernel \<Rightarrow> nat \<Rightarrow> nat \<Rightarrow> int \<Rightarrow> 'w \<Rightarrow> connection \<times> 'w" where
  "connection_new K addr loop fd w =
     (case k_time K w of
        (now, w1) \<Rightarrow>
          (case enableReadingET K
                  (setWriteCallback (setCallback (channel_new addr loop fd) HandleMessage) HandleWrite) w1 of
             (ch, w2) \<Rightarrow>
               (\<lparr>conn_channel = ch, sock_fd = fd, writeBuf = [], writeIndex = 0, inputBuffer = [],
                 closeAfterWrite = False, lastActiveSec = now, fileFd = -1, fileOffset = 0,
                 fileRemaining = 0\<rparr>, w2)))"

subsection \<open>Serving one request\<close>

text \<open>The clock is only read when a limit is configured.\<close>

definition admit :: "'w kernel \<Rightarrow> limiter \<Rightarrow> 'w \<Rightarrow> bool \<times> limiter \<times> 'w" where
  "admit K lim w =
     (if kRateLimitQps \<le> 0 then (True, lim, w)
      else case k_time K w of
             (now, w1) \<Rightarrow> (case allowRequest kRateLimitQps now lim of (ok, lim') \<Rightarrow> (ok, lim', w1)))"

type_synonym 'w db_handler_fn =
  "'w kernel \<Rightarrow> bytes \<Rightarrow> int \<Rightarrow> bool \<Rightarrow> db_task thread_pool \<Rightarrow> 'w \<Rightarrow> 'w handled"

definition dbHandler :: "bytes \<Rightarrow> bytes \<Rightarrow> 'w db_handler_fn option" where
  "dbHandler method url =
     (if method = ''POST'' \<and> url = ''/register'' then Some handleRegister
      else if method = ''POST'' \<and> url = ''/login'' then Some handleLogin
      else if method = ''POST'' \<and> url = ''/logout'' then Some handleLogout
      else if method = ''GET'' \<and> url = ''/profile'' then Some handleProfile
      else None)"

text \<open>The inline routes: the static page for the root when it can be opened, else a generated page.\<close>

definition servePage ::
    "'w kernel \<Rightarrow> connection \<Rightarrow> bytes \<Rightarrow> bool \<Rightarrow> reactor_shared \<Rightarrow> 'w
     \<Rightarrow> (outcome \<times> reactor_shared \<times> 'w) option" where
  "servePage K c url keepAlive sh w =
     map_option (\<lambda>(out, w'). (out, sh, w'))
       (sendResponse K c (if url = ''/'' \<or> url = ''/hello'' then 200 else 404) ''text/html''
          (getResponse url) keepAlive w)"

definition serveInline ::
    "'w kernel \<Rightarrow> environ \<Rightarrow> connection \<Rightarrow> bytes \<Rightarrow> bool \<Rightarrow> reactor_shared \<Rightarrow> 'w
     \<Rightarrow> (outcome \<times> reactor_shared \<times> 'w) option" where
  "serveInline K getenv c url keepAlive sh w =
     (if url = ''/'' then
        (case sendFile K c 200 ''text/html'' (staticDir getenv @ ''/index.html'') keepAlive (staticCache sh) w of
           None \<Rightarrow> None
         | Some (Some out, sc, w1) \<Rightarrow> Some (out, sh\<lparr>staticCache := sc\<rparr>, w1)
         | Some (None, sc, w1) \<Rightarrow> servePage K c url keepAlive (sh\<lparr>staticCache := sc\<rparr>) w1)
      else servePage K c url keepAlive sh w)"

text \<open>One framed request, from the keep-alive decision to the answer or the submission.\<close>

definition serveRequest ::
    "'w kernel \<Rightarrow> environ \<Rightarrow> bytes \<Rightarrow> bytes \<Rightarrow> connection \<Rightarrow> reactor_shared \<Rightarrow> 'w
     \<Rightarrow> (outcome \<times> reactor_shared \<times> 'w) option" where
  "serveRequest K getenv headers request c sh w =
     (let keepAlive = wantKeepAlive request headers;
          method = parseMethod request;
          url = parseUrl request
      in case admit K (rateLimiter sh) w of
           (ok, lim, w1) \<Rightarrow>
             (let sh1 = sh\<lparr>rateLimiter := lim\<rparr>
              in if \<not> ok then
                   map_option (\<lambda>(out, w'). (out, sh1, w'))
                     (sendResponse K c 429 ''application/json'' (json_error ''too many requests'') keepAlive w1)
                 else
                   (case dbHandler method url of
                      Some h \<Rightarrow>
                        (case h K request (sock_fd c) keepAlive (dbPool sh1) w1 of
                           None \<Rightarrow> None
                         | Some (Inl e, w2) \<Rightarrow> Some (Threw c, sh1, w2)
                         | Some (Inr pool, w2) \<Rightarrow> Some (Alive c, sh1\<lparr>dbPool := pool\<rparr>, w2))
                    | None \<Rightarrow> serveInline K getenv c url keepAlive sh1 w1)))"

subsection \<open>The request loop\<close>

partial_function (option) processRequests ::
    "'w kernel \<Rightarrow> environ \<Rightarrow> connection \<Rightarrow> reactor_shared \<Rightarrow> 'w \<Rightarrow> (outcome \<times> reactor_shared \<times> 'w) option" where
  "processRequests K getenv c sh w =
     (case next_frame (inputBuffer c) of
        NeedMore \<Rightarrow> Some (Alive c, sh, w)
      | HeaderTooLarge \<Rightarrow>
          map_option (\<lambda>(out, w'). (out, sh, w'))
            (sendResponse K (c\<lparr>inputBuffer := []\<rparr>) 400 ''application/json''
               (json_error ''request header too large'') False w)
      | BodyTooLarge \<Rightarrow>
          map_option (\<lambda>(out, w'). (out, sh, w'))
            (sendResponse K (c\<lparr>inputBuffer := []\<rparr>) 413 ''application/json''
               (json_error ''request body too large'') False w)
      | Framed headers request rest \<Rightarrow>
          (case serveRequest K getenv headers request (c\<lparr>inputBuffer := rest\<rparr>) sh w of
             None \<Rightarrow> None
           | Some (out, sh1, w1) \<Rightarrow>
               (case out of
                  Alive c1 \<Rightarrow>
                    if wantKeepAlive request headers then processRequests K getenv c1 sh1 w1
                    else Some (out, sh1, w1)
                | Destroyed \<Rightarrow>
                    Some (if wantKeepAlive request headers then UseAfterFree else Destroyed, sh1, w1)
                | _ \<Rightarrow> Some (out, sh1, w1))))"

subsection \<open>The read loop\<close>

text \<open>\<^const>\<open>True\<close> when the socket is drained, \<^const>\<open>False\<close> when the peer closed or the read failed.\<close>

partial_function (option) read_loop ::
    "'w kernel \<Rightarrow> connection \<Rightarrow> 'w \<Rightarrow> (bool \<times> connection \<times> 'w) option" where
  "read_loop K c w =
     (case k_read K (sock_fd c) 4096 w of
        (r, w') \<Rightarrow>
          (case r of
             Ret d \<Rightarrow>
               if d \<noteq> [] then read_loop K (c\<lparr>inputBuffer := inputBuffer c @ d\<rparr>) w'
               else Some (False, c, w')
           | Err e \<Rightarrow>
               if e = EINTR then read_loop K c w'
               else Some (e = EAGAIN \<or> e = EWOULDBLOCK, c, w')))"

definition handleMessage ::
    "'w kernel \<Rightarrow> environ \<Rightarrow> connection \<Rightarrow> reactor_shared \<Rightarrow> 'w \<Rightarrow> (outcome \<times> reactor_shared \<times> 'w) option" where
  "handleMessage K getenv c sh w =
     (case k_time K w of
        (now, w0) \<Rightarrow>
          (case read_loop K (c\<lparr>lastActiveSec := now\<rparr>) w0 of
             None \<Rightarrow> None
           | Some (drained, c1, w1) \<Rightarrow>
               if drained then processRequests K getenv c1 sh w1 else Some (Destroyed, sh, w1)))"

end
