(* ===== verification/ConnLoop.thy ===== *)
theory ConnLoop
  imports ConnRequest
begin

section \<open>Correctness of the request loop\<close>

text \<open>
  The request loop against its reference: split the stream into requests, serve them in
  order. It returns, it is safe for a live peer, and it drains the socket. At the end, what
  happens when the peer resets.
\<close>

subsection \<open>Reference: the requests in a byte stream\<close>

text \<open>
  The requests a stream of bytes holds, each with its header block, and the bytes that do
  not make up a whole request: an incomplete one, or one the limits refuse, which
  \<open>end_of_input\<close> below answers. The guard only matters for buffers of \<open>2 ^ 64\<close> bytes,
  whose length the code cannot represent.
\<close>

function requests_of :: "bytes \<Rightarrow> (bytes \<times> bytes) list" where
  "requests_of buf =
     (case next_frame buf of
        Framed headers request rest \<Rightarrow> if request = [] then [] else (headers, request) # requests_of rest
      | _ \<Rightarrow> [])"
  by pat_completeness auto

lemma next_frame_shorter:
  "next_frame b = Framed h r rest \<Longrightarrow> r \<noteq> [] \<Longrightarrow> b = r @ rest \<and> length rest < length b"
  by (auto simp: next_frame_def Let_def substr_def substr_to_end_def split: option.splits if_splits)

termination requests_of
  by (relation "measure length") (auto dest: next_frame_shorter)

definition leftover :: "bytes \<Rightarrow> bytes" where
  "leftover buf = drop (length (concat (map snd (requests_of buf)))) buf"

declare requests_of.simps [simp del]

lemma requests_of_Framed:
  "next_frame b = Framed h r rest \<Longrightarrow> r \<noteq> [] \<Longrightarrow> requests_of b = (h, r) # requests_of rest"
  by (subst requests_of.simps) simp

lemma requests_of_none:
  "next_frame b \<in> {NeedMore, HeaderTooLarge, BodyTooLarge} \<Longrightarrow> requests_of b = []"
  by (subst requests_of.simps) auto

lemma leftover_Framed:
  assumes "next_frame b = Framed h r rest" and "r \<noteq> []"
  shows "leftover b = leftover rest"
  using next_frame_shorter [OF assms] requests_of_Framed [OF assms] by (simp add: leftover_def)

lemma requests_of_partition: "concat (map snd (requests_of b)) @ leftover b = b"
proof -
  have "\<exists>t. b = concat (map snd (requests_of b)) @ t"
  proof (induction b rule: requests_of.induct)
    case (1 b)
    show ?case
    proof (cases "\<exists>h r rest. next_frame b = Framed h r rest \<and> r \<noteq> []")
      case True
      then obtain h r rest where f: "next_frame b = Framed h r rest" "r \<noteq> []" by blast
      from 1 [OF f] obtain t where t: "concat (map snd (requests_of rest)) @ t = rest" by metis
      have "concat (map snd (requests_of b)) @ t = r @ concat (map snd (requests_of rest)) @ t"
        by (simp add: requests_of_Framed [OF f])
      also have "\<dots> = b" using t next_frame_shorter [OF f] by simp
      finally show ?thesis by metis
    next
      case False
      then have "requests_of b = []" by (subst requests_of.simps) (auto split: frame.split)
      then show ?thesis by simp
    qed
  qed
  then show ?thesis unfolding leftover_def by (metis append_eq_conv_conj)
qed

lemma requests_of_append: "requests_of (a @ b) = requests_of a @ requests_of (leftover a @ b)"
proof (induction a rule: requests_of.induct)
  case (1 a)
  show ?case
  proof (cases "\<exists>h r rest. next_frame a = Framed h r rest \<and> r \<noteq> []")
    case True
    then obtain h r rest where f: "next_frame a = Framed h r rest" "r \<noteq> []" by blast
    from 1 [OF f] show ?thesis
      by (simp add: requests_of_Framed [OF f] requests_of_Framed [OF next_frame_append [OF f(1)] f(2)]
          leftover_Framed [OF f])
  next
    case False
    then have "requests_of a = []" by (subst requests_of.simps) (auto split: frame.split)
    then show ?thesis by (simp add: leftover_def)
  qed
qed

text \<open>Well-formed messages: their \<^verbatim>\<open>Content-Length\<close> (0 when absent) is right and they respect the body limit.\<close>

definition sized_message :: "bytes list \<times> bytes \<Rightarrow> bool" where
  "sized_message m \<longleftrightarrow>
     (case m of (ls, body) \<Rightarrow>
        ls \<noteq> [] \<and> list_all good_line ls \<and> requestContentLength (join_crlf ls) = length body
        \<and> length body \<le> kMaxBodyBytes \<and> length (join_crlf ls) < 2 ^ 63)"

lemma requests_of_messages:
  "list_all sized_message ms \<Longrightarrow>
   requests_of (concat (map (\<lambda>(ls, body). http_message ls body) ms) @ rest) =
     map (\<lambda>(ls, body). (join_crlf ls, http_message ls body)) ms @ requests_of rest"
proof (induction ms)
  case (Cons m ms)
  obtain ls body where m: "m = (ls, body)" by (cases m)
  with Cons.prems have "next_frame (http_message ls body @ concat (map (\<lambda>(ls, body). http_message ls body) ms) @ rest) =
      Framed (join_crlf ls) (http_message ls body) (concat (map (\<lambda>(ls, body). http_message ls body) ms) @ rest)"
    by (intro next_frame_message) (simp_all add: sized_message_def)
  moreover have "http_message ls body \<noteq> []" by (simp add: http_message_def crlf2_def crlf_def)
  ultimately show ?case using Cons m by (simp add: requests_of_Framed)
qed simp

subsection \<open>The loop serves them in order\<close>

text \<open>What the loop does with bytes that do not start with a whole request.\<close>

definition end_of_input ::
    "'w kernel \<Rightarrow> connection \<Rightarrow> reactor_shared \<Rightarrow> 'w \<Rightarrow> (outcome \<times> reactor_shared \<times> 'w) option" where
  "end_of_input K c sh w =
     (case next_frame (inputBuffer c) of
        HeaderTooLarge \<Rightarrow>
          map_option (\<lambda>(out, w'). (out, sh, w'))
            (sendResponse K (c\<lparr>inputBuffer := []\<rparr>) 400 ''application/json''
               (json_error ''request header too large'') False w)
      | BodyTooLarge \<Rightarrow>
          map_option (\<lambda>(out, w'). (out, sh, w'))
            (sendResponse K (c\<lparr>inputBuffer := []\<rparr>) 413 ''application/json''
               (json_error ''request body too large'') False w)
      | _ \<Rightarrow> Some (Alive c, sh, w))"

fun serve_in_order ::
    "'w kernel \<Rightarrow> environ \<Rightarrow> (bytes \<times> bytes) list \<Rightarrow> connection \<Rightarrow> reactor_shared \<Rightarrow> 'w
     \<Rightarrow> (outcome \<times> reactor_shared \<times> 'w) option" where
  "serve_in_order K getenv [] c sh w = end_of_input K c sh w"
| "serve_in_order K getenv ((headers, request) # reqs) c sh w =
     (case serveRequest K getenv headers request
             (c\<lparr>inputBuffer := drop (length request) (inputBuffer c)\<rparr>) sh w of
        None \<Rightarrow> None
      | Some (Alive c1, sh1, w1) \<Rightarrow>
          if wantKeepAlive request headers then serve_in_order K getenv reqs c1 sh1 w1
          else Some (Alive c1, sh1, w1)
      | Some (Destroyed, sh1, w1) \<Rightarrow>
          Some (if wantKeepAlive request headers then UseAfterFree else Destroyed, sh1, w1)
      | Some r \<Rightarrow> Some r)"

text \<open>Sending never touches the input buffer or the socket.\<close>

definition same_input :: "connection \<Rightarrow> connection \<Rightarrow> bool" where
  "same_input c c' \<longleftrightarrow> inputBuffer c' = inputBuffer c \<and> sock_fd c' = sock_fd c"

lemma same_input_refl: "same_input c c"
  by (simp add: same_input_def)

lemma writeFromBuffer_input:
  assumes "writeFromBuffer K c w = Some (Alive c', w')"
  shows "same_input c c'"
proof -
  have b: "same_input c c1" if "drain_buf K c w = Some (d, c1, w1)" for d c1 w1
    using bufloop.run_rule [OF that, where I = "\<lambda>x v. same_input c x"] by (auto simp: same_input_def)
  have f: "same_input x c1" if "drain_file K x v = Some (d, c1, w1)" for x v d c1 w1
    using fileloop.run_rule [OF that, where I = "\<lambda>y v. same_input x y"] by (auto simp: same_input_def)
  show ?thesis
    using assms by (auto simp: writeFromBuffer_def conn_enableWriting_def same_input_def
        split: option.splits drain.splits prod.splits if_splits dest!: b f)
qed

lemma sendResponse_input: "sendResponse K c st ct body ka w = Some (Alive c', w') \<Longrightarrow> same_input c c'"
  unfolding sendResponse_def by (drule writeFromBuffer_input) (simp add: same_input_def)

lemma sendFile_input:
  "sendFile K c st ct path ka sc w = Some (Some (Alive c'), sc', w') \<Longrightarrow> same_input c c'"
  unfolding sendFile_def by (auto simp: same_input_def split: prod.splits option.splits dest!: writeFromBuffer_input)

lemma serveRequest_input:
  "serveRequest K getenv h r c sh w = Some (Alive c', sh', w') \<Longrightarrow> same_input c c'"
  unfolding serveRequest_def serveInline_def servePage_def Let_def
  by (auto split: prod.splits option.splits if_splits sum.splits dest: sendResponse_input sendFile_input
      simp: same_input_refl)

lemma processRequests_step:
  "processRequests K getenv c sh w =
     (case next_frame (inputBuffer c) of
        Framed headers request rest \<Rightarrow>
          (case serveRequest K getenv headers request (c\<lparr>inputBuffer := rest\<rparr>) sh w of
             None \<Rightarrow> None
           | Some (Alive c1, sh1, w1) \<Rightarrow>
               if wantKeepAlive request headers then processRequests K getenv c1 sh1 w1
               else Some (Alive c1, sh1, w1)
           | Some (Destroyed, sh1, w1) \<Rightarrow>
               Some (if wantKeepAlive request headers then UseAfterFree else Destroyed, sh1, w1)
           | Some r \<Rightarrow> Some r)
      | _ \<Rightarrow> end_of_input K c sh w)"
  by (subst processRequests.simps)
    (auto simp: end_of_input_def split: frame.split option.split outcome.split)

lemma processRequests_serves:
  "length (inputBuffer c) < 2 ^ 63 \<Longrightarrow>
   processRequests K getenv c sh w = serve_in_order K getenv (requests_of (inputBuffer c)) c sh w"
proof (induction "length (inputBuffer c)" arbitrary: c sh w rule: less_induct)
  case less
  show ?case
  proof (cases "next_frame (inputBuffer c)")
    case (Framed h r rest)
    from next_frame_FramedD [OF Framed less.prems] have f: "inputBuffer c = r @ rest" "r \<noteq> []" by auto
    have IH: "processRequests K getenv c1 sh1 w1 = serve_in_order K getenv (requests_of rest) c1 sh1 w1"
      if "serveRequest K getenv h r (c\<lparr>inputBuffer := rest\<rparr>) sh w = Some (Alive c1, sh1, w1)" for c1 sh1 w1
      using less.hyps [of c1 sh1 w1] serveRequest_input [OF that] f less.prems by (simp add: same_input_def)
    have "drop (length r) (inputBuffer c) = rest" using f(1) by simp
    then show ?thesis
      by (subst processRequests_step)
        (auto simp: Framed requests_of_Framed [OF Framed f(2)] IH split: option.split outcome.split)
  qed (simp_all add: processRequests_step [of K getenv c] requests_of_none)
qed

subsection \<open>Safety and termination\<close>

text \<open>\<^verbatim>\<open>fstat\<close> reports the length of a regular file; the cached descriptor carries it.\<close>

definition fstat_contract :: "'w kernel \<Rightarrow> (int \<Rightarrow> bytes) \<Rightarrow> bool" where
  "fstat_contract K file \<longleftrightarrow>
     (\<forall>fd w st w'. k_fstat K fd w = (Some st, w') \<longrightarrow> st_isreg st \<longrightarrow> st_size st = length (file fd))"

definition cache_ok :: "(int \<Rightarrow> bytes) \<Rightarrow> static_cache \<Rightarrow> bool" where
  "cache_ok file sc \<longleftrightarrow> (sc_once sc \<longrightarrow> sc_fd sc \<ge> 0 \<longrightarrow> sc_size sc = length (file (sc_fd sc)))"

lemma getStaticFd_ok:
  assumes "fstat_contract K file" and "cache_ok file sc" and "getStaticFd K path sc w = (got, sc', w')"
  shows "cache_ok file sc' \<and> (\<forall>fd sz. got = Some (fd, sz) \<longrightarrow> fd \<ge> 0 \<and> sz = length (file fd))"
proof -
  have st: "k_fstat K fd v = (Some s, v') \<Longrightarrow> st_isreg s \<Longrightarrow> st_size s = length (file fd)" for fd v s v'
    using assms(1) unfolding fstat_contract_def by blast
  have op: "cache_ok file sc1 \<and> sc_once sc1" if "open_static K path sc w = (sc1, w1)" for sc1 w1
    using that by (auto simp: open_static_def cache_ok_def split: prod.splits option.splits if_splits dest: st)
  from assms(2,3) op show ?thesis
    by (auto simp: getStaticFd_def cache_ok_def split: prod.splits if_splits)
qed

text \<open>What the reactor relies on: the kernel contracts, a live peer, and a pool that runs.\<close>

definition serving ::
    "'w kernel \<Rightarrow> ('w \<Rightarrow> int \<Rightarrow> bytes) \<Rightarrow> (int \<Rightarrow> bytes) \<Rightarrow> ('w \<Rightarrow> nat) \<Rightarrow> bool" where
  "serving K sent file fuel \<longleftrightarrow> stream_kernel K sent file \<and> finite_eintr K fuel \<and> fstat_contract K file"

definition shared_ok :: "(int \<Rightarrow> bytes) \<Rightarrow> reactor_shared \<Rightarrow> bool" where
  "shared_ok file sh \<longleftrightarrow> cache_ok file (staticCache sh) \<and> \<not> stop (dbPool sh)"

text \<open>
  How a call may leave the connection: alive with well-formed output, or destroyed, which a
  live peer only sees when the connection was to be closed.
\<close>

definition served_ok :: "'w kernel \<Rightarrow> (int \<Rightarrow> bytes) \<Rightarrow> bool \<Rightarrow> connection \<Rightarrow> outcome \<Rightarrow> bool" where
  "served_ok K file ka c out \<longleftrightarrow>
     (case out of
        Alive c' \<Rightarrow> wf_out file c' \<and> same_input c c'
      | Destroyed \<Rightarrow> peer_up K \<longrightarrow> \<not> ka
      | _ \<Rightarrow> False)"

lemma write_served:
  assumes "serving K sent file fuel" and "wf_out file c" and "closeAfterWrite c = (\<not> ka)"
  shows "\<exists>out w'. writeFromBuffer K c w = Some (out, w') \<and> served_ok K file ka c out"
proof -
  have k: "stream_kernel K sent file" "finite_eintr K fuel" "write_accepts K sent"
    using assms(1) by (simp_all add: serving_def stream_kernel_def)
  obtain out w' where r: "writeFromBuffer K c w = Some (out, w')"
    using writeFromBuffer_returns [OF k(2,3)] assms(2) unfolding wf_out_def by blast
  with writeFromBuffer_after [OF k(1) assms(2) r] writeFromBuffer_input [of K c w] assms(3) show ?thesis
    by (auto simp: served_ok_def conn_after_def conn_inv_def)
qed

lemma sendResponse_served:
  assumes "serving K sent file fuel" and "wf_out file c"
  shows "\<exists>out w'. sendResponse K c st ct body ka w = Some (out, w') \<and> served_ok K file ka c out"
proof -
  let ?c = "c\<lparr>writeBuf := buildHttpResponse st ct body ka, writeIndex := 0, closeAfterWrite := \<not> ka\<rparr>"
  have "wf_out file ?c" using assms(2) by (simp add: wf_out_def)
  then obtain out w' where "writeFromBuffer K ?c w = Some (out, w')" "served_ok K file ka ?c out"
    using write_served [OF assms(1), of ?c ka w] by auto
  then show ?thesis
    by (auto simp: sendResponse_def served_ok_def same_input_def split: outcome.splits)
qed

lemma sendFile_served:
  assumes "serving K sent file fuel" and "cache_ok file sc"
  shows "\<exists>res sc' w'. sendFile K c st ct path ka sc w = Some (res, sc', w') \<and> cache_ok file sc'
    \<and> (\<forall>out. res = Some out \<longrightarrow> served_ok K file ka c out)"
proof -
  obtain got sc' w1 where g: "getStaticFd K path sc w = (got, sc', w1)" by (metis prod.exhaust)
  have fs: "fstat_contract K file" using assms(1) by (simp add: serving_def)
  note ok = getStaticFd_ok [OF fs assms(2) g]
  show ?thesis
  proof (cases got)
    case None
    with g ok show ?thesis by (simp add: sendFile_def)
  next
    case (Some x)
    obtain fd sz where x: "x = (fd, sz)" by (cases x)
    let ?c = "c\<lparr>writeBuf := fileHeader st ct sz ka, writeIndex := 0, closeAfterWrite := \<not> ka,
        fileFd := fd, fileOffset := 0, fileRemaining := sz\<rparr>"
    have "wf_out file ?c" using ok Some x by (simp add: wf_out_def)
    then obtain out w' where "writeFromBuffer K ?c w1 = Some (out, w')" "served_ok K file ka ?c out"
      using write_served [OF assms(1), of ?c ka w1] by auto
    with g Some x ok show ?thesis
      by (auto simp: sendFile_def served_ok_def same_input_def split: outcome.splits)
  qed
qed

lemma serveInline_served:
  assumes "serving K sent file fuel" and "wf_out file c" and "shared_ok file sh"
  shows "\<exists>out sh' w'. serveInline K getenv c url ka sh w = Some (out, sh', w')
    \<and> served_ok K file ka c out \<and> shared_ok file sh'"
proof -
  have page: "\<exists>out w'. servePage K c url ka s v = Some (out, s, w') \<and> served_ok K file ka c out" for s v
    using sendResponse_served [OF assms(1,2), of _ "''text/html''" "getResponse url" ka v]
    by (fastforce simp: servePage_def)
  obtain res sc' w' where f: "sendFile K c 200 ''text/html'' (staticDir getenv @ ''/index.html'') ka (staticCache sh) w =
      Some (res, sc', w')" "cache_ok file sc'" "\<forall>out. res = Some out \<longrightarrow> served_ok K file ka c out"
    using sendFile_served [OF assms(1)] assms(3) unfolding shared_ok_def by blast
  have sh': "shared_ok file (sh\<lparr>staticCache := sc'\<rparr>)" using assms(3) f(2) by (simp add: shared_ok_def)
  show ?thesis
  proof (cases "url = ''/''")
    case False
    with page [of sh w] assms(3) show ?thesis by (auto simp: serveInline_def)
  next
    case True
    with f sh' page [of "sh\<lparr>staticCache := sc'\<rparr>" w'] show ?thesis
      by (cases res) (auto simp: serveInline_def)
  qed
qed

lemma dbHandler_cases:
  assumes "dbHandler method url = Some h"
  shows "h \<in> {handleRegister, handleLogin, handleProfile, handleLogout}"
  using assms by (auto simp: dbHandler_def split: if_splits)

lemma serveRequest_served:
  fixes K :: "'w kernel"
  assumes "serving K sent file fuel" and "wf_out file c" and "shared_ok file sh"
  shows "\<exists>out sh' w'. serveRequest K getenv h r c sh w = Some (out, sh', w')
    \<and> served_ok K file (wantKeepAlive r h) c out \<and> shared_ok file sh'"
proof -
  obtain ok lim w1 where a: "admit K (rateLimiter sh) w = (ok, lim, w1)" by (metis prod.exhaust)
  let ?sh = "sh\<lparr>rateLimiter := lim\<rparr>" and ?ka = "wantKeepAlive r h"
  have sh: "shared_ok file ?sh" using assms(3) by (simp add: shared_ok_def)
  consider "\<not> ok" | "ok" "dbHandler (parseMethod r) (parseUrl r) = (None :: 'w db_handler_fn option)"
    | hd where "ok" "dbHandler (parseMethod r) (parseUrl r) = Some (hd :: 'w db_handler_fn)" by blast
  then show ?thesis
  proof cases
    case 1
    with a sh sendResponse_served [OF assms(1,2), of 429 "''application/json''"
        "json_error ''too many requests''" ?ka w1]
    show ?thesis by (fastforce simp: serveRequest_def Let_def)
  next
    case 2
    with a serveInline_served [OF assms(1,2) sh, of getenv "parseUrl r" ?ka w1] show ?thesis
      by (simp add: serveRequest_def)
  next
    case 3
    have acc: "write_accepts K sent" "finite_eintr K fuel" using assms(1) by (simp_all add: serving_def stream_kernel_def)
    from handler_effect [OF acc dbHandler_cases [OF 3(2)], of r "sock_fd c" ?ka "dbPool ?sh" w1]
    obtain res w2 where h: "hd K r (sock_fd c) ?ka (dbPool ?sh) w1 = Some (res, w2)"
      "res = Inr (dbPool ?sh) \<or> (\<exists>t. res = pool_add t (dbPool ?sh))" by blast
    then obtain pool where "res = Inr pool" "\<not> stop pool"
      using assms(3) by (auto simp: shared_ok_def pool_add_def)
    with 3 a h(1) assms(2,3) show ?thesis
      by (auto simp: serveRequest_def served_ok_def same_input_def shared_ok_def)
  qed
qed

text \<open>How the loop may end.\<close>

definition loop_ok :: "'w kernel \<Rightarrow> (int \<Rightarrow> bytes) \<Rightarrow> connection \<Rightarrow> outcome \<Rightarrow> bool" where
  "loop_ok K file c out \<longleftrightarrow>
     (case out of
        Alive c' \<Rightarrow> wf_out file c' \<and> sock_fd c' = sock_fd c
      | Destroyed \<Rightarrow> True
      | UseAfterFree \<Rightarrow> \<not> peer_up K
      | Threw c' \<Rightarrow> False)"

lemma end_of_input_ok:
  assumes "serving K sent file fuel" and "wf_out file c" and "shared_ok file sh"
  shows "\<exists>out sh' w'. end_of_input K c sh w = Some (out, sh', w') \<and> loop_ok K file c out \<and> shared_ok file sh'"
proof -
  have "wf_out file (c\<lparr>inputBuffer := []\<rparr>)" using assms(2) by (simp add: wf_out_def)
  note s = sendResponse_served [OF assms(1) this, where ka = False]
  have ok: "served_ok K file False (c\<lparr>inputBuffer := []\<rparr>) out \<Longrightarrow> loop_ok K file c out" for out
    by (auto simp: served_ok_def loop_ok_def same_input_def split: outcome.splits)
  show ?thesis
    using assms s [of 400 "''application/json''" "json_error ''request header too large''" w]
      s [of 413 "''application/json''" "json_error ''request body too large''" w] ok
    by (cases "next_frame (inputBuffer c)") (fastforce simp: end_of_input_def loop_ok_def)+
qed

lemma serve_in_order_ok:
  assumes "serving K sent file fuel"
  shows "wf_out file c \<Longrightarrow> shared_ok file sh \<Longrightarrow>
    \<exists>out sh' w'. serve_in_order K getenv reqs c sh w = Some (out, sh', w')
      \<and> loop_ok K file c out \<and> shared_ok file sh'"
proof (induction reqs arbitrary: c sh w)
  case Nil
  then show ?case using end_of_input_ok [OF assms] by simp
next
  case (Cons req reqs)
  obtain h r where req: "req = (h, r)" by (cases req)
  let ?c = "c\<lparr>inputBuffer := drop (length r) (inputBuffer c)\<rparr>"
  have "wf_out file ?c" using Cons.prems(1) by (simp add: wf_out_def)
  from serveRequest_served [OF assms this Cons.prems(2), of getenv h r w] obtain out sh1 w1 where
    s: "serveRequest K getenv h r ?c sh w = Some (out, sh1, w1)" "served_ok K file (wantKeepAlive r h) ?c out"
      "shared_ok file sh1" by blast
  show ?case
  proof (cases out)
    case (Alive c1)
    with s have c1: "wf_out file c1" "sock_fd c1 = sock_fd c" by (simp_all add: served_ok_def same_input_def)
    have eq: "loop_ok K file c1 o1 \<Longrightarrow> loop_ok K file c o1" for o1
      using c1(2) by (simp add: loop_ok_def split: outcome.splits)
    show ?thesis
    proof (cases "wantKeepAlive r h")
      case True
      with Cons.IH [OF c1(1) s(3), of w1] req s(1) Alive eq show ?thesis by fastforce
    next
      case False
      with req s Alive c1 show ?thesis by (simp add: loop_ok_def)
    qed
  next
    case Destroyed
    with req s show ?thesis by (auto simp: served_ok_def loop_ok_def)
  qed (use s in \<open>simp_all add: served_ok_def\<close>)
qed

lemma processRequests_ok:
  assumes "serving K sent file fuel" and "wf_out file c" and "shared_ok file sh"
    and "length (inputBuffer c) < 2 ^ 63"
  shows "\<exists>out sh' w'. processRequests K getenv c sh w = Some (out, sh', w')
    \<and> loop_ok K file c out \<and> shared_ok file sh'"
  unfolding processRequests_serves [OF assms(4)] by (rule serve_in_order_ok [OF assms(1-3)])

subsection \<open>Reading\<close>

text \<open>
  \<open>recv w fd\<close> are the bytes the kernel has handed out on a descriptor; \<open>inflow w\<close> bounds the
  bytes that can still arrive.
\<close>

definition read_contract :: "'w kernel \<Rightarrow> ('w \<Rightarrow> int \<Rightarrow> bytes) \<Rightarrow> ('w \<Rightarrow> nat) \<Rightarrow> bool" where
  "read_contract K recv inflow \<longleftrightarrow>
     (\<forall>fd n w d w'. k_read K fd n w = (Ret d, w') \<longrightarrow>
        length d \<le> n \<and> recv w' = (recv w)(fd := recv w fd @ d) \<and> inflow w' + length d \<le> inflow w)
     \<and> (\<forall>fd n w e w'. k_read K fd n w = (Err e, w') \<longrightarrow> recv w' = recv w \<and> inflow w' \<le> inflow w)
     \<and> (\<forall>w t w'. k_time K w = (t, w') \<longrightarrow> recv w' = recv w \<and> inflow w' \<le> inflow w)"

lemma read_contractD:
  assumes "read_contract K recv inflow"
  shows "k_read K fd n w = (Ret d, w') \<Longrightarrow>
      recv w' = (recv w)(fd := recv w fd @ d) \<and> inflow w' + length d \<le> inflow w"
    and "k_read K fd n w = (Err e, w') \<Longrightarrow> recv w' = recv w \<and> inflow w' \<le> inflow w"
    and "k_time K w = (t, w') \<Longrightarrow> recv w' = recv w \<and> inflow w' \<le> inflow w"
  using assms unfolding read_contract_def by blast+

text \<open>The last read said that the socket is empty, as edge-triggered notification requires.\<close>

definition would_block :: "'w kernel \<Rightarrow> int \<Rightarrow> 'w \<Rightarrow> bool" where
  "would_block K fd w' \<longleftrightarrow> (\<exists>w e. k_read K fd 4096 w = (Err e, w') \<and> e \<in> {EAGAIN, EWOULDBLOCK})"

definition drained_by :: "'w kernel \<Rightarrow> ('w \<Rightarrow> int \<Rightarrow> bytes) \<Rightarrow> connection \<Rightarrow> 'w \<Rightarrow> bool \<Rightarrow> connection \<Rightarrow> 'w \<Rightarrow> bool" where
  "drained_by K recv c w drained c' w' \<longleftrightarrow>
     (\<exists>d. c' = c\<lparr>inputBuffer := inputBuffer c @ d\<rparr> \<and> recv w' (sock_fd c) = recv w (sock_fd c) @ d)
     \<and> (drained \<longrightarrow> would_block K (sock_fd c) w')"

lemma read_loop_ok:
  assumes "read_contract K recv inflow" and "finite_eintr K fuel"
  shows "\<exists>drained c' w'. read_loop K c w = Some (drained, c', w') \<and> drained_by K recv c w drained c' w'
    \<and> length (inputBuffer c') + inflow w' \<le> length (inputBuffer c) + inflow w"
proof (induction "inflow w + fuel w" arbitrary: c w rule: less_induct)
  case less
  obtain r w1 where r: "k_read K (sock_fd c) 4096 w = (r, w1)" by fastforce
  note R = read_contractD [OF assms(1)]
  show ?case
  proof (cases r)
    case (Ret d)
    note d = R(1) [OF r [unfolded Ret]]
    show ?thesis
    proof (cases "d = []")
      case True
      with r Ret d show ?thesis by (subst read_loop.simps) (auto simp: drained_by_def)
    next
      case False
      let ?c = "c\<lparr>inputBuffer := inputBuffer c @ d\<rparr>"
      have "inflow w1 + fuel w1 < inflow w + fuel w"
        using d False finite_eintrD(5) [OF assms(2) r] by (cases d) auto
      from less.hyps [OF this, of ?c] obtain dr c' w' where
        "read_loop K ?c w1 = Some (dr, c', w')" "drained_by K recv ?c w1 dr c' w'"
        "length (inputBuffer c') + inflow w' \<le> length (inputBuffer ?c) + inflow w1" by blast
      with r Ret False d show ?thesis
        by (subst read_loop.simps) (auto simp: drained_by_def)
    qed
  next
    case (Err e)
    note e = R(2) [OF r [unfolded Err]]
    show ?thesis
    proof (cases "e = EINTR")
      case True
      have "inflow w1 + fuel w1 < inflow w + fuel w"
        using e finite_eintrD(6) [OF assms(2) r [unfolded Err True]] by auto
      from less.hyps [OF this, of c] r Err True e show ?thesis
        by (subst read_loop.simps) (auto simp: drained_by_def)
    next
      case False
      with r Err e show ?thesis by (subst read_loop.simps) (auto simp: drained_by_def would_block_def)
    qed
  qed
qed

subsection \<open>A kernel for concrete runs\<close>

text \<open>Input arrives in chunks, writes are accepted whole, there are no files.\<close>

record chat =
  chat_in :: "bytes list"
  chat_got :: "int \<Rightarrow> bytes"
  chat_sent :: "int \<Rightarrow> bytes"

definition chat_kernel :: "chat kernel" where
  "chat_kernel =
     \<lparr>k_write = (\<lambda>fd d w. (Ret (length d), w\<lparr>chat_sent := (chat_sent w)(fd := chat_sent w fd @ d)\<rparr>)),
      k_read = (\<lambda>fd n w.
        case chat_in w of
          [] \<Rightarrow> (Err EAGAIN, w)
        | d # ds \<Rightarrow>
            (Ret (take n d), w\<lparr>chat_in := ds, chat_got := (chat_got w)(fd := chat_got w fd @ take n d)\<rparr>)),
      k_sendfile = (\<lambda>fd f off cnt w. (Err EAGAIN, w)),
      k_epoll_ctl = (\<lambda>ep op fd ev w. (Ret (), w)),
      k_time = (\<lambda>w. (100, w)),
      k_open = (\<lambda>p w. (-1, w)),
      k_fstat = (\<lambda>fd w. (None, w)),
      k_close = (\<lambda>fd w. w)\<rparr>"

definition chat_inflow :: "chat \<Rightarrow> nat" where
  "chat_inflow w = length (concat (chat_in w))"

lemma chat_serving: "serving chat_kernel chat_sent (\<lambda>_. []) (\<lambda>w. 0)"
proof -
  have "finite_eintr chat_kernel (\<lambda>w. 0)"
    by (auto simp: finite_eintr_def chat_kernel_def split: list.splits)
  moreover have "stream_kernel chat_kernel chat_sent (\<lambda>_. [])"
    by (auto simp: stream_kernel_def write_accepts_def sendfile_accepts_def ctl_silent_def chat_kernel_def
        split: list.splits)
  ultimately show ?thesis by (simp add: serving_def fstat_contract_def chat_kernel_def)
qed

lemma chat_read: "read_contract chat_kernel chat_got chat_inflow"
  by (auto simp: read_contract_def chat_kernel_def chat_inflow_def split: list.splits)

lemma chat_peer_up: "peer_up chat_kernel"
  by (simp add: peer_up_def hard_failure_def chat_kernel_def)

definition chat_conn :: connection where
  "chat_conn = fst (connection_new chat_kernel 1 0 5 \<lparr>chat_in = [], chat_got = (\<lambda>_. []), chat_sent = (\<lambda>_. [])\<rparr>)"

definition chat_shared :: reactor_shared where
  "chat_shared = \<lparr>dbPool = pool_new 1, staticCache = static_cache_new, rateLimiter = \<lparr>windowSec = 0, win_count = 0\<rparr>\<rparr>"

definition chat_world :: "bytes list \<Rightarrow> chat" where
  "chat_world chunks = \<lparr>chat_in = chunks, chat_got = (\<lambda>_. []), chat_sent = (\<lambda>_. [])\<rparr>"

lemma chat_conn_fields [simp]:
  "inputBuffer chat_conn = []" "sock_fd chat_conn = 5" "wf_out file chat_conn" "pending file chat_conn = []"
  "fileFd chat_conn = -1"
  by (simp_all add: chat_conn_def connection_new_def wf_out_def pending_def file_part_def split: prod.split)

lemma chat_shared_ok: "shared_ok file chat_shared"
  by (simp add: shared_ok_def cache_ok_def chat_shared_def static_cache_new_def pool_new_def)

definition hello_message :: "bytes list \<times> bytes" where
  "hello_message = ([''GET /hello HTTP/1.1'', ''Host: h''], [])"

definition login_message :: "bytes list \<times> bytes" where
  "login_message = ([''POST /login HTTP/1.1'', ''Content-Length: 2''], ''{}'')"

lemma requestContentLength_absent:
  "list_all good_line ls \<Longrightarrow> header_lookup ls ''content-length'' = [] \<Longrightarrow> requestContentLength (join_crlf ls) = 0"
  by (simp add: requestContentLength_def findHeader_lookup lines_of_join)

lemma chat_messages: "sized_message hello_message" "sized_message login_message"
proof -
  have "requestContentLength (join_crlf [''GET /hello HTTP/1.1'', ''Host: h'']) = 0"
    by (rule requestContentLength_absent) (simp_all add: str_simps)
  then show "sized_message hello_message"
    by (simp add: sized_message_def hello_message_def good_line_def kMaxBodyBytes_def crlf_def)
  have "requestContentLength (join_crlf [''POST /login HTTP/1.1'', ''Content-Length: 2'']) = 2"
    by (rule requestContentLength_lines) (simp_all add: str_simps to_string.simps long_max_def)
  then show "sized_message login_message"
    by (simp add: sized_message_def login_message_def good_line_def kMaxBodyBytes_def crlf_def)
qed

subsection \<open>Properties\<close>

text \<open>
  C3: requests are served in order. The loop of \<open>processRequests\<close> is the same function as:
  split the buffer into requests first, then serve them one by one in that order, stopping
  at the first one that closes the connection; then deal with the incomplete rest.
\<close>

theorem processRequests_in_order:
  assumes "length (inputBuffer c) < 2 ^ 63"
  shows "processRequests K getenv c sh w = serve_in_order K getenv (requests_of (inputBuffer c)) c sh w"
  by (rule processRequests_serves [OF assms])

text \<open>Two pipelined messages in one buffer.\<close>

definition chat_stream :: bytes where
  "chat_stream = concat (map (\<lambda>(ls, body). http_message ls body) [hello_message, login_message])"

lemma requests_of_Nil: "requests_of [] = []"
  by (rule requests_of_none) (simp add: next_frame_def crlf2_def crlf_def)

lemma chat_stream_requests:
  "requests_of chat_stream = map (\<lambda>(ls, body). (join_crlf ls, http_message ls body)) [hello_message, login_message]"
  using requests_of_messages [of "[hello_message, login_message]" "[]"] chat_messages requests_of_Nil
  by (simp add: chat_stream_def)

lemma chat_stream_short: "length chat_stream < 2 ^ 63"
  by (simp add: chat_stream_def hello_message_def login_message_def crlf_def)

theorem processRequests_in_order_witness:
  "processRequests chat_kernel (\<lambda>_. None) (chat_conn\<lparr>inputBuffer := chat_stream\<rparr>) chat_shared (chat_world []) =
   serve_in_order chat_kernel (\<lambda>_. None)
     (map (\<lambda>(ls, body). (join_crlf ls, http_message ls body)) [hello_message, login_message])
     (chat_conn\<lparr>inputBuffer := chat_stream\<rparr>) chat_shared (chat_world [])"
  using processRequests_in_order [of "chat_conn\<lparr>inputBuffer := chat_stream\<rparr>" chat_kernel "\<lambda>_. None" chat_shared "chat_world []"]
    chat_stream_short chat_stream_requests by simp

text \<open>
  C28: the request loop is safe. Whatever requests are buffered and whatever the peer does, it
  returns, and while the DB pool runs no exception leaves it and the shared state stays in
  order; only where a write to the peer can fail for good does it touch a connection it has
  destroyed.
\<close>

theorem processRequests_safe:
  assumes "serving K sent file fuel" and "wf_out file c" and "shared_ok file sh"
    and "length (inputBuffer c) < 2 ^ 63"
  shows "\<exists>out sh' w'. processRequests K getenv c sh w = Some (out, sh', w') \<and> shared_ok file sh'
    \<and> (case out of
         Alive c' \<Rightarrow> wf_out file c' \<and> sock_fd c' = sock_fd c
       | Destroyed \<Rightarrow> True
       | UseAfterFree \<Rightarrow> \<not> peer_up K
       | Threw _ \<Rightarrow> False)"
proof -
  obtain out sh' w' where "processRequests K getenv c sh w = Some (out, sh', w')" "loop_ok K file c out" "shared_ok file sh'"
    using processRequests_ok [OF assms] by blast
  then show ?thesis by (cases out) (auto simp: loop_ok_def)
qed

theorem processRequests_safe_witness:
  "\<exists>out sh' w'. processRequests chat_kernel (\<lambda>_. None) (chat_conn\<lparr>inputBuffer := chat_stream\<rparr>) chat_shared (chat_world [])
     = Some (out, sh', w') \<and> (out = Destroyed \<or> (\<exists>c'. out = Alive c' \<and> sock_fd c' = 5))"
proof -
  have "wf_out (\<lambda>_. []) (chat_conn\<lparr>inputBuffer := chat_stream\<rparr>)"
    using chat_conn_fields(3) by (simp add: wf_out_def)
  from processRequests_safe [OF chat_serving this chat_shared_ok, of "\<lambda>_. None" "chat_world []"] chat_peer_up
  show ?thesis using chat_stream_short by (fastforce simp: chat_conn_fields split: outcome.splits)
qed

text \<open>
  C20: a read event is handled completely. \<open>handleMessage\<close> returns; unless it tears the
  connection down, it has read until the kernel reported an empty socket (so no edge is
  missed), and every byte received is appended to the input buffer in order before the
  requests in it are processed.
\<close>

theorem handleMessage_drains:
  assumes "serving K sent file fuel" and "read_contract K recv inflow"
    and "wf_out file c" and "shared_ok file sh" and "length (inputBuffer c) + inflow w < 2 ^ 63"
  shows "\<exists>out sh' w'. handleMessage K getenv c sh w = Some (out, sh', w') \<and> loop_ok K file c out \<and> shared_ok file sh'
    \<and> (out = Destroyed \<or> (\<exists>now d w1. would_block K (sock_fd c) w1 \<and> recv w1 (sock_fd c) = recv w (sock_fd c) @ d
          \<and> processRequests K getenv (c\<lparr>lastActiveSec := now, inputBuffer := inputBuffer c @ d\<rparr>) sh w1 = Some (out, sh', w')))"
proof -
  obtain now w0 where n: "k_time K w = (now, w0)" by fastforce
  note t = read_contractD(3) [OF assms(2) n]
  have fin: "finite_eintr K fuel" using assms(1) by (simp add: serving_def)
  obtain dr c1 w1 where r: "read_loop K (c\<lparr>lastActiveSec := now\<rparr>) w0 = Some (dr, c1, w1)"
    "drained_by K recv (c\<lparr>lastActiveSec := now\<rparr>) w0 dr c1 w1"
    "length (inputBuffer c1) + inflow w1 \<le> length (inputBuffer c) + inflow w0"
    using read_loop_ok [OF assms(2) fin, of "c\<lparr>lastActiveSec := now\<rparr>" w0] by auto
  then obtain d where c1: "c1 = c\<lparr>lastActiveSec := now, inputBuffer := inputBuffer c @ d\<rparr>"
    "recv w1 (sock_fd c) = recv w (sock_fd c) @ d" "dr \<longrightarrow> would_block K (sock_fd c) w1"
    using t by (auto simp: drained_by_def)
  show ?thesis
  proof (cases dr)
    case False
    with n r assms(4) show ?thesis by (simp add: handleMessage_def loop_ok_def)
  next
    case True
    have wf: "wf_out file c1" using assms(3) c1(1) by (simp add: wf_out_def)
    have "length (inputBuffer c1) < 2 ^ 63" using r(3) t assms(5) by simp
    from processRequests_ok [OF assms(1) wf assms(4) this, of getenv w1] obtain out sh' w' where
      p: "processRequests K getenv c1 sh w1 = Some (out, sh', w')" "loop_ok K file c1 out" "shared_ok file sh'" by blast
    have "loop_ok K file c out" using p(2) c1(1) by (simp add: loop_ok_def split: outcome.splits)
    moreover have "handleMessage K getenv c sh w = Some (out, sh', w')"
      using n r(1) p(1) True by (simp add: handleMessage_def)
    ultimately show ?thesis using p(1,3) c1 True by blast
  qed
qed

theorem handleMessage_drains_witness:
  "\<exists>out sh' w'. handleMessage chat_kernel (\<lambda>_. None) chat_conn chat_shared (chat_world [take 10 chat_stream, drop 10 chat_stream])
     = Some (out, sh', w') \<and> (\<forall>c'. out \<noteq> Threw c')"
proof -
  have "length (inputBuffer chat_conn) + chat_inflow (chat_world [take 10 chat_stream, drop 10 chat_stream]) < 2 ^ 63"
    using chat_stream_short by (simp add: chat_inflow_def chat_world_def)
  from handleMessage_drains [OF chat_serving chat_read chat_conn_fields(3) chat_shared_ok this, of "\<lambda>_. None"]
  show ?thesis by (fastforce simp: loop_ok_def)
qed

text \<open>
  Inline routes. A request that is not a database route and not the root page, on a
  connection with nothing left to send, is answered with exactly one page: 200 with the
  hello page for \<open>/hello\<close>, 404 for every other path, with the negotiated persistence; what
  the socket has not accepted yet stays pending, and nothing else changes.
\<close>

theorem inline_request_answered:
  fixes K :: "'w kernel"
  assumes "stream_kernel K sent file" and "pending file c = []" and "wf_out file c"
    and "dbHandler (parseMethod r) (parseUrl r) = (None :: 'w db_handler_fn option)" and "parseUrl r \<noteq> ''/''"
    and "serveRequest K getenv h r c sh w = Some (out, sh', w')"
  shows "sh' = sh \<and>
    ((\<exists>c'. out = Alive c' \<and> conn_inv file c' \<and> same_input c c' \<and> delivers sent (sock_fd c)
        (buildHttpResponse (if parseUrl r = ''/hello'' then 200 else 404) ''text/html'' (getResponse (parseUrl r))
           (wantKeepAlive r h)) w (pending file c') w')
     \<or> out = Destroyed \<and> (\<exists>rest. delivers sent (sock_fd c)
        (buildHttpResponse (if parseUrl r = ''/hello'' then 200 else 404) ''text/html'' (getResponse (parseUrl r))
           (wantKeepAlive r h)) w rest w' \<and> (peer_up K \<longrightarrow> rest = [] \<and> \<not> wantKeepAlive r h)))"
proof -
  have "admit K (rateLimiter sh) w = (True, rateLimiter sh, w)" by (simp add: admit_def kRateLimitQps_def)
  with assms(4-6) have s: "sh' = sh" "sendResponse K c (if parseUrl r = ''/hello'' then 200 else 404) ''text/html''
      (getResponse (parseUrl r)) (wantKeepAlive r h) w = Some (out, w')"
    by (auto simp: serveRequest_def serveInline_def servePage_def Let_def)
  have "fileFd c \<ge> 0 \<longrightarrow> fileOffset c + fileRemaining c \<le> length (file (fileFd c))"
    using assms(3) by (simp add: wf_out_def)
  from sendResponse_after [OF assms(1,2) this s(2)] s(1) show ?thesis
    by (auto simp: same_input_def)
qed

definition hello_headers :: bytes where
  "hello_headers = join_crlf [''GET /hello HTTP/1.1'', ''Host: h'']"

definition hello_request :: bytes where
  "hello_request = http_message [''GET /hello HTTP/1.1'', ''Host: h''] []"

lemma hello_request_parsed:
  "parseMethod hello_request = ''GET''" "parseUrl hello_request = ''/hello''"
  "wantKeepAlive hello_request hello_headers"
proof -
  have "lines_of hello_headers = [''GET /hello HTTP/1.1'', ''Host: h'']"
    unfolding hello_headers_def by (rule lines_of_join) (simp add: good_line_def)
  then have "findHeader hello_headers ''connection'' = []" by (simp add: findHeader_lookup str_simps)
  then show "wantKeepAlive hello_request hello_headers"
    by (simp add: wantKeepAlive_def hello_request_def http_message_def crlf_def crlf2_def)
qed (simp_all add: parseMethod_def parseUrl_def hello_request_def http_message_def crlf_def crlf2_def
    str_find_from_def substr_def)

theorem inline_request_answered_witness:
  "\<exists>out w'. serveRequest chat_kernel (\<lambda>_. None) hello_headers hello_request
      chat_conn chat_shared (chat_world []) = Some (out, chat_shared, w')
    \<and> (\<exists>c'. out = Alive c' \<and> delivers chat_sent 5
        (buildHttpResponse 200 ''text/html'' (getResponse ''/hello'') True) (chat_world []) (pending (\<lambda>_. []) c') w')"
proof -
  have k: "stream_kernel chat_kernel chat_sent (\<lambda>_. [])" using chat_serving by (simp add: serving_def)
  obtain out sh' w' where s: "serveRequest chat_kernel (\<lambda>_. None) hello_headers
      hello_request chat_conn chat_shared (chat_world []) = Some (out, sh', w')"
    using serveRequest_served [OF chat_serving chat_conn_fields(3) chat_shared_ok] by blast
  have "dbHandler (parseMethod hello_request) (parseUrl hello_request) = (None :: chat db_handler_fn option)"
    by (simp add: hello_request_parsed dbHandler_def)
  from inline_request_answered [OF k chat_conn_fields(4,3) this _ s] s chat_peer_up show ?thesis
    by (auto simp: hello_request_parsed)
qed

subsection \<open>Where the code departs from its comments\<close>

text \<open>
  A response to a keep-alive request that hits a hard write error (the peer reset the
  connection) destroys the connection inside \<open>sendResponse\<close>, and the loop goes on to read
  \<open>inputBuffer_\<close>: use after free. The comment above \<open>processRequests\<close> only considers
  responses that close.
\<close>

definition reset_kernel :: "chat kernel" where
  "reset_kernel = chat_kernel\<lparr>k_write := (\<lambda>fd d w. (Err (EOther 104), w))\<rparr>"

lemma reset_during_keep_alive_is_use_after_free:
  "processRequests reset_kernel (\<lambda>_. None) (chat_conn\<lparr>inputBuffer := hello_request\<rparr>) chat_shared w =
     Some (UseAfterFree, chat_shared, w)"
proof -
  have f: "next_frame hello_request = Framed hello_headers hello_request []"
    using next_frame_message [of "[''GET /hello HTTP/1.1'', ''Host: h'']" "[]" "[]"] chat_messages(1)
    by (simp add: sized_message_def hello_message_def hello_headers_def hello_request_def)
  have ne: "buildHttpResponse st ct b ka \<noteq> []" for st ct b ka by (simp add: buildHttpResponse_def)
  have "sendResponse reset_kernel c 200 ''text/html'' (getResponse ''/hello'') True v = Some (Destroyed, v)" for c v
    by (simp add: sendResponse_def writeFromBuffer_def drain_buf.simps ne reset_kernel_def)
  then have "serveRequest reset_kernel (\<lambda>_. None) hello_headers hello_request c sh w =
      Some (Destroyed, sh, w)" for c sh
    using hello_request_parsed
    by (simp add: serveRequest_def admit_def kRateLimitQps_def dbHandler_def serveInline_def servePage_def)
  with f hello_request_parsed(3) show ?thesis by (subst processRequests_step) simp
qed

text \<open>
  A database request with \<^verbatim>\<open>Connection: close\<close> is announced as closing in its response, but the
  reactor neither closes the connection nor marks it for closing: it stays as it was.
\<close>

lemma closing_db_request_left_open:
  fixes K :: "'w kernel"
  assumes "dbHandler (parseMethod r) (parseUrl r) = Some (handler :: 'w db_handler_fn)"
    and "serveRequest K getenv h r c sh w = Some (out, sh', w')"
  shows "out = Alive c \<or> out = Threw c"
  using assms
  by (auto simp: serveRequest_def admit_def kRateLimitQps_def split: option.splits sum.splits prod.splits)

end
