(* ===== verification/ConnFrame.thy ===== *)
theory ConnFrame
  imports ConnLoop
begin

section \<open>What the callbacks of a connection leave alone\<close>

text \<open>
  A frame rule for everything \<open>handleMessage\<close> and \<open>handleWrite\<close> do: a relation between
  worlds that each system call respects holds across the whole callback, and a connection
  that survives keeps its descriptor, reactor, address, callbacks and the events it is
  registered for besides writability. The server's invariants rest on it.
\<close>

text \<open>The identity of a connection, which nothing changes after construction.\<close>

definition conn_id ::
    "connection \<Rightarrow> int \<times> nat \<times> nat \<times> int \<times> callback option \<times> callback option \<times> evmask" where
  "conn_id c = (sock_fd c, ch_addr (conn_channel c), ch_loop (conn_channel c), ch_fd (conn_channel c),
     read_callback (conn_channel c), write_callback (conn_channel c), ch_events (conn_channel c) AND NOT EPOLLOUT)"

text \<open>
  A relation between worlds that every system call of a connection respects, when its epoll
  calls are about its own descriptor, reactor and address; opening and closing the static
  file is taken together.
\<close>

definition kernel_moves :: "'w kernel \<Rightarrow> nat \<Rightarrow> int \<Rightarrow> nat \<Rightarrow> ('w \<Rightarrow> 'w \<Rightarrow> bool) \<Rightarrow> bool" where
  "kernel_moves K l f a Q \<longleftrightarrow>
     (\<forall>w. Q w w) \<and> (\<forall>w w1 w2. Q w w1 \<longrightarrow> Q w1 w2 \<longrightarrow> Q w w2)
     \<and> (\<forall>fd d w r w'. k_write K fd d w = (r, w') \<longrightarrow> Q w w')
     \<and> (\<forall>fd n w r w'. k_read K fd n w = (r, w') \<longrightarrow> Q w w')
     \<and> (\<forall>fd f off cnt w r w'. k_sendfile K fd f off cnt w = (r, w') \<longrightarrow> Q w w')
     \<and> (\<forall>op ev w r w'. ev_ptr ev = a \<longrightarrow> k_epoll_ctl K l op f ev w = (r, w') \<longrightarrow> Q w w')
     \<and> (\<forall>w t w'. k_time K w = (t, w') \<longrightarrow> Q w w')
     \<and> (\<forall>path sc w sc' w'. open_static K path sc w = (sc', w') \<longrightarrow> Q w w')"

lemma kernel_movesD:
  assumes "kernel_moves K l f a Q"
  shows "Q w w" and "Q w w1 \<Longrightarrow> Q w1 w2 \<Longrightarrow> Q w w2"
    and "k_write K fd d w = (n, w') \<Longrightarrow> Q w w'"
    and "k_read K fd m w = (b, w') \<Longrightarrow> Q w w'"
    and "k_sendfile K fd g off cnt w = (n, w') \<Longrightarrow> Q w w'"
    and "ev_ptr ev = a \<Longrightarrow> k_epoll_ctl K l op f ev w = (u, w') \<Longrightarrow> Q w w'"
    and "k_time K w = (t, w') \<Longrightarrow> Q w w'"
    and "open_static K path sc w = (sc', w') \<Longrightarrow> Q w w'"
  using assms unfolding kernel_moves_def by metis+

text \<open>The relation holds across a call on \<open>c\<close>, which keeps its identity when it survives.\<close>

definition keeps :: "'w kernel \<Rightarrow> ('w \<Rightarrow> 'w \<Rightarrow> bool) \<Rightarrow> connection \<Rightarrow> bool" where
  "keeps K Q c \<longleftrightarrow>
     kernel_moves K (ch_loop (conn_channel c)) (ch_fd (conn_channel c)) (ch_addr (conn_channel c)) Q"

definition kept :: "('w \<Rightarrow> 'w \<Rightarrow> bool) \<Rightarrow> connection \<Rightarrow> 'w \<Rightarrow> outcome \<Rightarrow> 'w \<Rightarrow> bool" where
  "kept Q c w out w' \<longleftrightarrow> Q w w' \<and> (\<forall>c'. out = Alive c' \<longrightarrow> conn_id c' = conn_id c)"

lemma keeps_cong: "conn_id c' = conn_id c \<Longrightarrow> keeps K Q c' = keeps K Q c"
  by (simp add: keeps_def conn_id_def)

lemma kept_trans:
  assumes "keeps K Q c" and "Q w w1" and "conn_id c1 = conn_id c" and "kept Q c1 w1 out w2"
  shows "kept Q c w out w2"
  using assms kernel_movesD(2) [OF assms(1) [unfolded keeps_def]] unfolding kept_def by metis

lemma updateChannel_moves:
  assumes "kernel_moves K (ch_loop ch) (ch_fd ch) (ch_addr ch) Q" and "updateChannel K ch w = (ch', w')"
  shows "Q w w'"
proof -
  note ctl = kernel_movesD(6) [OF assms(1)] and trans = kernel_movesD(2) [OF assms(1)]
  let ?ev = "\<lparr>ev_events = ch_events ch, ev_ptr = ch_addr ch\<rparr>"
  obtain r w1 where add: "k_epoll_ctl K (ch_loop ch) CtlAdd (ch_fd ch) ?ev w = (r, w1)" by fastforce
  obtain r2 w2 where mod: "k_epoll_ctl K (ch_loop ch) CtlMod (ch_fd ch) ?ev w1 = (r2, w2)" by fastforce
  obtain r3 w3 where reg: "k_epoll_ctl K (ch_loop ch) CtlMod (ch_fd ch) ?ev w = (r3, w3)" by fastforce
  have q: "Q w w1" "Q w1 w2" "Q w w3" using ctl [OF _ add] ctl [OF _ mod] ctl [OF _ reg] by simp_all
  have "w' \<in> {w1, w2, w3}" using assms(2) add mod reg by (auto simp: updateChannel_def Let_def split: if_splits)
  with q trans [OF q(1,2)] show ?thesis by auto
qed

lemma drain_kept:
  assumes "keeps K Q c"
  shows "drain_buf K c w = Some (d, c', w') \<Longrightarrow> Q w w' \<and> conn_id c' = conn_id c"
    and "drain_file K c w = Some (d, c', w') \<Longrightarrow> Q w w' \<and> conn_id c' = conn_id c"
proof -
  note Q = kernel_movesD [OF assms [unfolded keeps_def]]
  show "drain_buf K c w = Some (d, c', w') \<Longrightarrow> Q w w' \<and> conn_id c' = conn_id c"
    by (drule bufloop.run_rule [where I = "\<lambda>x v. Q w v \<and> conn_id x = conn_id c"])
      (auto simp: conn_id_def intro: Q(1,2) dest: Q(3))
  show "drain_file K c w = Some (d, c', w') \<Longrightarrow> Q w w' \<and> conn_id c' = conn_id c"
    by (drule fileloop.run_rule [where I = "\<lambda>x v. Q w v \<and> conn_id x = conn_id c"])
      (auto simp: conn_id_def intro: Q(1,2) dest: Q(5))
qed

text \<open>Changing the mask of a channel and telling epoll.\<close>

lemma channel_kept:
  assumes "keeps K Q c"
  shows "enableWriting K (conn_channel c) w = (ch, w') \<Longrightarrow> Q w w' \<and> conn_id (c\<lparr>conn_channel := ch\<rparr>) = conn_id c"
    and "disableWriting K (conn_channel c) w = (ch, w') \<Longrightarrow> Q w w' \<and> conn_id (c\<lparr>conn_channel := ch\<rparr>) = conn_id c"
proof -
  have *: "Q w w' \<and> conn_id (c\<lparr>conn_channel := ch\<rparr>) = conn_id c"
    if "updateChannel K (conn_channel c\<lparr>ch_events := e\<rparr>) w = (ch, w')"
      and "e AND NOT EPOLLOUT = ch_events (conn_channel c) AND NOT EPOLLOUT" for e
  proof -
    have "ch = conn_channel c\<lparr>ch_events := e, inEpoll := True\<rparr>"
      using updateChannel_fields [of K "conn_channel c\<lparr>ch_events := e\<rparr>" w] that(1) by simp
    with updateChannel_moves [OF _ that(1), of Q] assms that(2) show ?thesis by (simp add: keeps_def conn_id_def)
  qed
  show "enableWriting K (conn_channel c) w = (ch, w') \<Longrightarrow> Q w w' \<and> conn_id (c\<lparr>conn_channel := ch\<rparr>) = conn_id c"
    and "disableWriting K (conn_channel c) w = (ch, w') \<Longrightarrow> Q w w' \<and> conn_id (c\<lparr>conn_channel := ch\<rparr>) = conn_id c"
    by (simp_all add: enableWriting_def disableWriting_def * bit.conj_disj_distrib2 and.assoc)
qed

lemma writeFromBuffer_kept:
  assumes "keeps K Q c" and "writeFromBuffer K c w = Some (out, w')"
  shows "kept Q c w out w'"
proof -
  note trans = kernel_movesD(2) [OF assms(1) [unfolded keeps_def]]
  from assms(2) obtain d c1 w1 where b: "drain_buf K c w = Some (d, c1, w1)"
    by (auto simp: writeFromBuffer_def split: option.splits)
  note b' = drain_kept(1) [OF assms(1) b]
  then have k1: "keeps K Q c1" using assms(1) keeps_cong by blast
  have en: "kept Q c w (fst r) (snd r)" if "keeps K Q x" "Q w v" "conn_id x = conn_id c" "r = conn_enableWriting K x v" for x v r
    using channel_kept(1) [OF that(1), of v] that trans
    by (auto simp: kept_def conn_enableWriting_def split: prod.splits)
  show ?thesis
  proof (cases "d = Drained")
    case False
    with assms(2) b b' en [OF k1, of w1] show ?thesis
      by (cases d) (auto simp: writeFromBuffer_def kept_def)
  next
    case True
    with assms(2) b obtain d2 c2 w2 where f: "drain_file K c1 w1 = Some (d2, c2, w2)"
      by (auto simp: writeFromBuffer_def split: option.splits)
    note f' = drain_kept(2) [OF k1 f]
    then have k2: "keeps K Q c2" using k1 keeps_cong by blast
    have w2: "Q w w2" "conn_id c2 = conn_id c" using b' f' trans by auto
    obtain ch w3 where ch: "disableWriting K (conn_channel c2) w2 = (ch, w3)" by fastforce
    have "Q w w3" "conn_id (c2\<lparr>conn_channel := ch\<rparr>) = conn_id c"
      using channel_kept(2) [OF k2 ch] w2 trans by auto
    then have "Q w w3" "conn_id (c2\<lparr>fileFd := -1, writeBuf := [], writeIndex := 0, conn_channel := ch\<rparr>) = conn_id c"
      by (simp_all add: conn_id_def)
    with True assms(2) b f ch w2 en [OF k2, of w2] show ?thesis
      by (cases d2) (auto simp: writeFromBuffer_def kept_def split: if_splits)
  qed
qed


lemma sendResponse_kept:
  assumes "keeps K Q c" and "sendResponse K c st ct body ka w = Some (out, w')"
  shows "kept Q c w out w'"
proof -
  let ?c = "c\<lparr>writeBuf := buildHttpResponse st ct body ka, writeIndex := 0, closeAfterWrite := \<not> ka\<rparr>"
  have id: "conn_id ?c = conn_id c" by (simp add: conn_id_def)
  have "kept Q ?c w out w'"
    using writeFromBuffer_kept [OF _ assms(2) [unfolded sendResponse_def]] assms(1) keeps_cong [OF id] by blast
  then show ?thesis using id by (simp add: kept_def)
qed

lemma sendFile_kept:
  assumes "keeps K Q c" and "sendFile K c st ct path ka sc w = Some (res, sc', w')"
  shows "case res of Some out \<Rightarrow> kept Q c w out w' | None \<Rightarrow> Q w w'"
proof -
  note Q = kernel_movesD [OF assms(1) [unfolded keeps_def]]
  obtain got sc1 w1 where g: "getStaticFd K path sc w = (got, sc1, w1)" by (metis prod.exhaust)
  have q1: "Q w w1"
    using g Q(1) [of w] Q(8) [of path sc w] by (auto simp: getStaticFd_def split: if_splits prod.splits)
  show ?thesis
  proof (cases got)
    case None
    with assms(2) g q1 show ?thesis by (simp add: sendFile_def)
  next
    case (Some x)
    obtain fd sz where x: "x = (fd, sz)" by fastforce
    let ?c = "c\<lparr>writeBuf := fileHeader st ct sz ka, writeIndex := 0, closeAfterWrite := \<not> ka,
      fileFd := fd, fileOffset := 0, fileRemaining := sz\<rparr>"
    have id: "conn_id ?c = conn_id c" by (simp add: conn_id_def)
    have "\<exists>out. res = Some out \<and> writeFromBuffer K ?c w1 = Some (out, w')"
      using assms(2) g Some x by (auto simp: sendFile_def split: option.splits)
    then obtain out where out: "res = Some out" "writeFromBuffer K ?c w1 = Some (out, w')" by blast
    have "kept Q ?c w1 out w'"
      using writeFromBuffer_kept [OF _ out(2), of Q] assms(1) keeps_cong [OF id] by blast
    with kept_trans [OF assms(1) q1 id] out(1) show ?thesis by simp
  qed
qed

lemma sendJson_moves:
  assumes "keeps K Q c" and "sendJson K fd st body ka w = Some w'"
  shows "Q w w'"
proof -
  note Q = kernel_movesD [OF assms(1) [unfolded keeps_def]]
  from assms(2) obtain d n where "send_loop K fd (buildHttpResponse st ''application/json'' body ka) 0 w = Some (d, n, w')"
    by (auto simp: sendJson_def sendHttpResponse_def split: option.splits)
  from sendloop.run_rule [OF this, where I = "\<lambda>x v. Q w v"] show ?thesis
    using Q(1,2,3) by blast
qed

lemma db_handler_moves:
  assumes "keeps K Q c" and "dbHandler m u = Some h" and "h K r fd ka pool w = Some (res, w')"
  shows "Q w w'"
proof -
  have "h \<in> {handleRegister, handleLogin, handleProfile, handleLogout}"
    using assms(2) by (auto simp: dbHandler_def split: if_splits)
  then have "w' = w \<or> (\<exists>st body. sendJson K fd st body ka w = Some w')"
    using assms(3) by (elim insertE emptyE)
      (blast dest: registerh.handler_sends loginh.handler_sends profileh.handler_sends logouth.handler_sends)+
  with sendJson_moves [OF assms(1)] kernel_movesD(1) [OF assms(1) [unfolded keeps_def]] show ?thesis by blast
qed

lemma servePage_kept:
  assumes "keeps K Q c" and "servePage K c url ka sh w = Some (out, sh', w')"
  shows "kept Q c w out w'"
  using assms(2) sendResponse_kept [OF assms(1)] by (auto simp: servePage_def)

lemma serveInline_kept:
  assumes "keeps K Q c" and "serveInline K getenv c url ka sh w = Some (out, sh', w')"
  shows "kept Q c w out w'"
proof (cases "url = ''/''")
  case False
  with assms servePage_kept show ?thesis by (fastforce simp: serveInline_def)
next
  case True
  from True assms(2) obtain res sc w1 where f:
    "sendFile K c 200 ''text/html'' (staticDir getenv @ ''/index.html'') ka (staticCache sh) w = Some (res, sc, w1)"
    by (auto simp: serveInline_def split: option.splits)
  show ?thesis
  proof (cases res)
    case (Some o1)
    with True assms(2) f sendFile_kept [OF assms(1) f] show ?thesis by (auto simp: serveInline_def)
  next
    case None
    then have "servePage K c url ka (sh\<lparr>staticCache := sc\<rparr>) w1 = Some (out, sh', w')"
      using True assms(2) f by (simp add: serveInline_def)
    from servePage_kept [OF assms(1) this] sendFile_kept [OF assms(1) f] None kept_trans [OF assms(1)]
    show ?thesis by auto
  qed
qed

lemma serveRequest_kept:
  assumes "keeps K Q c" and "serveRequest K getenv h r c sh w = Some (out, sh', w')"
  shows "kept Q c w out w'"
proof -
  note Q = kernel_movesD [OF assms(1) [unfolded keeps_def]]
  obtain ok lim w1 where a: "admit K (rateLimiter sh) w = (ok, lim, w1)" by (metis prod.exhaust)
  have q1: "Q w w1" using a Q(1) [of w] Q(7) [of w] by (auto simp: admit_def split: if_splits prod.splits)
  have "kept Q c w1 out w'"
  proof (cases ok)
    case False
    with assms(2) a sendResponse_kept [OF assms(1)] show ?thesis by (auto simp: serveRequest_def Let_def)
  next
    case True
    show ?thesis
    proof (cases "dbHandler (parseMethod r) (parseUrl r) :: 'a db_handler_fn option")
      case None
      with assms(2) a True serveInline_kept [OF assms(1)] show ?thesis by (auto simp: serveRequest_def Let_def)
    next
      case (Some hd)
      with assms(2) a True db_handler_moves [OF assms(1) Some] show ?thesis
        by (auto simp: serveRequest_def Let_def kept_def split: option.splits sum.splits)
    qed
  qed
  with kept_trans [OF assms(1) q1] show ?thesis by blast
qed

lemma end_of_input_kept:
  assumes "keeps K Q c" and "end_of_input K c sh w = Some (out, sh', w')"
  shows "kept Q c w out w'"
proof -
  let ?c = "c\<lparr>inputBuffer := []\<rparr>"
  have id: "conn_id ?c = conn_id c" by (simp add: conn_id_def)
  have "kept Q ?c w o1 w1 \<Longrightarrow> kept Q c w o1 w1" for o1 w1 using id by (simp add: kept_def)
  moreover have "kept Q c w (Alive c) w" by (simp add: kept_def kernel_movesD(1) [OF assms(1) [unfolded keeps_def]])
  moreover have "keeps K Q ?c" using assms(1) keeps_cong [OF id] by blast
  ultimately show ?thesis
    using assms(2) sendResponse_kept [of K Q ?c] by (auto simp: end_of_input_def split: frame.splits)
qed

text \<open>One turn of the request loop, with the rest of the loop as a parameter.\<close>

definition request_turn ::
    "'w kernel \<Rightarrow> environ \<Rightarrow> (connection \<Rightarrow> reactor_shared \<Rightarrow> 'w \<Rightarrow> (outcome \<times> reactor_shared \<times> 'w) option)
     \<Rightarrow> connection \<Rightarrow> reactor_shared \<Rightarrow> 'w \<Rightarrow> (outcome \<times> reactor_shared \<times> 'w) option" where
  "request_turn K getenv loop c sh w =
     (case next_frame (inputBuffer c) of
        Framed headers request rest \<Rightarrow>
          (case serveRequest K getenv headers request (c\<lparr>inputBuffer := rest\<rparr>) sh w of
             None \<Rightarrow> None
           | Some (Alive c1, sh1, w1) \<Rightarrow>
               if wantKeepAlive request headers then loop c1 sh1 w1 else Some (Alive c1, sh1, w1)
           | Some (Destroyed, sh1, w1) \<Rightarrow>
               Some (if wantKeepAlive request headers then UseAfterFree else Destroyed, sh1, w1)
           | Some r \<Rightarrow> Some r)
      | _ \<Rightarrow> end_of_input K c sh w)"

lemma processRequests_induct:
  assumes "processRequests K getenv c sh w = Some r"
    and "\<And>f c sh w r. \<lbrakk>\<And>c sh w r. f c sh w = Some r \<Longrightarrow> P c sh w r; request_turn K getenv f c sh w = Some r\<rbrakk> \<Longrightarrow> P c sh w r"
  shows "P c sh w r"
proof -
  let ?P = "\<lambda>K' getenv' c sh w r. K' = K \<and> getenv' = getenv \<longrightarrow> P c sh w r"
  have "?P K getenv c sh w r"
  proof (rule processRequests.raw_induct [where P = ?P, OF _ assms(1)], intro impI, elim conjE, goal_cases)
    case (1 f K' getenv' c sh w r)
    show ?case
    proof (rule assms(2) [of "f K getenv"])
      show "P c sh w r" if "f K getenv c sh w = Some r" for c sh w r using 1(1) [OF that] by simp
      show "request_turn K getenv (f K getenv) c sh w = Some r"
        using 1(2-) by (auto simp: request_turn_def end_of_input_def split: frame.splits option.splits outcome.splits if_splits)
    qed
  qed
  then show ?thesis by simp
qed

lemma request_turn_kept:
  assumes "keeps K Q c" and "request_turn K getenv f c sh w = Some r"
    and IH: "\<And>c sh w r. f c sh w = Some r \<Longrightarrow> keeps K Q c \<Longrightarrow> kept Q c w (fst r) (snd (snd r))"
  shows "kept Q c w (fst r) (snd (snd r))"
proof (cases "\<exists>h q rest. next_frame (inputBuffer c) = Framed h q rest")
  case False
  then have "end_of_input K c sh w = Some r"
    using assms(2) by (cases "next_frame (inputBuffer c)") (auto simp: request_turn_def)
  with end_of_input_kept [OF assms(1)] show ?thesis by (cases r) auto
next
  case True
  then obtain h q rest where fr: "next_frame (inputBuffer c) = Framed h q rest" by blast
  let ?c = "c\<lparr>inputBuffer := rest\<rparr>"
  have id: "conn_id ?c = conn_id c" by (simp add: conn_id_def)
  have k': "keeps K Q ?c" using assms(1) keeps_cong [OF id] by blast
  from assms(2) fr obtain o1 sh1 w1 where s: "serveRequest K getenv h q ?c sh w = Some (o1, sh1, w1)"
    by (auto simp: request_turn_def split: option.splits)
  have s': "kept Q c w o1 w1" using serveRequest_kept [OF k' s] id by (simp add: kept_def)
  show ?thesis
  proof (cases "\<exists>c1. o1 = Alive c1 \<and> wantKeepAlive q h")
    case True
    then obtain c1 where c1: "o1 = Alive c1" "wantKeepAlive q h" by blast
    with s' have id1: "conn_id c1 = conn_id c" "Q w w1" by (simp_all add: kept_def)
    from assms(2) fr s c1 have "f c1 sh1 w1 = Some r" by (simp add: request_turn_def)
    with IH keeps_cong [OF id1(1)] assms(1) have "kept Q c1 w1 (fst r) (snd (snd r))" by blast
    with kept_trans [OF assms(1) id1(2,1)] show ?thesis by blast
  next
    case False
    with assms(2) fr s s' show ?thesis by (cases o1) (auto simp: request_turn_def kept_def split: if_splits)
  qed
qed

lemma processRequests_kept:
  assumes "keeps K Q c" and "processRequests K getenv c sh w = Some (out, sh', w')"
  shows "kept Q c w out w'"
proof -
  have "keeps K Q c \<longrightarrow> kept Q c w (fst (out, sh', w')) (snd (snd (out, sh', w')))"
    by (rule processRequests_induct [OF assms(2)]) (blast intro: request_turn_kept)
  with assms(1) show ?thesis by simp
qed

lemma read_loop_kept:
  assumes "keeps K Q c" and "read_loop K c w = Some (b, c', w')"
  shows "Q w w' \<and> conn_id c' = conn_id c"
proof -
  have "keeps K Q c \<longrightarrow> Q w (snd (snd r)) \<and> conn_id (fst (snd r)) = conn_id c" if "read_loop K c w = Some r" for r
  proof (rule read_loop.raw_induct
      [where P = "\<lambda>K c w r. keeps K Q c \<longrightarrow> Q w (snd (snd r)) \<and> conn_id (fst (snd r)) = conn_id c", OF _ that])
    fix f :: "'a kernel \<Rightarrow> connection \<Rightarrow> 'a \<Rightarrow> _" and K c w r
    assume IH: "\<And>K c w r. f K c w = Some r \<Longrightarrow> keeps K Q c \<longrightarrow> Q w (snd (snd r)) \<and> conn_id (fst (snd r)) = conn_id c"
      and eq: "(case k_read K (sock_fd c) 4096 w of
        (r, w') \<Rightarrow>
          (case r of
             Ret d \<Rightarrow> if d \<noteq> [] then f K (c\<lparr>inputBuffer := inputBuffer c @ d\<rparr>) w' else Some (False, c, w')
           | Err e \<Rightarrow> if e = EINTR then f K c w' else Some (e = EAGAIN \<or> e = EWOULDBLOCK, c, w'))) = Some r"
    show "keeps K Q c \<longrightarrow> Q w (snd (snd r)) \<and> conn_id (fst (snd r)) = conn_id c"
    proof
      assume k: "keeps K Q c"
      note Q = kernel_movesD [OF k [unfolded keeps_def]]
      obtain a w1 where a: "k_read K (sock_fd c) 4096 w = (a, w1)" by fastforce
      have id: "conn_id (c\<lparr>inputBuffer := d\<rparr>) = conn_id c" for d by (simp add: conn_id_def)
      have IH': "f K x w1 = Some r \<Longrightarrow> conn_id x = conn_id c \<Longrightarrow> Q w (snd (snd r)) \<and> conn_id (fst (snd r)) = conn_id c" for x
        using IH [of K x w1 r] keeps_cong [of x c K Q] k Q(4) [OF a] Q(2) by metis
      from eq a Q(4) [OF a] IH' [of c] IH' [of "c\<lparr>inputBuffer := inputBuffer c @ d\<rparr>" for d] id show
        "Q w (snd (snd r)) \<and> conn_id (fst (snd r)) = conn_id c"
        by (auto split: sysret.splits if_splits)
    qed
  qed
  from this [OF assms(2)] assms(1) show ?thesis by simp
qed

lemma handleMessage_kept:
  assumes "keeps K Q c" and "handleMessage K getenv c sh w = Some (out, sh', w')"
  shows "kept Q c w out w'"
proof -
  note Q = kernel_movesD [OF assms(1) [unfolded keeps_def]]
  obtain now w0 where t: "k_time K w = (now, w0)" by fastforce
  let ?c = "c\<lparr>lastActiveSec := now\<rparr>"
  have id: "conn_id ?c = conn_id c" by (simp add: conn_id_def)
  from assms(2) t obtain b c1 w1 where r: "read_loop K ?c w0 = Some (b, c1, w1)"
    by (auto simp: handleMessage_def split: option.splits)
  have "keeps K Q ?c" using assms(1) keeps_cong [OF id] by blast
  with read_loop_kept [OF _ r] id Q(7) [OF t] Q(2) have r': "Q w w1" "conn_id c1 = conn_id c" by auto
  show ?thesis
  proof (cases b)
    case True
    then have "processRequests K getenv c1 sh w1 = Some (out, sh', w')"
      using assms(2) t r by (simp add: handleMessage_def)
    with processRequests_kept [of K Q c1] keeps_cong [OF r'(2)] assms(1) have "kept Q c1 w1 out w'" by blast
    with kept_trans [OF assms(1) r'] show ?thesis by blast
  next
    case False
    with assms(2) t r r' show ?thesis by (simp add: handleMessage_def kept_def)
  qed
qed

lemma handleWrite_kept:
  assumes "keeps K Q c" and "handleWrite K c w = Some (out, w')"
  shows "kept Q c w out w'"
  using assms writeFromBuffer_kept [OF assms(1)] channel_kept(2) [OF assms(1), of w]
  by (auto simp: handleWrite_def kept_def split: if_splits prod.splits)

end
