(* ===== verification/ConnSubmit.thy ===== *)
theory ConnSubmit
  imports ConnFrame
begin

section \<open>The tasks a connection submits\<close>

text \<open>
  What a callback of a connection does to the DB pool, whatever bytes a client sends: it
  appends tasks for its own socket whose strings passed the checks of the handlers and are
  made of bytes that were read. \<open>A\<close> is the set of bytes that clients send.
\<close>

fun task_name :: "db_task \<Rightarrow> bytes" where
  "task_name (RegisterTask fd ka u q) = u"
| "task_name (LoginTask fd ka u q) = u"
| "task_name _ = []"

definition task_from :: "char set \<Rightarrow> int \<Rightarrow> db_task \<Rightarrow> bool" where
  "task_from A fd t \<longleftrightarrow> task_fits t \<and> task_fd t = fd \<and> set (task_name t) \<subseteq> A"

definition pool_grows :: "(db_task \<Rightarrow> bool) \<Rightarrow> db_task thread_pool \<Rightarrow> db_task thread_pool \<Rightarrow> bool" where
  "pool_grows P p p' \<longleftrightarrow>
     threads p' = threads p \<and> stop p' = stop p \<and> (\<exists>new. tasks p' = tasks p @ new \<and> list_all P new)"

lemma pool_grows_refl [simp]: "pool_grows P p p"
  by (simp add: pool_grows_def)

lemma pool_grows_trans: "pool_grows P p p1 \<Longrightarrow> pool_grows P p1 p2 \<Longrightarrow> pool_grows P p p2"
  by (fastforce simp: pool_grows_def)

lemma pool_grows_mono: "pool_grows P p p' \<Longrightarrow> (\<And>t. P t \<Longrightarrow> P' t) \<Longrightarrow> pool_grows P' p p'"
  unfolding pool_grows_def by (metis list.pred_mono_strong)

lemma pool_add_grows: "pool_add t p = Inr p' \<Longrightarrow> P t \<Longrightarrow> pool_grows P p p'"
  by (auto simp: pool_add_def pool_grows_def split: if_splits)

lemma task_from_mono: "task_from A fd t \<Longrightarrow> A \<subseteq> B \<Longrightarrow> task_from B fd t"
  by (auto simp: task_from_def)

subsection \<open>Where the bytes come from\<close>

lemma parseBody_bytes: "set (parseBody r) \<subseteq> set r"
  by (auto simp: parseBody_def substr_to_end_def split: option.splits dest: in_set_dropD)

lemma getJsonValue_bytes: "set (getJsonValue b k) \<subseteq> set b"
  using set_substr by (fastforce simp: getJsonValue_def Let_def split: option.splits)

lemma next_frame_bytes: "next_frame b = Framed h r rest \<Longrightarrow> set r \<subseteq> set b \<and> set rest \<subseteq> set b"
  using set_substr by (fastforce simp: next_frame_def Let_def substr_to_end_def split: option.splits if_splits dest: in_set_dropD)

subsection \<open>One request\<close>

context db_handler
begin

lemma handler_pool:
  assumes "handle K request fd ka pool w = Some (res, w')"
  shows "res = Inr pool \<or> res = pool_add (task fd ka request) pool \<and> task_fits (task fd ka request)"
proof (cases "refuse request")
  case None
  then show ?thesis using assms handle_submit task_checked by auto
next
  case (Some rf)
  then show ?thesis using assms handle_refuse [of request "fst rf" "snd rf" K fd ka pool w] by auto
qed

lemma handler_grows:
  assumes "handle K request fd ka pool w = Some (Inr pool', w')" and "set (task_name (task fd ka request)) \<subseteq> set request"
  shows "pool_grows (task_from (set request) fd) pool pool'"
  using handler_pool [OF assms(1)] assms(2) task_socket by (auto simp: task_from_def intro: pool_add_grows)

end

lemma credential_bytes: "set (getJsonValue (parseBody r) k) \<subseteq> set r"
  using getJsonValue_bytes parseBody_bytes by blast

lemma dbHandler_grows:
  assumes "dbHandler m u = Some h" and "h K r fd ka pool w = Some (Inr pool', w')"
  shows "pool_grows (task_from (set r) fd) pool pool'"
proof -
  have "h \<in> {handleRegister, handleLogin, handleProfile, handleLogout}"
    using assms(1) by (auto simp: dbHandler_def split: if_splits)
  then show ?thesis
    using assms(2) registerh.handler_grows [of K r fd ka pool w] loginh.handler_grows [of K r fd ka pool w]
      profileh.handler_grows [of K r fd ka pool w] logouth.handler_grows [of K r fd ka pool w] credential_bytes by auto
qed

lemma serveInline_pool:
  "serveInline K getenv c url ka sh w = Some (out, sh', w') \<Longrightarrow> dbPool sh' = dbPool sh"
  by (auto simp: serveInline_def servePage_def split: if_splits option.splits)

lemma serveRequest_grows:
  assumes "serveRequest K getenv h r c sh w = Some (out, sh', w')"
  shows "pool_grows (task_from (set r) (sock_fd c)) (dbPool sh) (dbPool sh')"
proof -
  obtain ok lim w1 where a: "admit K (rateLimiter sh) w = (ok, lim, w1)" by (metis prod.exhaust)
  show ?thesis
  proof (cases "ok \<and> (dbHandler (parseMethod r) (parseUrl r) :: 'a db_handler_fn option) \<noteq> None")
    case False
    with assms a show ?thesis
      by (auto simp: serveRequest_def Let_def split: if_splits dest: serveInline_pool)
  next
    case True
    then obtain hd where hd: "dbHandler (parseMethod r) (parseUrl r) = Some (hd :: 'a db_handler_fn)" and ok by auto
    with assms a obtain res w2 where r: "hd K r (sock_fd c) (wantKeepAlive r h) (dbPool sh) w1 = Some (res, w2)"
      and s: "dbPool sh' = (case res of Inl _ \<Rightarrow> dbPool sh | Inr p \<Rightarrow> p)"
      by (auto simp: serveRequest_def Let_def split: option.splits sum.splits)
    show ?thesis using dbHandler_grows [OF hd] r s by (cases res) auto
  qed
qed

subsection \<open>The request loop and the read loop\<close>

text \<open>The input that is left is part of the input there was.\<close>

definition read_from :: "char set \<Rightarrow> outcome \<Rightarrow> bool" where
  "read_from A out \<longleftrightarrow> (\<forall>c. out = Alive c \<longrightarrow> set (inputBuffer c) \<subseteq> A)"

lemma end_of_input_from:
  assumes "end_of_input K c sh w = Some (out, sh', w')" and "set (inputBuffer c) \<subseteq> A"
  shows "read_from A out \<and> dbPool sh' = dbPool sh"
  using assms by (auto simp: end_of_input_def read_from_def same_input_def split: frame.splits dest!: sendResponse_input)

lemma processRequests_grows:
  assumes "processRequests K getenv c sh w = Some r" and "set (inputBuffer c) \<subseteq> A"
  shows "pool_grows (task_from A (sock_fd c)) (dbPool sh) (dbPool (fst (snd r))) \<and> read_from A (fst r)"
proof -
  let ?P = "\<lambda>c sh (w :: 'a) (r :: outcome \<times> reactor_shared \<times> 'a). set (inputBuffer c) \<subseteq> A \<longrightarrow>
    pool_grows (task_from A (sock_fd c)) (dbPool sh) (dbPool (fst (snd r))) \<and> read_from A (fst r)"
  have "?P c sh w r"
  proof (rule processRequests_induct [OF assms(1)], intro impI)
    fix f c sh and w :: 'a and r
    assume IH: "\<And>c sh w r. f c sh w = Some r \<Longrightarrow> ?P c sh w r"
      and t: "request_turn K getenv f c sh w = Some r" and A: "set (inputBuffer c) \<subseteq> A"
    show "pool_grows (task_from A (sock_fd c)) (dbPool sh) (dbPool (fst (snd r))) \<and> read_from A (fst r)"
    proof (cases "\<exists>h q rest. next_frame (inputBuffer c) = Framed h q rest")
      case False
      then have "end_of_input K c sh w = Some r"
        using t by (cases "next_frame (inputBuffer c)") (auto simp: request_turn_def)
      with end_of_input_from [OF _ A] show ?thesis by (cases r) fastforce
    next
      case True
      then obtain h q rest where fr: "next_frame (inputBuffer c) = Framed h q rest" by blast
      note by' = next_frame_bytes [OF fr]
      let ?c = "c\<lparr>inputBuffer := rest\<rparr>"
      from t fr obtain o1 sh1 w1 where s: "serveRequest K getenv h q ?c sh w = Some (o1, sh1, w1)"
        by (auto simp: request_turn_def split: option.splits)
      have g: "pool_grows (task_from A (sock_fd c)) (dbPool sh) (dbPool sh1)"
        using serveRequest_grows [OF s] by (rule pool_grows_mono) (use by' A in \<open>auto intro: task_from_mono\<close>)
      have i: "same_input ?c c1" if "o1 = Alive c1" for c1 by (rule serveRequest_input [OF s [unfolded that]])
      show ?thesis
      proof (cases "\<exists>c1. o1 = Alive c1 \<and> wantKeepAlive q h")
        case True
        then obtain c1 where c1: "o1 = Alive c1" "wantKeepAlive q h" by blast
        from t fr s c1 have "f c1 sh1 w1 = Some r" by (simp add: request_turn_def)
        from IH [OF this] i [OF c1(1)] by' A
        have "pool_grows (task_from A (sock_fd c)) (dbPool sh1) (dbPool (fst (snd r)))" "read_from A (fst r)"
          by (auto simp: same_input_def)
        with pool_grows_trans [OF g] show ?thesis by blast
      next
        case False
        with t fr s g i by' A show ?thesis
          by (cases o1) (auto simp: request_turn_def read_from_def same_input_def split: if_splits)
      qed
    qed
  qed
  with assms(2) show ?thesis by simp
qed

definition reads_within :: "'w kernel \<Rightarrow> char set \<Rightarrow> bool" where
  "reads_within K A \<longleftrightarrow> (\<forall>fd n w d w'. k_read K fd n w = (Ret d, w') \<longrightarrow> set d \<subseteq> A)"

lemma read_loop_within:
  assumes "reads_within K A" and "read_loop K c w = Some r" and "set (inputBuffer c) \<subseteq> A"
  shows "set (inputBuffer (fst (snd r))) \<subseteq> A \<and> sock_fd (fst (snd r)) = sock_fd c"
proof -
  let ?P = "\<lambda>K c (w :: 'a) (r :: bool \<times> connection \<times> 'a). reads_within K A \<longrightarrow> set (inputBuffer c) \<subseteq> A \<longrightarrow>
    set (inputBuffer (fst (snd r))) \<subseteq> A \<and> sock_fd (fst (snd r)) = sock_fd c"
  have "?P K c w r"
  proof (rule read_loop.raw_induct [where P = ?P, OF _ assms(2)], intro impI, goal_cases)
    case (1 f K c w r)
    obtain a w1 where a: "k_read K (sock_fd c) 4096 w = (a, w1)" by fastforce
    have d: "set d \<subseteq> A" if "a = Ret d" for d using 1(3) a that unfolding reads_within_def by blast
    from 1(2,4) a d 1(1) [of K _ w1 r] 1(3) show ?case
      by (fastforce split: sysret.splits if_splits)
  qed
  with assms(1,3) show ?thesis by simp
qed

lemma handleMessage_grows:
  assumes "reads_within K A" and "handleMessage K getenv c sh w = Some (out, sh', w')" and "set (inputBuffer c) \<subseteq> A"
  shows "pool_grows (task_from A (sock_fd c)) (dbPool sh) (dbPool sh') \<and> read_from A out"
proof -
  obtain now w0 where t: "k_time K w = (now, w0)" by fastforce
  from assms(2) t obtain b c1 w1 where r: "read_loop K (c\<lparr>lastActiveSec := now\<rparr>) w0 = Some (b, c1, w1)"
    by (auto simp: handleMessage_def split: option.splits)
  have c1: "set (inputBuffer c1) \<subseteq> A" "sock_fd c1 = sock_fd c" using read_loop_within [OF assms(1) r] assms(3) by simp_all
  show ?thesis
    using assms(2) t r processRequests_grows [of K getenv c1 sh w1 _ A] c1
    by (auto simp: handleMessage_def read_from_def split: if_splits)
qed

lemma handleWrite_from:
  "handleWrite K c w = Some (out, w') \<Longrightarrow> set (inputBuffer c) \<subseteq> A \<Longrightarrow> read_from A out"
  by (auto simp: handleWrite_def read_from_def same_input_def split: if_splits prod.splits dest!: writeFromBuffer_input)

end
