(* ===== verification/Net.thy ===== *)
theory Net
  imports Config Reactor
begin

section \<open>Sockets, addresses and the acceptor\<close>

text \<open>
  \<^verbatim>\<open>src/Socket.cpp\<close>, \<^verbatim>\<open>src/InetAddress.cpp\<close>, \<^verbatim>\<open>src/util.cpp\<close> and \<^verbatim>\<open>src/Acceptor.cpp\<close>. A socket
  object is its descriptor. \<open>errif\<close> ends the process: \<open>Inl msg\<close> is the exit with that
  message. The socket calls of the kernel are a record of functions like those of the
  theory Kernel.
\<close>

record sockaddr =
  sin_family :: nat
  sin_addr :: "32 word"
  sin_port :: "16 word"

datatype sockopt = ReuseAddr | TcpNoDelay

record 'w net =
  n_socket :: "'w \<Rightarrow> int sysret \<times> 'w"
  n_setsockopt :: "int \<Rightarrow> sockopt \<Rightarrow> 'w \<Rightarrow> 'w"
  n_bind :: "int \<Rightarrow> sockaddr \<Rightarrow> 'w \<Rightarrow> unit sysret \<times> 'w"
  n_listen :: "int \<Rightarrow> nat \<Rightarrow> 'w \<Rightarrow> unit sysret \<times> 'w"
  n_getfl :: "int \<Rightarrow> 'w \<Rightarrow> 32 word \<times> 'w"
  n_setfl :: "int \<Rightarrow> 32 word \<Rightarrow> 'w \<Rightarrow> 'w"
  n_accept :: "int \<Rightarrow> 'w \<Rightarrow> int sysret \<times> 'w"
  n_connect :: "int \<Rightarrow> sockaddr \<Rightarrow> 'w \<Rightarrow> unit sysret \<times> 'w"
  n_shutdown :: "int \<Rightarrow> 'w \<Rightarrow> 'w"
  n_close :: "int \<Rightarrow> 'w \<Rightarrow> 'w"
  n_inet_addr :: "bytes \<Rightarrow> 32 word"
  n_epoll_create :: "'w \<Rightarrow> unit sysret \<times> 'w"

subsection \<open>util and InetAddress\<close>

definition errif :: "bool \<Rightarrow> bytes \<Rightarrow> bytes + unit" where
  "errif condition errmsg = (if condition then Inl errmsg else Inr ())"

definition failed :: "'a sysret \<Rightarrow> bool" where
  "failed r \<longleftrightarrow> (case r of Ret _ \<Rightarrow> False | Err _ \<Rightarrow> True)"

definition AF_INET :: nat where "AF_INET = 2"
definition O_NONBLOCK :: "32 word" where "O_NONBLOCK = 0x800"

text \<open>\<^verbatim>\<open>htons\<close> on a little-endian machine swaps the two bytes.\<close>

definition htons :: "16 word \<Rightarrow> 16 word" where
  "htons p = push_bit 8 p OR drop_bit 8 p"

definition inet_address :: "'w net \<Rightarrow> bytes \<Rightarrow> 16 word \<Rightarrow> sockaddr" where
  "inet_address N ip port =
     \<lparr>sin_family = AF_INET, sin_addr = n_inet_addr N (c_str ip), sin_port = htons port\<rparr>"

subsection \<open>Socket\<close>

definition socket_new :: "'w net \<Rightarrow> 'w \<Rightarrow> (bytes + int) \<times> 'w" where
  "socket_new N w =
     (case n_socket N w of
        (Err e, w1) \<Rightarrow> (Inl ''socket create error'', w1)
      | (Ret fd, w1) \<Rightarrow> (Inr fd, n_setsockopt N fd ReuseAddr w1))"

definition socket_of_fd :: "int \<Rightarrow> bytes + int" where
  "socket_of_fd fd = (case errif (fd = -1) ''socket create error'' of Inl m \<Rightarrow> Inl m | Inr _ \<Rightarrow> Inr fd)"

definition socket_delete :: "'w net \<Rightarrow> int \<Rightarrow> 'w \<Rightarrow> 'w" where
  "socket_delete N fd w = (if fd \<noteq> -1 then n_close N fd w else w)"

definition socket_bind :: "'w net \<Rightarrow> int \<Rightarrow> sockaddr \<Rightarrow> 'w \<Rightarrow> (bytes + unit) \<times> 'w" where
  "socket_bind N fd addr w =
     (case n_bind N fd addr w of (r, w1) \<Rightarrow> (errif (failed r) ''socket bind error'', w1))"

definition socket_listen :: "'w net \<Rightarrow> int \<Rightarrow> 'w \<Rightarrow> (bytes + unit) \<times> 'w" where
  "socket_listen N fd w =
     (case n_listen N fd 65535 w of (r, w1) \<Rightarrow> (errif (failed r) ''socket listen error'', w1))"

definition socket_setnonblocking :: "'w net \<Rightarrow> int \<Rightarrow> 'w \<Rightarrow> 'w" where
  "socket_setnonblocking N fd w =
     (case n_getfl N fd w of (flags, w1) \<Rightarrow> n_setfl N fd (flags OR O_NONBLOCK) w1)"

definition socket_setNoDelay :: "'w net \<Rightarrow> int \<Rightarrow> 'w \<Rightarrow> 'w" where
  "socket_setNoDelay N fd w = n_setsockopt N fd TcpNoDelay w"

definition socket_connect :: "'w net \<Rightarrow> int \<Rightarrow> sockaddr \<Rightarrow> 'w \<Rightarrow> (bytes + unit) \<times> 'w" where
  "socket_connect N fd addr w =
     (case n_connect N fd addr w of (r, w1) \<Rightarrow> (errif (failed r) ''socket connect error'', w1))"

subsection \<open>The epoll instance of an event loop\<close>

text \<open>
  The constructor of \<^verbatim>\<open>Epoll\<close>, which that of \<^verbatim>\<open>EventLoop\<close> calls. An instance is known by the
  number of its loop, so only whether it was created matters here.
\<close>

definition epoll_new :: "'w net \<Rightarrow> 'w \<Rightarrow> (bytes + unit) \<times> 'w" where
  "epoll_new N w = (case n_epoll_create N w of (r, w1) \<Rightarrow> (errif (failed r) ''epoll create error'', w1))"

subsection \<open>Acceptor\<close>

text \<open>
  The constructor: the listening socket on the configured address, nonblocking, and its
  channel registered level-triggered. \<^verbatim>\<open>serverPort\<close> is an \<^verbatim>\<open>int\<close> that the constructor of
  \<^verbatim>\<open>InetAddress\<close> takes as \<^verbatim>\<open>uint16_t\<close>.
\<close>

definition acceptor_new ::
    "'w net \<Rightarrow> 'w kernel \<Rightarrow> environ \<Rightarrow> nat \<Rightarrow> nat \<Rightarrow> 'w \<Rightarrow> (bytes + int \<times> channel) \<times> 'w" where
  "acceptor_new N K getenv addr loop w =
     (case socket_new N w of
        (Inl m, w1) \<Rightarrow> (Inl m, w1)
      | (Inr fd, w1) \<Rightarrow>
          (case socket_bind N fd (inet_address N (serverHost getenv) (word_of_int (serverPort getenv))) w1 of
             (Inl m, w2) \<Rightarrow> (Inl m, w2)
           | (Inr _, w2) \<Rightarrow>
               (case socket_listen N fd w2 of
                  (Inl m, w3) \<Rightarrow> (Inl m, w3)
                | (Inr _, w3) \<Rightarrow>
                    (case enableReading K (setCallback (channel_new addr loop fd) AcceptConnection)
                            (socket_setnonblocking N fd w3) of
                       (ch, w4) \<Rightarrow> (Inr (fd, ch), w4)))))"

text \<open>
  The accept loop, generic in the state of the callback: stop when there is nothing left to
  accept or on an error, retry when interrupted, otherwise make the socket nonblocking and
  undelayed and hand it to the callback (\<^const>\<open>None\<close> when that does not return).
\<close>

partial_function (option) acceptConnection ::
    "'w net \<Rightarrow> (int \<Rightarrow> 's \<times> 'w \<Rightarrow> ('s \<times> 'w) option) \<Rightarrow> int \<Rightarrow> 's \<times> 'w \<Rightarrow> ('s \<times> 'w) option" where
  "acceptConnection N newConnectionCallback listen_fd sw =
     (case n_accept N listen_fd (snd sw) of
        (r, w1) \<Rightarrow>
          (case r of
             Err e \<Rightarrow>
               if e = EAGAIN \<or> e = EWOULDBLOCK then Some (fst sw, w1)
               else if e = EINTR then acceptConnection N newConnectionCallback listen_fd (fst sw, w1)
               else Some (fst sw, w1)
           | Ret fd \<Rightarrow>
               (case newConnectionCallback fd
                       (fst sw, socket_setNoDelay N fd (socket_setnonblocking N fd w1)) of
                  None \<Rightarrow> None
                | Some sw' \<Rightarrow> acceptConnection N newConnectionCallback listen_fd sw')))"

subsection \<open>The accept loop\<close>

text \<open>One turn of the loop, with the rest of the loop as a parameter.\<close>

definition accept_turn ::
    "'w net \<Rightarrow> (int \<Rightarrow> 's \<times> 'w \<Rightarrow> ('s \<times> 'w) option) \<Rightarrow> int \<Rightarrow> ('s \<times> 'w \<Rightarrow> ('s \<times> 'w) option) \<Rightarrow> 's \<times> 'w \<Rightarrow> ('s \<times> 'w) option" where
  "accept_turn N cb lfd loop sw =
     (case n_accept N lfd (snd sw) of
        (Err e, w1) \<Rightarrow> if e = EINTR then loop (fst sw, w1) else Some (fst sw, w1)
      | (Ret fd, w1) \<Rightarrow>
          (case cb fd (fst sw, socket_setNoDelay N fd (socket_setnonblocking N fd w1)) of
             None \<Rightarrow> None
           | Some sw' \<Rightarrow> loop sw'))"

lemma acceptConnection_induct:
  assumes "acceptConnection N cb lfd sw = Some r"
    and "\<And>f sw r. \<lbrakk>\<And>sw r. f sw = Some r \<Longrightarrow> P sw r; accept_turn N cb lfd f sw = Some r\<rbrakk> \<Longrightarrow> P sw r"
  shows "P sw r"
proof -
  let ?P = "\<lambda>N' cb' lfd' sw r. N' = N \<and> cb' = cb \<and> lfd' = lfd \<longrightarrow> P sw r"
  have "?P N cb lfd sw r"
  proof (rule acceptConnection.raw_induct [where P = ?P, OF _ assms(1)], intro impI, elim conjE, goal_cases)
    case (1 f N' cb' lfd' sw r)
    show ?case
    proof (rule assms(2) [of "f N cb lfd"])
      show "P sw r" if "f N cb lfd sw = Some r" for sw r using 1(1) [OF that] by simp
      show "accept_turn N cb lfd (f N cb lfd) sw = Some r"
        using 1(2-) by (auto simp: accept_turn_def split: prod.splits sysret.splits option.splits if_splits)
    qed
  qed
  then show ?thesis by simp
qed

text \<open>An invariant of the loop, which ends with a failed \<^verbatim>\<open>accept\<close> that was not interrupted.\<close>

lemma acceptConnection_rule:
  assumes "acceptConnection N cb lfd sw = Some r" and "I (fst sw) (snd sw)"
    and err: "\<And>s w e w'. I s w \<Longrightarrow> n_accept N lfd w = (Err e, w') \<Longrightarrow> I s w'"
    and ok: "\<And>s w fd w' sw'. I s w \<Longrightarrow> n_accept N lfd w = (Ret fd, w')
      \<Longrightarrow> cb fd (s, socket_setNoDelay N fd (socket_setnonblocking N fd w')) = Some sw' \<Longrightarrow> I (fst sw') (snd sw')"
  shows "I (fst r) (snd r) \<and> (\<exists>w0 e. I (fst r) w0 \<and> n_accept N lfd w0 = (Err e, snd r) \<and> e \<noteq> EINTR)"
proof -
  let ?E = "\<lambda>r. I (fst r) (snd r) \<and> (\<exists>w0 e. I (fst r) w0 \<and> n_accept N lfd w0 = (Err e, snd r) \<and> e \<noteq> EINTR)"
  have "I (fst sw) (snd sw) \<longrightarrow> ?E r"
  proof (rule acceptConnection_induct [OF assms(1)], rule impI)
    fix f :: "'a \<times> 'b \<Rightarrow> ('a \<times> 'b) option" and sw r
    assume IH: "\<And>sw r. f sw = Some r \<Longrightarrow> I (fst sw) (snd sw) \<longrightarrow> ?E r"
      and eq: "accept_turn N cb lfd f sw = Some r" and i: "I (fst sw) (snd sw)"
    obtain a w1 where a: "n_accept N lfd (snd sw) = (a, w1)" by fastforce
    show "?E r"
    proof (cases a)
      case (Ret fd)
      with eq a obtain sw' where
        "cb fd (fst sw, socket_setNoDelay N fd (socket_setnonblocking N fd w1)) = Some sw'" "f sw' = Some r"
        by (auto simp: accept_turn_def split: option.splits)
      with IH ok [OF i] a Ret show ?thesis by blast
    next
      case (Err e)
      then have w1: "I (fst sw) w1" using err [OF i] a by simp
      with eq a Err IH [of "(fst sw, w1)" r] i show ?thesis
        by (cases "e = EINTR") (auto simp: accept_turn_def)
    qed
  qed
  with assms(2) show ?thesis by blast
qed

text \<open>
  It returns when the callback does and \<open>load\<close>, the connections waiting and the interruptions
  to come, decreases with every call that does not end the loop.
\<close>

lemma acceptConnection_returns:
  assumes "I (fst sw) (snd sw)"
    and err: "\<And>s w w'. I s w \<Longrightarrow> n_accept N lfd w = (Err EINTR, w') \<Longrightarrow> I s w' \<and> load w' < (load w :: nat)"
    and ok: "\<And>s w fd w'. I s w \<Longrightarrow> n_accept N lfd w = (Ret fd, w') \<Longrightarrow>
      \<exists>s1 w1. cb fd (s, socket_setNoDelay N fd (socket_setnonblocking N fd w')) = Some (s1, w1)
        \<and> I s1 w1 \<and> load w1 < load w"
  shows "\<exists>r. acceptConnection N cb lfd sw = Some r"
  using assms(1)
proof (induction "load (snd sw)" arbitrary: sw rule: less_induct)
  case less
  obtain a w1 where a: "n_accept N lfd (snd sw) = (a, w1)" by fastforce
  show ?case
  proof (cases a)
    case (Ret fd)
    with ok [OF less.prems] a obtain s2 w2 where
      cb: "cb fd (fst sw, socket_setNoDelay N fd (socket_setnonblocking N fd w1)) = Some (s2, w2)"
      and "I s2 w2" "load w2 < load (snd sw)" by blast
    with less.hyps [of "(s2, w2)"] show ?thesis
      by (subst acceptConnection.simps) (simp add: a Ret)
  next
    case (Err e)
    show ?thesis
    proof (cases "e = EINTR")
      case True
      with err [OF less.prems] a Err less.hyps [of "(fst sw, w1)"] show ?thesis
        by (subst acceptConnection.simps) simp
    next
      case False
      with a Err show ?thesis by (subst acceptConnection.simps) simp
    qed
  qed
qed

subsection \<open>The listening address\<close>

text \<open>
  What the kernel does with \<^verbatim>\<open>bind\<close> and \<^verbatim>\<open>listen\<close>: \<open>bound\<close> is the address of each socket,
  \<open>listening\<close> the sockets that take connections; no other call of the constructor changes them.
\<close>

definition bind_contract ::
    "'w net \<Rightarrow> 'w kernel \<Rightarrow> ('w \<Rightarrow> int \<Rightarrow> sockaddr option) \<Rightarrow> ('w \<Rightarrow> int set) \<Rightarrow> bool" where
  "bind_contract N K bound listening \<longleftrightarrow>
     (\<forall>fd a w w'. n_bind N fd a w = (Ret (), w') \<longrightarrow> bound w' fd = Some a)
     \<and> (\<forall>fd b w w'. n_listen N fd b w = (Ret (), w') \<longrightarrow> bound w' = bound w \<and> fd \<in> listening w')
     \<and> (\<forall>fd w. bound (snd (n_getfl N fd w)) = bound w \<and> listening (snd (n_getfl N fd w)) = listening w)
     \<and> (\<forall>fd f w. bound (n_setfl N fd f w) = bound w \<and> listening (n_setfl N fd f w) = listening w)
     \<and> (\<forall>ep op fd ev w. bound (snd (k_epoll_ctl K ep op fd ev w)) = bound w
          \<and> listening (snd (k_epoll_ctl K ep op fd ev w)) = listening w)"

text \<open>
  The two bytes of a port as they lie in memory on a little-endian machine; network byte order
  wants the high byte first.
\<close>

definition port_bytes :: "sockaddr \<Rightarrow> nat list" where
  "port_bytes a = [unat (sin_port a) mod 256, unat (sin_port a) div 256]"

lemma htons_bytes:
  assumes "p < 65536"
  shows "port_bytes (inet_address N ip (word_of_nat p)) = [p div 256, p mod 256]"
proof -
  let ?w = "word_of_nat p :: 16 word"
  have p: "unat ?w = p" using assms by (simp add: unat_of_nat take_bit_nat_eq_self)
  have "htons ?w = push_bit 8 ?w + drop_bit 8 ?w"
    unfolding htons_def by (rule disjunctive_add_eq_or [symmetric]) (auto simp: bit_simps intro!: bit_eqI)
  moreover have "unat (push_bit 8 ?w) = (p mod 256) * 256"
    using mod_mult_mult2 [of p 256 256] by (simp only: unsigned_push_bit_eq p) (simp add: push_bit_eq_mult take_bit_eq_mod)
  moreover have "unat (drop_bit 8 ?w) = p div 256"
    using assms by (simp only: unsigned_drop_bit_eq p) (simp add: drop_bit_eq_div take_bit_eq_mod)
  moreover have "(p mod 256) * 256 + p div 256 < 65536" using assms by simp
  ultimately have "unat (htons ?w) = (p mod 256) * 256 + p div 256"
    by (simp add: unat_add_lem [THEN iffD1])
  moreover have "p div 256 < 256" using assms by simp
  ultimately show ?thesis by (simp add: port_bytes_def inet_address_def)
qed

text \<open>
  C39: the server listens where it was told to. For every valid port and host set in the
  environment, a constructed acceptor has a listening socket, bound to the address of that
  host and to that port, whose bytes lie in memory in network order, high byte first.
\<close>

theorem listening_port:
  assumes "bind_contract N K bound listening"
    and "getenv ''MYSERVER_PORT'' = Some (to_string p)" and "0 < p" and "p < 65536"
    and "getenv ''MYSERVER_HOST'' = Some h" and "h \<noteq> []"
    and "acceptor_new N K getenv addr loop w = (Inr (fd, ch), w')"
  shows "fd \<in> listening w' \<and> (\<exists>a. bound w' fd = Some a \<and> sin_family a = AF_INET
    \<and> sin_addr a = n_inet_addr N (c_str h) \<and> port_bytes a = [p div 256, p mod 256])"
proof -
  let ?a = "inet_address N h (word_of_nat p)"
  have cfg: "serverPort getenv = int p" "serverHost getenv = h"
    unfolding serverPort_def serverHost_def envOr_def using envOrInt_to_string assms(2-6) by simp_all
  from assms(7) obtain w1 w2 w3 where
    "n_bind N fd ?a w1 = (Ret (), w2)" "n_listen N fd 65535 w2 = (Ret (), w3)"
    and e: "enableReading K (setCallback (channel_new addr loop fd) AcceptConnection) (socket_setnonblocking N fd w3) = (ch, w')"
    by (auto simp: acceptor_new_def socket_new_def socket_bind_def socket_listen_def errif_def failed_def cfg
        split: sysret.splits sum.splits prod.splits if_splits)
  then have w3: "bound w3 fd = Some ?a" "fd \<in> listening w3"
    using assms(1) unfolding bind_contract_def by metis+
  have keep: "bound (socket_setnonblocking N fd w3) = bound w3" "listening (socket_setnonblocking N fd w3) = listening w3"
    using assms(1) unfolding bind_contract_def socket_setnonblocking_def by (simp_all add: case_prod_beta)
  have "bound w' = bound (socket_setnonblocking N fd w3) \<and> listening w' = listening (socket_setnonblocking N fd w3)"
    using e assms(1) [unfolded bind_contract_def]
    by (auto simp: enableReading_def updateChannel_def Let_def split: prod.splits if_splits) (metis snd_conv)+
  with keep w3 htons_bytes [OF assms(4)] show ?thesis by (simp add: inet_address_def)
qed

text \<open>A network that remembers what was bound and what listens.\<close>

type_synonym bindings = "(int \<Rightarrow> sockaddr option) \<times> int set"

definition bind_net :: "bindings net" where
  "bind_net =
     \<lparr>n_socket = (\<lambda>w. (Ret 3, w)), n_setsockopt = (\<lambda>fd opt w. w),
      n_bind = (\<lambda>fd a w. (Ret (), ((fst w)(fd := Some a), snd w))),
      n_listen = (\<lambda>fd b w. (Ret (), (fst w, insert fd (snd w)))), n_getfl = (\<lambda>fd w. (0, w)), n_setfl = (\<lambda>fd f w. w),
      n_accept = (\<lambda>fd w. (Err EAGAIN, w)), n_connect = (\<lambda>fd a w. (Ret (), w)),
      n_shutdown = (\<lambda>fd w. w), n_close = (\<lambda>fd w. w), n_inet_addr = (\<lambda>ip. 0x0100007F),
      n_epoll_create = (\<lambda>w. (Ret (), w))\<rparr>"

definition bind_kernel :: "bindings kernel" where
  "bind_kernel =
     \<lparr>k_write = (\<lambda>fd d w. (Err EAGAIN, w)), k_read = (\<lambda>fd n w. (Err EAGAIN, w)),
      k_sendfile = (\<lambda>fd f off cnt w. (Err EAGAIN, w)), k_epoll_ctl = (\<lambda>ep op fd ev w. (Ret (), w)),
      k_time = (\<lambda>w. (0, w)), k_open = (\<lambda>p w. (-1, w)), k_fstat = (\<lambda>fd w. (None, w)), k_close = (\<lambda>fd w. w)\<rparr>"

theorem listening_port_witness:
  "\<exists>ch w'. acceptor_new bind_net bind_kernel
       [''MYSERVER_PORT'' \<mapsto> to_string 8080, ''MYSERVER_HOST'' \<mapsto> ''127.0.0.1''] 1 0 (Map.empty, {}) = (Inr (3, ch), w')
     \<and> 3 \<in> snd w' \<and> (\<exists>a. fst w' 3 = Some a \<and> sin_addr a = 0x0100007F \<and> port_bytes a = [0x1F, 0x90])"
proof -
  have c: "bind_contract bind_net bind_kernel fst snd"
    by (simp add: bind_contract_def bind_net_def bind_kernel_def)
  let ?env = "[''MYSERVER_PORT'' \<mapsto> to_string 8080, ''MYSERVER_HOST'' \<mapsto> ''127.0.0.1'']"
  have "\<exists>ch w'. acceptor_new bind_net bind_kernel ?env 1 0 (Map.empty, {}) = (Inr (3, ch), w')"
    by (simp add: acceptor_new_def socket_new_def socket_bind_def socket_listen_def errif_def failed_def bind_net_def
        split: prod.split)
  then obtain ch w' where new: "acceptor_new bind_net bind_kernel ?env 1 0 (Map.empty, {}) = (Inr (3, ch), w')" by blast
  from listening_port [OF c _ _ _ _ _ new, of 8080 "''127.0.0.1''"] have
    "3 \<in> snd w' \<and> (\<exists>a. fst w' 3 = Some a \<and> sin_addr a = 0x0100007F \<and> port_bytes a = [0x1F, 0x90])"
    by (auto simp: bind_net_def)
  with new show ?thesis by blast
qed

text \<open>
  A number above 65535 is accepted as well and loses its upper bits: 65536 binds port 0, the
  random port that the validation in the configuration is meant to prevent.
\<close>

lemma port_65536_binds_port_0:
  assumes "getenv ''MYSERVER_PORT'' = Some (to_string 65536)"
  shows "sin_port (inet_address N ip (word_of_int (serverPort getenv))) = 0"
proof -
  have "serverPort getenv = 65536"
    unfolding serverPort_def using envOrInt_to_string [of getenv "''MYSERVER_PORT''" 65536] assms by simp
  then show ?thesis by (simp add: inet_address_def htons_def)
qed

end
