(* ===== verification/Server.thy ===== *)
theory Server
  imports Net ConnFrame
begin

section \<open>The server\<close>

text \<open>
  \<^verbatim>\<open>src/Server.cpp\<close> and the main program \<^verbatim>\<open>test/server.cpp\<close>. The connection table is a
  \<^verbatim>\<open>std::map\<close>: an association list kept in key order. The reactors are represented by their
  quit flags; \<open>thPool\<close> runs one loop per sub reactor. \<open>nextAddr\<close> stands for the allocator:
  every channel gets an address of its own. The concurrent part interleaves what the
  threads do at the granularity of whole callbacks.
\<close>

subsection \<open>std::map\<close>

fun map_insert :: "int \<Rightarrow> 'v \<Rightarrow> (int \<times> 'v) list \<Rightarrow> (int \<times> 'v) list" where
  "map_insert k v [] = [(k, v)]"
| "map_insert k v ((k', v') # m) =
     (if k < k' then (k, v) # (k', v') # m
      else if k = k' then (k, v) # m
      else (k', v') # map_insert k v m)"

fun map_erase :: "int \<Rightarrow> (int \<times> 'v) list \<Rightarrow> (int \<times> 'v) list" where
  "map_erase k [] = []"
| "map_erase k ((k', v') # m) = (if k = k' then m else (k', v') # map_erase k m)"

definition map_sorted :: "(int \<times> 'v) list \<Rightarrow> bool" where
  "map_sorted m \<longleftrightarrow> sorted_wrt (<) (map fst m)"

subsection \<open>State and operations\<close>

record server =
  mainQuit :: bool
  subQuit :: "bool list"
  connections :: "(int \<times> connection) list"
  thPool :: "nat thread_pool"
  serverShared :: reactor_shared
  listenFd :: int
  acceptChannel :: channel
  nextAddr :: nat

text \<open>
  Creating the sub reactors and submitting their loops; \<open>Inl\<close> is the end of the process (a
  failed \<open>errif\<close>, or the exception of \<open>add\<close> leaving the constructor).
\<close>

fun add_loops :: "'w net \<Rightarrow> nat list \<Rightarrow> nat thread_pool \<Rightarrow> 'w \<Rightarrow> (bytes + nat thread_pool) \<times> 'w" where
  "add_loops N [] p w = (Inr p, w)"
| "add_loops N (i # is) p w =
     (case epoll_new N w of
        (Inl m, w1) \<Rightarrow> (Inl m, w1)
      | (Inr _, w1) \<Rightarrow>
          (case pool_add i p of
             Inl e \<Rightarrow> (Inl ''enqueue on stopped ThreadPool'', w1)
           | Inr p' \<Rightarrow> add_loops N is p' w1))"

text \<open>The constructor; \<open>n\<close> is \<^verbatim>\<open>std::thread::hardware_concurrency()\<close>, 0 when it is not known.\<close>

definition server_new :: "'w net \<Rightarrow> 'w kernel \<Rightarrow> environ \<Rightarrow> nat \<Rightarrow> 'w \<Rightarrow> (bytes + server) \<times> 'w" where
  "server_new N K getenv n w =
     (case acceptor_new N K getenv 0 n w of
        (Inl m, w1) \<Rightarrow> (Inl m, w1)
      | (Inr (fd, ch), w1) \<Rightarrow>
          (case add_loops N [0..<n] (pool_new n) w1 of
             (Inl m, w2) \<Rightarrow> (Inl m, w2)
           | (Inr pool, w2) \<Rightarrow>
               (Inr \<lparr>mainQuit = False, subQuit = replicate n False, connections = [], thPool = pool,
                     serverShared = \<lparr>dbPool = pool_new kDbThreads, staticCache = static_cache_new,
                                     rateLimiter = \<lparr>windowSec = 0, win_count = 0\<rparr>\<rparr>,
                     listenFd = fd, acceptChannel = ch, nextAddr = 1\<rparr>, w2)))"

text \<open>
  \<open>newConnection\<close>: the remainder by the number of sub reactors is undefined when there are
  none (\<^const>\<open>None\<close>). Inserting over an entry would destroy the old connection, which closes
  its socket.
\<close>

definition newConnection ::
    "'w net \<Rightarrow> 'w kernel \<Rightarrow> int \<Rightarrow> server \<times> 'w \<Rightarrow> (server \<times> 'w) option" where
  "newConnection N K fd sw =
     (case sw of (s, w) \<Rightarrow>
        if fd = -1 then Some (s, w)
        else if subQuit s = [] then None
        else
          (case connection_new K (nextAddr s) (nat (fd mod int (length (subQuit s)))) fd w of
             (conn, w1) \<Rightarrow>
               Some (s\<lparr>connections := map_insert fd conn (connections s), nextAddr := nextAddr s + 1\<rparr>,
                     if map_of (connections s) fd = None then w1 else socket_delete N fd w1)))"

text \<open>\<open>deleteConnection\<close>: erasing destroys the connection, whose socket closes the descriptor.\<close>

definition deleteConnection :: "'w net \<Rightarrow> int \<Rightarrow> server \<times> 'w \<Rightarrow> server \<times> 'w" where
  "deleteConnection N fd sw =
     (case sw of (s, w) \<Rightarrow>
        if fd = -1 then (s, w)
        else if map_of (connections s) fd = None then (s, w)
        else (s\<lparr>connections := map_erase fd (connections s)\<rparr>, socket_delete N fd w))"

text \<open>
  The destructor. The members go in reverse order: the DB pool and the pool of the sub
  reactors are stopped and joined (\<open>server_stop_pools\<close>, then the workers run until
  \<open>pool_joined\<close>), then the connections and last the acceptor close their sockets.
\<close>

definition server_stop_pools :: "server \<Rightarrow> server" where
  "server_stop_pools s =
     s\<lparr>serverShared := (serverShared s)\<lparr>dbPool := pool_stop (dbPool (serverShared s))\<rparr>,
       thPool := pool_stop (thPool s)\<rparr>"

fun close_connections :: "'w net \<Rightarrow> (int \<times> connection) list \<Rightarrow> 'w \<Rightarrow> 'w" where
  "close_connections N [] w = w"
| "close_connections N ((fd, c) # m) w = close_connections N m (socket_delete N (sock_fd c) w)"

definition server_delete :: "'w net \<Rightarrow> server \<times> 'w \<Rightarrow> 'w" where
  "server_delete N sw =
     (case sw of (s, w) \<Rightarrow> socket_delete N (listenFd s) (close_connections N (connections s) w))"

definition server_stop :: "server \<Rightarrow> server" where
  "server_stop s = s\<lparr>mainQuit := True, subQuit := map (\<lambda>_. True) (subQuit s)\<rparr>"

fun shutdown_idle :: "'w net \<Rightarrow> int \<Rightarrow> int \<Rightarrow> (int \<times> connection) list \<Rightarrow> 'w \<Rightarrow> 'w" where
  "shutdown_idle N now timeout [] w = w"
| "shutdown_idle N now timeout ((fd, c) # m) w =
     shutdown_idle N now timeout m
       (if now - lastActiveSec c > timeout then n_shutdown N fd w else w)"

definition sweepIdle :: "'w net \<Rightarrow> 'w kernel \<Rightarrow> server \<Rightarrow> 'w \<Rightarrow> 'w" where
  "sweepIdle N K s w =
     (if kIdleTimeoutSec \<le> 0 then w
      else case k_time K w of
             (now, w1) \<Rightarrow> shutdown_idle N now kIdleTimeoutSec (connections s) w1)"

subsection \<open>Callbacks of the channels\<close>

text \<open>
  What a sub reactor runs for an event of the connection on \<open>fd\<close>: the callback that
  \<open>handleEvent\<close> selects. A connection that destroyed itself is gone from the table; \<^const>\<open>None\<close>
  is a callback that does not return normally (it never returns, it throws, or it uses the
  connection after it was destroyed). The step relations built on it therefore cover a run up
  to the first such callback: an exception leaves the thread and ends the process, and after a
  use of freed memory nothing is defined. \<open>processRequests_safe\<close> says when neither happens.
\<close>

definition connection_event ::
    "'w net \<Rightarrow> 'w kernel \<Rightarrow> environ \<Rightarrow> int \<Rightarrow> evmask \<Rightarrow> server \<times> 'w \<Rightarrow> (server \<times> 'w) option" where
  "connection_event N K getenv fd revents sw =
     (case sw of (s, w) \<Rightarrow>
        (case map_of (connections s) fd of
           None \<Rightarrow> Some (s, w)
         | Some c0 \<Rightarrow>
             (let c = c0\<lparr>conn_channel := setRevents (conn_channel c0) revents\<rparr>
              in case handleEvent (conn_channel c) of
                   Some HandleMessage \<Rightarrow>
                     (case handleMessage K getenv c (serverShared s) w of
                        Some (Alive c', sh, w1) \<Rightarrow>
                          Some (s\<lparr>connections := map_insert fd c' (connections s), serverShared := sh\<rparr>, w1)
                      | Some (Destroyed, sh, w1) \<Rightarrow> Some (deleteConnection N fd (s\<lparr>serverShared := sh\<rparr>, w1))
                      | _ \<Rightarrow> None)
                 | Some HandleWrite \<Rightarrow>
                     (case handleWrite K c w of
                        Some (Alive c', w1) \<Rightarrow> Some (s\<lparr>connections := map_insert fd c' (connections s)\<rparr>, w1)
                      | Some (Destroyed, w1) \<Rightarrow> Some (deleteConnection N fd (s, w1))
                      | _ \<Rightarrow> None)
                 | _ \<Rightarrow> Some (s\<lparr>connections := map_insert fd c (connections s)\<rparr>, w))))"

definition accept_event ::
    "'w net \<Rightarrow> 'w kernel \<Rightarrow> server \<times> 'w \<Rightarrow> (server \<times> 'w) option" where
  "accept_event N K sw = acceptConnection N (newConnection N K) (listenFd (fst sw)) sw"

subsection \<open>The main program\<close>

text \<open>
  The per-iteration callback of the main reactor and its loop. \<open>g_shutdown\<close> is read from
  the world (the signal handler sets it), the only descriptor of the main reactor is the
  listening socket.
\<close>

definition loopCallback ::
    "'w net \<Rightarrow> 'w kernel \<Rightarrow> ('w \<Rightarrow> bool) \<Rightarrow> server \<times> 'w \<Rightarrow> server \<times> 'w" where
  "loopCallback N K g_shutdown sw =
     (case sw of (s, w) \<Rightarrow> if g_shutdown w then (server_stop s, w) else (s, sweepIdle N K s w))"

definition main_wait ::
    "('w \<Rightarrow> epoll_event list sysret \<times> 'w) \<Rightarrow> server \<times> 'w \<Rightarrow> epoll_event list sysret \<times> server \<times> 'w" where
  "main_wait wait sw = (case sw of (s, w) \<Rightarrow> case wait w of (r, w') \<Rightarrow> (r, (s, w')))"

definition main_dispatch ::
    "'w net \<Rightarrow> 'w kernel \<Rightarrow> nat \<Rightarrow> evmask \<Rightarrow> server \<times> 'w \<Rightarrow> (server \<times> 'w) option" where
  "main_dispatch N K addr revents sw =
     (if handleEvent (setRevents (acceptChannel (fst sw)) revents) = Some AcceptConnection
      then accept_event N K sw else Some sw)"

definition main_loop ::
    "'w net \<Rightarrow> 'w kernel \<Rightarrow> ('w \<Rightarrow> bool) \<Rightarrow> ('w \<Rightarrow> epoll_event list sysret \<times> 'w) \<Rightarrow> server \<times> 'w
     \<Rightarrow> (server \<times> 'w) option" where
  "main_loop N K g_shutdown wait sw =
     event_loop (\<lambda>sw. mainQuit (fst sw)) (main_wait wait) (main_dispatch N K)
       (Some (loopCallback N K g_shutdown)) sw"

end
