(* ===== verification/ServerInv.thy ===== *)
theory ServerInv
  imports Server
begin

section \<open>Invariants of the server\<close>

text \<open>
  The connection table against the kernel's view of it: which descriptors are open, and
  which channel each epoll instance will report for them. The invariant holds in every
  state that the callbacks of the reactors, the sweep, the shutdown and the rest of the
  world can reach.
\<close>

subsection \<open>The map\<close>

lemma map_of_insert [simp]: "map_of (map_insert k v m) = (map_of m)(k \<mapsto> v)"
  by (induction k v m rule: map_insert.induct) (auto simp: fun_eq_iff)

lemma set_map_insert_keys: "fst ` set (map_insert k v m) = insert k (fst ` set m)"
  by (induction k v m rule: map_insert.induct) auto

lemma set_map_erase: "set (map_erase k m) \<subseteq> set m"
  by (induction k m rule: map_erase.induct) auto

lemma map_sorted_insert: "map_sorted m \<Longrightarrow> map_sorted (map_insert k v m)"
  unfolding map_sorted_def
proof (induction k v m rule: map_insert.induct)
  case (2 k v k' v' m)
  then show ?case using set_map_insert_keys [of k v m] by auto
qed simp

lemma map_sorted_erase: "map_sorted m \<Longrightarrow> map_sorted (map_erase k m)"
  unfolding map_sorted_def using set_map_erase by (induction k m rule: map_erase.induct) fastforce+

lemma map_sorted_distinct: "map_sorted m \<Longrightarrow> distinct (map fst m)"
  unfolding map_sorted_def by (metis strict_sorted_iff)

lemma map_of_erase: "map_sorted m \<Longrightarrow> map_of (map_erase k m) = (map_of m)(k := None)"
proof (induction k m rule: map_erase.induct)
  case (2 k k' v' m)
  then have "k' \<notin> fst ` set m" and "map_sorted m" by (auto simp: map_sorted_def)
  then have "map_of m k' = None" by (simp add: map_of_eq_None_iff)
  with 2 \<open>map_sorted m\<close> show ?case by (auto simp: fun_eq_iff)
qed simp

text \<open>The contract of \<^verbatim>\<open>std::map\<close> that the server relies on.\<close>

locale std_map =
  fixes ins :: "'k \<Rightarrow> 'v \<Rightarrow> 'm \<Rightarrow> 'm"
    and del :: "'k \<Rightarrow> 'm \<Rightarrow> 'm"
    and lookup :: "'m \<Rightarrow> 'k \<Rightarrow> 'v option"
    and ordered :: "'m \<Rightarrow> bool"
  assumes lookup_ins: "lookup (ins k v m) = (lookup m)(k \<mapsto> v)"
    and lookup_del: "ordered m \<Longrightarrow> lookup (del k m) = (lookup m)(k := None)"
    and ordered_ins: "ordered m \<Longrightarrow> ordered (ins k v m)"
    and ordered_del: "ordered m \<Longrightarrow> ordered (del k m)"
begin

text \<open>Seen through a function of the values: overwriting with a value that looks the same.\<close>

lemma view_ins: "map_option f \<circ> lookup (ins k v m) = (map_option f \<circ> lookup m)(k \<mapsto> f v)"
  by (simp add: lookup_ins fun_eq_iff)

lemma view_del: "ordered m \<Longrightarrow> map_option f \<circ> lookup (del k m) = (map_option f \<circ> lookup m)(k := None)"
  by (simp add: lookup_del fun_eq_iff)

lemma view_update: "lookup m k = Some v \<Longrightarrow> f v' = f v \<Longrightarrow> map_option f \<circ> lookup (ins k v' m) = map_option f \<circ> lookup m"
  by (simp add: lookup_ins fun_eq_iff)

end

interpretation conn_map: std_map map_insert map_erase map_of map_sorted
  by unfold_locales (simp_all add: map_of_erase map_sorted_insert map_sorted_erase)

subsection \<open>What the server relies on of the kernel\<close>

text \<open>
  \<open>socks w\<close> are the open sockets of the server, those that \<^verbatim>\<open>socket\<close> or \<^verbatim>\<open>accept\<close> returned,
  \<open>interest w ep\<close> the interest list of an epoll instance. \<^verbatim>\<open>accept\<close>, \<^verbatim>\<open>socket\<close> and \<^verbatim>\<open>open\<close> return
  descriptors that are not in use, so in no interest list; closing a descriptor removes it
  from every interest list; the other calls open and close nothing.
\<close>

type_synonym interests = "nat \<Rightarrow> int \<Rightarrow> epoll_event option"

definition same_fds :: "('w \<Rightarrow> int set) \<Rightarrow> ('w \<Rightarrow> interests) \<Rightarrow> 'w \<Rightarrow> 'w \<Rightarrow> bool" where
  "same_fds socks interest w w' \<longleftrightarrow> socks w' = socks w \<and> interest w' = interest w"

definition unused :: "('w \<Rightarrow> int set) \<Rightarrow> ('w \<Rightarrow> interests) \<Rightarrow> int \<Rightarrow> 'w \<Rightarrow> bool" where
  "unused socks interest fd w \<longleftrightarrow> fd \<notin> socks w \<and> (\<forall>ep. interest w ep fd = None)"

definition new_socket ::
    "('w \<Rightarrow> int set) \<Rightarrow> ('w \<Rightarrow> interests) \<Rightarrow> int sysret \<Rightarrow> 'w \<Rightarrow> 'w \<Rightarrow> bool" where
  "new_socket socks interest r w w' \<longleftrightarrow>
     (case r of
        Err e \<Rightarrow> same_fds socks interest w w'
      | Ret fd \<Rightarrow> 0 \<le> fd \<and> unused socks interest fd w
          \<and> socks w' = insert fd (socks w) \<and> interest w' = interest w)"

definition closes :: "(int \<Rightarrow> 'w \<Rightarrow> 'w) \<Rightarrow> ('w \<Rightarrow> int set) \<Rightarrow> ('w \<Rightarrow> interests) \<Rightarrow> bool" where
  "closes close socks interest \<longleftrightarrow>
     (\<forall>fd w. socks (close fd w) = socks w - {fd} \<and> interest (close fd w) = (\<lambda>ep. (interest w ep)(fd := None)))"

definition fd_kernel :: "'w kernel \<Rightarrow> ('w \<Rightarrow> int set) \<Rightarrow> ('w \<Rightarrow> interests) \<Rightarrow> bool" where
  "fd_kernel K socks interest \<longleftrightarrow>
     epoll_contract K interest \<and> no_ctl_failure K interest socks
     \<and> (\<forall>fd d w r w'. k_write K fd d w = (r, w') \<longrightarrow> same_fds socks interest w w')
     \<and> (\<forall>fd n w r w'. k_read K fd n w = (r, w') \<longrightarrow> same_fds socks interest w w')
     \<and> (\<forall>fd f off cnt w r w'. k_sendfile K fd f off cnt w = (r, w') \<longrightarrow> same_fds socks interest w w')
     \<and> (\<forall>w t w'. k_time K w = (t, w') \<longrightarrow> same_fds socks interest w w')
     \<and> (\<forall>fd w r w'. k_fstat K fd w = (r, w') \<longrightarrow> same_fds socks interest w w')
     \<and> (\<forall>p w fd w'. k_open K p w = (fd, w') \<longrightarrow>
          same_fds socks interest w w' \<and> (fd \<ge> 0 \<longrightarrow> unused socks interest fd w))
     \<and> closes (k_close K) socks interest"

definition fd_net :: "'w net \<Rightarrow> ('w \<Rightarrow> int set) \<Rightarrow> ('w \<Rightarrow> interests) \<Rightarrow> bool" where
  "fd_net N socks interest \<longleftrightarrow>
     (\<forall>w r w'. n_socket N w = (r, w') \<longrightarrow> new_socket socks interest r w w')
     \<and> (\<forall>fd opt w. same_fds socks interest w (n_setsockopt N fd opt w))
     \<and> (\<forall>fd a w r w'. n_bind N fd a w = (r, w') \<longrightarrow> same_fds socks interest w w')
     \<and> (\<forall>fd b w r w'. n_listen N fd b w = (r, w') \<longrightarrow> same_fds socks interest w w')
     \<and> (\<forall>fd w r w'. n_getfl N fd w = (r, w') \<longrightarrow> same_fds socks interest w w')
     \<and> (\<forall>fd f w. same_fds socks interest w (n_setfl N fd f w))
     \<and> (\<forall>fd w. same_fds socks interest w (n_shutdown N fd w))
     \<and> (\<forall>w r w'. n_epoll_create N w = (r, w') \<longrightarrow> same_fds socks interest w w')
     \<and> (\<forall>lfd w r w'. n_accept N lfd w = (r, w') \<longrightarrow> new_socket socks interest r w w')
     \<and> closes (n_close N) socks interest"

lemma same_fds_refl [simp]: "same_fds socks interest w w"
  by (simp add: same_fds_def)

lemma same_fds_trans:
  "same_fds socks interest w w1 \<Longrightarrow> same_fds socks interest w1 w2 \<Longrightarrow> same_fds socks interest w w2"
  by (simp add: same_fds_def)

lemma fd_kernelD:
  assumes "fd_kernel K socks interest"
  shows "epoll_contract K interest" and "no_ctl_failure K interest socks"
    and "k_epoll_ctl K ep op fd ev w = (u, w') \<Longrightarrow> socks w' = socks w"
    and "k_write K fd d w = (n, w') \<Longrightarrow> same_fds socks interest w w'"
    and "k_read K fd m w = (b, w') \<Longrightarrow> same_fds socks interest w w'"
    and "k_sendfile K fd g off cnt w = (n, w') \<Longrightarrow> same_fds socks interest w w'"
    and "k_time K w = (t, w') \<Longrightarrow> same_fds socks interest w w'"
    and "k_fstat K fd w = (st, w') \<Longrightarrow> same_fds socks interest w w'"
    and "k_open K p w = (r, w') \<Longrightarrow> same_fds socks interest w w' \<and> (r \<ge> 0 \<longrightarrow> unused socks interest r w)"
    and "closes (k_close K) socks interest"
  using assms unfolding fd_kernel_def by (metis, metis, metis no_ctl_failure_opened, metis, metis, metis, metis, metis, metis, metis)

lemma fd_netD:
  assumes "fd_net N socks interest"
  shows "n_socket N w = (r, w') \<Longrightarrow> new_socket socks interest r w w'"
    and "same_fds socks interest w (n_setsockopt N fd opt w)"
    and "n_bind N fd a w = (u, w') \<Longrightarrow> same_fds socks interest w w'"
    and "n_listen N fd b w = (u, w') \<Longrightarrow> same_fds socks interest w w'"
    and "n_getfl N fd w = (f, w') \<Longrightarrow> same_fds socks interest w w'"
    and "same_fds socks interest w (n_setfl N fd f w)"
    and "same_fds socks interest w (n_shutdown N fd w)"
    and "n_accept N lfd w = (r, w') \<Longrightarrow> new_socket socks interest r w w'"
    and "closes (n_close N) socks interest"
    and "n_epoll_create N w = (u, w') \<Longrightarrow> same_fds socks interest w w'"
  using assms unfolding fd_net_def by metis+

text \<open>
  The relation of the frame rule: a connection whose registration is in place changes no
  channel pointer of any interest list.
\<close>

definition ptr :: "('w \<Rightarrow> interests) \<Rightarrow> 'w \<Rightarrow> nat \<Rightarrow> int \<Rightarrow> nat option" where
  "ptr interest w ep fd = map_option ev_ptr (interest w ep fd)"

definition undisturbed ::
    "('w \<Rightarrow> int set) \<Rightarrow> ('w \<Rightarrow> interests) \<Rightarrow> nat \<Rightarrow> int \<Rightarrow> nat \<Rightarrow> 'w \<Rightarrow> 'w \<Rightarrow> bool" where
  "undisturbed socks interest l f a w w' \<longleftrightarrow>
     socks w' = socks w \<and> (ptr interest w l f = Some a \<longrightarrow> ptr interest w' = ptr interest w)"

lemma same_fds_undisturbed: "same_fds socks interest w w' \<Longrightarrow> undisturbed socks interest l f a w w'"
  by (simp add: same_fds_def undisturbed_def ptr_def fun_eq_iff)

lemma close_unused:
  assumes "closes close socks interest" and "unused socks interest fd w"
  shows "same_fds socks interest w (close fd w)"
  using assms by (simp add: closes_def unused_def same_fds_def fun_eq_iff)

lemma open_static_same:
  assumes "fd_kernel K socks interest" and "open_static K path sc w = (sc', w')"
  shows "same_fds socks interest w w'"
proof -
  obtain fd w1 where o: "k_open K (c_str path) w = (fd, w1)" by fastforce
  obtain st w2 where s: "k_fstat K fd w1 = (st, w2)" by fastforce
  note o' = fd_kernelD(9) [OF assms(1) o] and s' = fd_kernelD(8) [OF assms(1) s]
  have "same_fds socks interest w2 (k_close K fd w2)" if "fd \<ge> 0"
    using o' s' that by (intro close_unused [OF fd_kernelD(10) [OF assms(1)]]) (simp add: same_fds_def unused_def)
  with o' s' have "w' \<in> {w1, w2, k_close K fd w2} \<Longrightarrow> fd \<ge> 0 \<or> w' = w1 \<Longrightarrow> same_fds socks interest w w'"
    by (auto intro: same_fds_trans)
  with assms(2) o s show ?thesis by (auto simp: open_static_def split: option.splits if_splits)
qed

lemma ctl_undisturbed:
  assumes "fd_kernel K socks interest" and "ev_ptr ev = a" and "k_epoll_ctl K l op f ev w = (r, w')"
  shows "undisturbed socks interest l f a w w'"
proof (cases r)
  case (Ret u)
  with epoll_contract_Ret(1) [OF fd_kernelD(1) [OF assms(1)]] assms(2,3) fd_kernelD(3) [OF assms(1,3)] show ?thesis
    by (auto simp: undisturbed_def ptr_def fun_eq_iff)
next
  case (Err e)
  with epoll_contract_Err(1) [OF fd_kernelD(1) [OF assms(1)]] assms(3) fd_kernelD(3) [OF assms(1,3)] show ?thesis
    by (simp add: undisturbed_def ptr_def fun_eq_iff)
qed

lemma fd_kernel_moves:
  assumes "fd_kernel K socks interest"
  shows "kernel_moves K l f a (undisturbed socks interest l f a)"
proof -
  let ?Q = "undisturbed socks interest l f a"
  note k = fd_kernelD(4-7) [OF assms, THEN same_fds_undisturbed]
  have "\<forall>w. ?Q w w" and "\<forall>w w1 w2. ?Q w w1 \<longrightarrow> ?Q w1 w2 \<longrightarrow> ?Q w w2"
    by (simp_all add: undisturbed_def)
  moreover have "\<forall>op ev w r w'. ev_ptr ev = a \<longrightarrow> k_epoll_ctl K l op f ev w = (r, w') \<longrightarrow> ?Q w w'"
    using ctl_undisturbed [OF assms] by blast
  moreover have "\<forall>path sc w sc' w'. open_static K path sc w = (sc', w') \<longrightarrow> ?Q w w'"
    using open_static_same [OF assms, THEN same_fds_undisturbed] by blast
  moreover have "\<forall>fd d w r w'. k_write K fd d w = (r, w') \<longrightarrow> ?Q w w'"
    and "\<forall>fd n w r w'. k_read K fd n w = (r, w') \<longrightarrow> ?Q w w'"
    and "\<forall>fd g off cnt w r w'. k_sendfile K fd g off cnt w = (r, w') \<longrightarrow> ?Q w w'"
    and "\<forall>w t w'. k_time K w = (t, w') \<longrightarrow> ?Q w w'"
    by (intro allI impI, erule k)+
  ultimately show ?thesis unfolding kernel_moves_def by (intro conjI)
qed

subsection \<open>The invariant\<close>

text \<open>The events every connection is registered for, beside \<^const>\<open>EPOLLOUT\<close> at times.\<close>

definition conn_mask :: evmask where
  "conn_mask = (EPOLLIN OR EPOLLPRI OR EPOLLRDHUP OR EPOLLET)"

text \<open>The identities of the live connections, by descriptor.\<close>

definition live :: "server \<Rightarrow> int \<Rightarrow> (int \<times> nat \<times> nat \<times> int \<times> callback option \<times> callback option \<times> evmask) option" where
  "live s = map_option conn_id \<circ> map_of (connections s)"

text \<open>
  The channel that each reactor has to be told about for a descriptor; the main reactor
  comes after the sub reactors.
\<close>

definition registry :: "server \<Rightarrow> nat \<Rightarrow> int \<Rightarrow> nat option" where
  "registry s ep fd =
     (if fd = listenFd s then (if ep = length (subQuit s) then Some 0 else None)
      else case live s fd of
             None \<Rightarrow> None
           | Some (_, a, l, _) \<Rightarrow> if ep = l then Some a else None)"

definition table_ok :: "server \<Rightarrow> bool" where
  "table_ok s \<longleftrightarrow>
     map_sorted (connections s) \<and> subQuit s \<noteq> [] \<and> 0 \<le> listenFd s
     \<and> (\<forall>fd x. live s fd = Some x \<longrightarrow> 0 \<le> fd \<and> fd \<noteq> listenFd s
          \<and> (\<exists>a. x = (fd, a, nat (fd mod int (length (subQuit s))), fd, Some HandleMessage, Some HandleWrite, conn_mask)
               \<and> 0 < a \<and> a < nextAddr s))
     \<and> inj_on (\<lambda>fd. fst (snd (the (live s fd)))) (dom (live s))"

text \<open>\<open>pending_fds\<close> are descriptors that were socks and are not yet in the table.\<close>

definition server_rel ::
    "('w \<Rightarrow> int set) \<Rightarrow> ('w \<Rightarrow> interests) \<Rightarrow> int set \<Rightarrow> server \<times> 'w \<Rightarrow> bool" where
  "server_rel socks interest pending_fds sw \<longleftrightarrow>
     (case sw of (s, w) \<Rightarrow>
        table_ok s \<and> 0 < nextAddr s \<and> socks w = insert (listenFd s) (dom (live s) \<union> pending_fds) \<and> ptr interest w = registry s)"

abbreviation server_inv :: "('w \<Rightarrow> int set) \<Rightarrow> ('w \<Rightarrow> interests) \<Rightarrow> server \<times> 'w \<Rightarrow> bool" where
  "server_inv socks interest \<equiv> server_rel socks interest {}"

text \<open>The invariant only depends on this much of a server.\<close>

lemma server_rel_cong:
  assumes "server_rel socks interest P (s, w)" and "same_fds socks interest w w'"
    and "live s' = live s" and "map_sorted (connections s')" and "length (subQuit s') = length (subQuit s)"
    and "listenFd s' = listenFd s" and "nextAddr s' = nextAddr s"
  shows "server_rel socks interest P (s', w')"
proof -
  have "registry s' = registry s" using assms(3,5,6) by (simp add: registry_def fun_eq_iff)
  moreover have "subQuit s' = [] \<longleftrightarrow> subQuit s = []" using assms(5) by (metis length_0_conv)
  moreover have "ptr interest w' = ptr interest w" using assms(2) by (simp add: ptr_def same_fds_def fun_eq_iff)
  ultimately show ?thesis
    using assms unfolding server_rel_def table_ok_def by (simp add: same_fds_def)
qed

subsection \<open>Every operation keeps it\<close>

lemma live_None: "live s fd = None \<longleftrightarrow> map_of (connections s) fd = None"
  by (simp add: live_def)

lemma table_okD:
  assumes "table_ok s"
  shows "map_sorted (connections s)" and "subQuit s \<noteq> []"
    and "live s fd = Some x \<Longrightarrow> 0 \<le> fd \<and> fd \<noteq> listenFd s
          \<and> (\<exists>a. x = (fd, a, nat (fd mod int (length (subQuit s))), fd, Some HandleMessage, Some HandleWrite, conn_mask)
               \<and> 0 < a \<and> a < nextAddr s)"
    and "inj_on (\<lambda>fd. fst (snd (the (live s fd)))) (dom (live s))" and "0 \<le> listenFd s"
  using assms unfolding table_ok_def by blast+

lemma deleteConnection_inv:
  assumes "fd_net N socks interest" and "server_inv socks interest (s, w)"
  shows "server_inv socks interest (deleteConnection N fd (s, w))"
proof (cases "fd = -1 \<or> live s fd = None")
  case True
  then show ?thesis using assms(2) by (auto simp: deleteConnection_def live_None)
next
  case False
  let ?s = "s\<lparr>connections := map_erase fd (connections s)\<rparr>"
  note inv = assms(2) [unfolded server_rel_def]
  then have tab: "table_ok s" by simp
  have live': "live ?s = (live s)(fd := None)"
    using conn_map.view_del [OF table_okD(1) [OF tab]] by (simp add: live_def)
  have "fd \<noteq> listenFd s" using False table_okD(3) [OF tab, of fd] by auto
  then have reg: "registry ?s = (\<lambda>ep. (registry s ep)(fd := None))"
    by (auto simp: registry_def live' fun_eq_iff)
  have "table_ok ?s"
    using tab map_sorted_erase [OF table_okD(1) [OF tab]] unfolding table_ok_def
    by (auto simp: live' inj_on_def)
  moreover have "socks (n_close N fd w) = socks w - {fd}"
    "ptr interest (n_close N fd w) = (\<lambda>ep. (ptr interest w ep)(fd := None))"
    using fd_netD(9) [OF assms(1)] by (simp_all add: closes_def ptr_def fun_eq_iff)
  ultimately show ?thesis
    using False inv reg \<open>fd \<noteq> listenFd s\<close>
    by (auto simp: deleteConnection_def server_rel_def live_None live' socket_delete_def)
qed

text \<open>A callback of a live connection that left it alive, and one that destroyed it.\<close>

lemma live_undisturbed:
  assumes "server_inv socks interest (s, w)" and "map_of (connections s) fd = Some c"
    and "undisturbed socks interest (ch_loop (conn_channel c)) (ch_fd (conn_channel c)) (ch_addr (conn_channel c)) w w'"
  shows "server_inv socks interest (s, w')"
proof -
  have tab: "table_ok s" using assms(1) by (simp add: server_rel_def)
  have live: "live s fd = Some (conn_id c)" using assms(2) by (simp add: live_def)
  from table_okD(3) [OF tab live] have "fd \<noteq> listenFd s" "ch_fd (conn_channel c) = fd"
    by (auto simp: conn_id_def)
  then have "ptr interest w (ch_loop (conn_channel c)) (ch_fd (conn_channel c)) = Some (ch_addr (conn_channel c))"
    using assms(1) live by (simp add: server_rel_def registry_def conn_id_def)
  with assms(1,3) show ?thesis by (simp add: server_rel_def undisturbed_def)
qed

lemma connection_replaced:
  assumes "server_inv socks interest (s, w)" and "map_of (connections s) fd = Some c" and "conn_id c' = conn_id c"
  shows "server_inv socks interest (s\<lparr>connections := map_insert fd c' (connections s), serverShared := sh\<rparr>, w)"
proof (rule server_rel_cong [OF assms(1)])
  show "live (s\<lparr>connections := map_insert fd c' (connections s), serverShared := sh\<rparr>) = live s"
    using conn_map.view_update [where f = conn_id, OF assms(2,3)] by (simp add: live_def)
  show "map_sorted (connections (s\<lparr>connections := map_insert fd c' (connections s), serverShared := sh\<rparr>))"
    using assms(1) by (simp add: server_rel_def table_okD(1) map_sorted_insert)
qed simp_all

lemma shared_irrelevant:
  "server_inv socks interest (s\<lparr>serverShared := sh\<rparr>, w) \<longleftrightarrow> server_inv socks interest (s, w)"
  by (simp add: server_rel_def table_ok_def live_def registry_def fun_eq_iff)

lemma connection_event_inv:
  assumes "fd_kernel K socks interest" and "fd_net N socks interest" and "server_inv socks interest (s, w)"
    and "connection_event N K getenv fd re (s, w) = Some sw'"
  shows "server_inv socks interest sw'"
proof (cases "map_of (connections s) fd")
  case None
  with assms(3,4) show ?thesis by (simp add: connection_event_def)
next
  case (Some c0)
  let ?c = "c0\<lparr>conn_channel := setRevents (conn_channel c0) re\<rparr>"
  let ?Q = "undisturbed socks interest (ch_loop (conn_channel c0)) (ch_fd (conn_channel c0)) (ch_addr (conn_channel c0))"
  have id: "conn_id ?c = conn_id c0" by (simp add: conn_id_def setRevents_def)
  have k: "keeps K ?Q ?c" using fd_kernel_moves [OF assms(1)] by (simp add: keeps_def setRevents_def)
  have alive: "server_inv socks interest (s\<lparr>connections := map_insert fd c' (connections s), serverShared := sh\<rparr>, w')"
    if "kept ?Q ?c w (Alive c') w'" for c' sh w'
    using that id by (intro connection_replaced [OF live_undisturbed [OF assms(3) Some] Some]) (simp_all add: kept_def)
  have gone: "server_inv socks interest (deleteConnection N fd (s\<lparr>serverShared := sh\<rparr>, w'))"
    if "kept ?Q ?c w Destroyed w'" for sh w'
    using that live_undisturbed [OF assms(3) Some] by (intro deleteConnection_inv [OF assms(2)]) (auto simp: kept_def shared_irrelevant)
  show ?thesis
  proof (cases "handleEvent (conn_channel ?c)")
    case None
    with assms(4) Some alive [of ?c w "serverShared s"] fd_kernel_moves [OF assms(1)] show ?thesis
      by (simp add: connection_event_def kept_def undisturbed_def)
  next
    case (Some cb)
    show ?thesis
    proof (cases cb)
      case AcceptConnection
      with Some \<open>map_of (connections s) fd = Some c0\<close> assms(4) alive [of ?c w "serverShared s"] show ?thesis
        by (simp add: connection_event_def kept_def undisturbed_def)
    next
      case HandleMessage
      with Some \<open>map_of (connections s) fd = Some c0\<close> assms(4) handleMessage_kept [OF k, of getenv "serverShared s" w]
        alive gone show ?thesis
        by (auto simp: connection_event_def split: option.splits outcome.splits)
    next
      case HandleWrite
      with Some \<open>map_of (connections s) fd = Some c0\<close> assms(4) handleWrite_kept [OF k, of w]
        alive [of _ _ "serverShared s"] gone [of _ "serverShared s"] show ?thesis
        by (auto simp: connection_event_def split: option.splits outcome.splits)
    qed
  qed
qed

lemma updateChannel_adds:
  assumes "fd_kernel K socks interest" and "ch_fd ch \<in> socks w" and "\<not> inEpoll ch"
    and "interest w (ch_loop ch) (ch_fd ch) = None"
    and "updateChannel K ch w = (ch', w')"
  shows "ch' = ch\<lparr>inEpoll := True\<rparr>" and "socks w' = socks w"
    and "ptr interest w' = (ptr interest w)(ch_loop ch := (ptr interest w (ch_loop ch))(ch_fd ch := Some (ch_addr ch)))"
proof -
  note k = fd_kernelD [OF assms(1)]
  let ?ev = "\<lparr>ev_events = ch_events ch, ev_ptr = ch_addr ch\<rparr>"
  obtain w1 where w1: "k_epoll_ctl K (ch_loop ch) CtlAdd (ch_fd ch) ?ev w = (Ret (), w1)"
    using no_ctl_failureE [OF k(2)] assms(2,4) by blast
  then have "w' = w1" using assms(3,5) by (simp add: updateChannel_def Let_def)
  with epoll_contract_Ret(1) [OF k(1) w1] k(3) [OF w1]
  show "socks w' = socks w"
    and "ptr interest w' = (ptr interest w)(ch_loop ch := (ptr interest w (ch_loop ch))(ch_fd ch := Some (ch_addr ch)))"
    by (auto simp: ptr_def fun_eq_iff)
  show "ch' = ch\<lparr>inEpoll := True\<rparr>" using updateChannel_fields [of K ch w] assms(5) by simp
qed

lemma connection_new_registers:
  assumes "fd_kernel K socks interest" and "fd \<in> socks w" and "\<forall>ep. ptr interest w ep fd = None"
    and "connection_new K a l fd w = (c, w')"
  shows "conn_id c = (fd, a, l, fd, Some HandleMessage, Some HandleWrite, conn_mask)" and "socks w' = socks w"
    and "ptr interest w' = (ptr interest w)(l := (ptr interest w l)(fd := Some a))"
proof -
  obtain now w1 where t: "k_time K w = (now, w1)" by fastforce
  let ?ch = "(setWriteCallback (setCallback (channel_new a l fd) HandleMessage) HandleWrite)
    \<lparr>ch_events := EPOLLIN OR EPOLLPRI OR EPOLLRDHUP OR EPOLLET\<rparr>"
  obtain ch w2 where u: "updateChannel K ?ch w1 = (ch, w2)" by fastforce
  have c: "conn_channel c = ch" "sock_fd c = fd" "w' = w2"
    using assms(4) t u by (auto simp: connection_new_def enableReadingET_def setWriteCallback_def setCallback_def channel_new_def)
  have same: "same_fds socks interest w w1" by (rule fd_kernelD(7) [OF assms(1) t])
  then have "interest w1 (ch_loop ?ch) (ch_fd ?ch) = None"
    using assms(3) by (simp add: same_fds_def ptr_def setWriteCallback_def setCallback_def channel_new_def)
  moreover have "ch_fd ?ch \<in> socks w1" using same assms(2) by (simp add: same_fds_def setWriteCallback_def setCallback_def channel_new_def)
  ultimately have add: "ch = ?ch\<lparr>inEpoll := True\<rparr>" "socks w2 = socks w1"
    "ptr interest w2 = (ptr interest w1)(ch_loop ?ch := (ptr interest w1 (ch_loop ?ch))(ch_fd ?ch := Some (ch_addr ?ch)))"
    using updateChannel_adds [OF assms(1) _ _ _ u] by (simp_all add: setWriteCallback_def setCallback_def channel_new_def)
  show "conn_id c = (fd, a, l, fd, Some HandleMessage, Some HandleWrite, conn_mask)"
    using add(1) c by (simp add: conn_id_def setWriteCallback_def setCallback_def channel_new_def conn_mask_def epoll_flags)
  have "ptr interest w1 = ptr interest w" using same by (simp add: same_fds_def ptr_def fun_eq_iff)
  then show "socks w' = socks w"
    and "ptr interest w' = (ptr interest w)(l := (ptr interest w l)(fd := Some a))"
    using add(2,3) c same by (simp_all add: same_fds_def setWriteCallback_def setCallback_def channel_new_def)
qed

lemma newConnection_inv:
  assumes "fd_kernel K socks interest" and "server_rel socks interest {fd} (s, w)"
    and "0 \<le> fd" and "fd \<noteq> listenFd s" and "live s fd = None"
  shows "\<exists>s' w'. newConnection N K fd (s, w) = Some (s', w') \<and> server_inv socks interest (s', w')
    \<and> listenFd s' = listenFd s \<and> (\<exists>c a l. connections s' = map_insert fd c (connections s)
        \<and> connection_new K a l fd w = (c, w'))"
proof -
  let ?l = "nat (fd mod int (length (subQuit s)))"
  obtain c w' where c: "connection_new K (nextAddr s) ?l fd w = (c, w')" by fastforce
  let ?s = "s\<lparr>connections := map_insert fd c (connections s), nextAddr := Suc (nextAddr s)\<rparr>"
  have tab: "table_ok s" and inv: "socks w = insert (listenFd s) (dom (live s) \<union> {fd})" "ptr interest w = registry s" "0 < nextAddr s"
    using assms(2) by (simp_all add: server_rel_def)
  have "fd \<in> socks w" "\<forall>ep. ptr interest w ep fd = None" using inv(1,2) assms(4,5) by (simp_all add: registry_def)
  note new = connection_new_registers [OF assms(1) this c]
  have live': "live ?s = (live s)(fd \<mapsto> conn_id c)"
    using conn_map.view_ins [where f = conn_id] by (simp add: live_def)
  let ?addr = "\<lambda>m x. fst (snd (the (m x)))"
  have old: "?addr (live s) x < nextAddr s" if "x \<in> dom (live s)" for x
    using that table_okD(3) [OF tab, of x] by fastforce
  have "inj_on (?addr (live ?s)) (dom (live ?s))"
    unfolding inj_on_def
  proof (intro ballI impI)
    fix x y
    assume "x \<in> dom (live ?s)" "y \<in> dom (live ?s)" "?addr (live ?s) x = ?addr (live ?s) y"
    with old [of x] old [of y] inj_onD [OF table_okD(4) [OF tab], of x y] show "x = y"
      by (auto simp: live' new(1) split: if_splits)
  qed
  moreover have "0 \<le> x \<and> x \<noteq> listenFd ?s \<and> (\<exists>a. y = (x, a, nat (x mod int (length (subQuit ?s))), x, Some HandleMessage, Some HandleWrite, conn_mask)
      \<and> 0 < a \<and> a < nextAddr ?s)" if "live ?s x = Some y" for x y
    using that table_okD(3) [OF tab, of x y] assms(3,4) inv(3) by (cases "x = fd") (auto simp: live' new(1))
  ultimately have "table_ok ?s"
    unfolding table_ok_def using table_okD(2,5) [OF tab] map_sorted_insert [OF table_okD(1) [OF tab]] by simp
  moreover have "registry ?s = (registry s)(?l := (registry s ?l)(fd := Some (nextAddr s)))"
    using assms(4,5) by (auto simp: registry_def live' new(1) fun_eq_iff)
  ultimately have "server_inv socks interest (?s, w')"
    using new(2,3) inv by (auto simp: server_rel_def live')
  moreover have "newConnection N K fd (s, w) = Some (?s, w')"
    using assms(3,5) c table_okD(2) [OF tab] by (simp add: newConnection_def live_None)
  ultimately show ?thesis using c by auto
qed

lemma accepted_pending:
  assumes "fd_net N socks interest" and "server_inv socks interest (s, w)"
    and "n_accept N (listenFd s) w = (Ret fd, w')"
    and "w1 = socket_setNoDelay N fd (socket_setnonblocking N fd w')"
  shows "server_rel socks interest {fd} (s, w1)" and "0 \<le> fd" and "fd \<noteq> listenFd s" and "live s fd = None"
proof -
  note acc = fd_netD(8) [OF assms(1,3), unfolded new_socket_def, simplified]
  have "same_fds socks interest w' (socket_setnonblocking N fd w')"
    unfolding socket_setnonblocking_def
    using fd_netD(5) [OF assms(1), of fd w'] fd_netD(6) [OF assms(1)] by (auto split: prod.splits intro: same_fds_trans)
  then have "same_fds socks interest w' w1"
    using assms(4) fd_netD(2) [OF assms(1)] by (auto simp: socket_setNoDelay_def intro: same_fds_trans)
  with acc have w1: "socks w1 = insert fd (socks w)" "ptr interest w1 = ptr interest w"
    by (simp_all add: same_fds_def ptr_def fun_eq_iff)
  with assms(2) show "server_rel socks interest {fd} (s, w1)" by (auto simp: server_rel_def)
  from acc assms(2) show "0 \<le> fd" "fd \<noteq> listenFd s" "live s fd = None"
    by (auto simp: server_rel_def unused_def)
qed

lemma accept_event_inv:
  assumes "fd_kernel K socks interest" and "fd_net N socks interest" and "server_inv socks interest (s, w)"
    and "accept_event N K (s, w) = Some (s', w')"
  shows "server_inv socks interest (s', w')"
proof -
  let ?I = "\<lambda>x v. server_inv socks interest (x, v) \<and> listenFd x = listenFd s"
  have "?I (fst (s', w')) (snd (s', w')) \<and> (\<exists>w0 e. ?I (fst (s', w')) w0 \<and> n_accept N (listenFd s) w0 = (Err e, snd (s', w')) \<and> e \<noteq> EINTR)"
  proof (rule acceptConnection_rule [where I = ?I])
    show "acceptConnection N (newConnection N K) (listenFd s) (s, w) = Some (s', w')"
      using assms(4) by (simp add: accept_event_def)
  next
    fix x v e v'
    assume i: "?I x v" and a: "n_accept N (listenFd s) v = (Err e, v')"
    have "same_fds socks interest v v'" using fd_netD(8) [OF assms(2) a] by (simp add: new_socket_def)
    with i server_rel_cong [of socks interest "{}" x v v' x] show "?I x v'" by (auto simp: server_rel_def table_okD(1))
  next
    fix x v fd v' xv
    assume i: "?I x v" and a: "n_accept N (listenFd s) v = (Ret fd, v')"
      and cb: "newConnection N K fd (x, socket_setNoDelay N fd (socket_setnonblocking N fd v')) = Some xv"
    from i a have "server_inv socks interest (x, v)" "n_accept N (listenFd x) v = (Ret fd, v')" by simp_all
    note p = accepted_pending [OF assms(2) this refl]
    from newConnection_inv [OF assms(1) p, of N] cb i show "?I (fst xv) (snd xv)" by auto
  qed (use assms(3) in simp)
  then show ?thesis by simp
qed

lemma shutdown_idle_same:
  "fd_net N socks interest \<Longrightarrow> same_fds socks interest w (shutdown_idle N now timeout m w)"
proof (induction N now timeout m w rule: shutdown_idle.induct)
  case (2 N now timeout fd c m w)
  then show ?case using fd_netD(7) [OF 2(2), of w fd] by (auto intro: same_fds_trans)
qed simp

lemma sweepIdle_same:
  assumes "fd_kernel K socks interest" and "fd_net N socks interest"
  shows "same_fds socks interest w (sweepIdle N K s w)"
  unfolding sweepIdle_def
  by (auto split: prod.splits intro: same_fds_trans [OF fd_kernelD(7) [OF assms(1)] shutdown_idle_same [OF assms(2)]])

lemma loopCallback_inv:
  assumes "fd_kernel K socks interest" and "fd_net N socks interest" and "server_inv socks interest (s, w)"
  shows "server_inv socks interest (loopCallback N K g (s, w))"
proof -
  have srt: "map_sorted (connections s)" using assms(3) by (simp add: server_rel_def table_okD(1))
  have "server_inv socks interest (server_stop s, w)"
    by (rule server_rel_cong [OF assms(3)]) (simp_all add: server_stop_def live_def srt)
  moreover have "server_inv socks interest (s, sweepIdle N K s w)"
    by (rule server_rel_cong [OF assms(3) sweepIdle_same [OF assms(1,2)]]) (simp_all add: srt)
  ultimately show ?thesis by (simp add: loopCallback_def)
qed

subsection \<open>Reachable states\<close>

lemma acceptor_new_registers:
  assumes "fd_kernel K socks interest" and "fd_net N socks interest"
    and "acceptor_new N K getenv a l w = (Inr (fd, ch), w')"
  shows "socks w' = insert fd (socks w)" and "ptr interest w' = (ptr interest w)(l := (ptr interest w l)(fd := Some a))"
    and "0 \<le> fd"
proof -
  note n = fd_netD [OF assms(2)]
  obtain r w0 where s: "n_socket N w = (r, w0)" by fastforce
  with assms(3) have r: "r = Ret fd"
    by (auto simp: acceptor_new_def socket_new_def split: sysret.splits sum.splits prod.splits)
  let ?w1 = "n_setsockopt N fd ReuseAddr w0"
  obtain b w2 where b: "n_bind N fd (inet_address N (serverHost getenv) (word_of_int (serverPort getenv))) ?w1 = (b, w2)" by fastforce
  obtain li w3 where li: "n_listen N fd 65535 w2 = (li, w3)" by fastforce
  obtain fl w4 where fl: "n_getfl N fd w3 = (fl, w4)" by fastforce
  let ?w5 = "n_setfl N fd (fl OR O_NONBLOCK) w4"
  let ?ch = "(setCallback (channel_new a l fd) AcceptConnection)\<lparr>ch_events := EPOLLIN OR EPOLLPRI OR EPOLLRDHUP\<rparr>"
  have u: "updateChannel K ?ch ?w5 = (ch, w')"
    using assms(3) s r b li fl
    by (auto simp: acceptor_new_def socket_new_def socket_bind_def socket_listen_def socket_setnonblocking_def errif_def
        enableReading_def setCallback_def channel_new_def split: if_splits prod.splits)
  have new: "unused socks interest fd w" "socks w0 = insert fd (socks w)" "interest w0 = interest w"
    using n(1) [OF s] r by (simp_all add: new_socket_def)
  have "same_fds socks interest w0 ?w5"
    using n(2) [of w0 fd ReuseAddr] n(3) [OF b] n(4) [OF li] n(5) [OF fl] n(6) [of w4 fd] by (metis same_fds_trans)
  with new have w5: "socks ?w5 = insert fd (socks w)" "interest ?w5 = interest w" by (simp_all add: same_fds_def)
  then have "ptr interest ?w5 = ptr interest w" by (simp add: ptr_def fun_eq_iff)
  with updateChannel_adds(2,3) [OF assms(1) _ _ _ u] w5 new(1) show "socks w' = insert fd (socks w)"
    and "ptr interest w' = (ptr interest w)(l := (ptr interest w l)(fd := Some a))"
    by (simp_all add: unused_def setCallback_def channel_new_def)
  show "0 \<le> fd" using n(1) [OF s] r by (simp add: new_socket_def)
qed

lemma add_loops_same:
  "fd_net N socks interest \<Longrightarrow> add_loops N is p w = (r, w') \<Longrightarrow> same_fds socks interest w w'"
proof (induction N "is" p w rule: add_loops.induct)
  case (2 N i "is" p w)
  obtain u w1 where u: "n_epoll_create N w = (u, w1)" by fastforce
  have "same_fds socks interest w w1" by (rule fd_netD(10) [OF 2(2) u])
  with 2 u show ?case
    by (auto simp: epoll_new_def errif_def split: if_splits sum.splits intro: same_fds_trans)
qed simp

text \<open>A server that was just constructed, with at least one sub reactor.\<close>

definition server_start ::
    "'w net \<Rightarrow> 'w kernel \<Rightarrow> environ \<Rightarrow> ('w \<Rightarrow> int set) \<Rightarrow> ('w \<Rightarrow> interests) \<Rightarrow> server \<times> 'w \<Rightarrow> bool" where
  "server_start N K getenv socks interest sw \<longleftrightarrow>
     (\<exists>n w0. 0 < n \<and> socks w0 = {} \<and> interest w0 = (\<lambda>ep fd. None)
        \<and> server_new N K getenv n w0 = (Inr (fst sw), snd sw))"

lemma server_start_inv:
  assumes "fd_kernel K socks interest" and "fd_net N socks interest"
    and "server_start N K getenv socks interest (s, w)"
  shows "server_inv socks interest (s, w)"
proof -
  from assms(3) obtain n w0 where n: "0 < n" "socks w0 = {}" "interest w0 = (\<lambda>ep fd. None)"
    and new: "server_new N K getenv n w0 = (Inr s, w)"
    by (auto simp: server_start_def)
  from new obtain fd ch w1 pool where a: "acceptor_new N K getenv 0 n w0 = (Inr (fd, ch), w1)"
    and l: "add_loops N [0..<n] (pool_new n) w1 = (Inr pool, w)"
    by (auto simp: server_new_def split: prod.splits sum.splits)
  have same: "same_fds socks interest w1 w" by (rule add_loops_same [OF assms(2) l])
  have s: "connections s = []" "length (subQuit s) = n" "listenFd s = fd" "nextAddr s = 1"
    using new a l by (auto simp: server_new_def)
  then have live: "live s = Map.empty" by (simp add: live_def fun_eq_iff)
  have "subQuit s \<noteq> []" using s(2) n(1) by auto
  with live s have "table_ok s"
    using acceptor_new_registers(3) [OF assms(1,2) a] by (simp add: table_ok_def map_sorted_def)
  moreover have "ptr interest w0 = (\<lambda>ep fd. None)" using n(3) by (simp add: ptr_def fun_eq_iff)
  then have "ptr interest w1 = registry s"
    using acceptor_new_registers(2) [OF assms(1,2) a] s live by (auto simp: registry_def fun_eq_iff)
  then have "ptr interest w = registry s" using same by (simp add: same_fds_def ptr_def fun_eq_iff)
  ultimately show ?thesis
    using acceptor_new_registers(1) [OF assms(1,2) a] same n(2) s live by (simp add: server_rel_def same_fds_def)
qed

text \<open>
  What can happen, one callback at a time: the main reactor accepts, a sub reactor handles
  an event of a connection, the main reactor runs its housekeeping, and everything else
  (peers, DB threads) goes on without opening or closing these descriptors.
\<close>

inductive server_step ::
    "'w net \<Rightarrow> 'w kernel \<Rightarrow> environ \<Rightarrow> ('w \<Rightarrow> bool) \<Rightarrow> ('w \<Rightarrow> int set) \<Rightarrow> ('w \<Rightarrow> interests)
     \<Rightarrow> server \<times> 'w \<Rightarrow> server \<times> 'w \<Rightarrow> bool"
  for N K getenv g_shutdown socks interest where
  step_accept: "accept_event N K (s, w) = Some sw' \<Longrightarrow> server_step N K getenv g_shutdown socks interest (s, w) sw'"
| step_event: "connection_event N K getenv fd revents (s, w) = Some sw'
    \<Longrightarrow> server_step N K getenv g_shutdown socks interest (s, w) sw'"
| step_tick: "server_step N K getenv g_shutdown socks interest (s, w) (loopCallback N K g_shutdown (s, w))"
| step_world: "same_fds socks interest w w'
    \<Longrightarrow> server_step N K getenv g_shutdown socks interest (s, w) (s\<lparr>serverShared := sh\<rparr>, w')"

lemma server_step_inv:
  assumes "fd_kernel K socks interest" and "fd_net N socks interest"
    and "server_step N K getenv g_shutdown socks interest sw sw'" and "server_inv socks interest sw"
  shows "server_inv socks interest sw'"
  using assms(3,4)
proof cases
  case (step_accept s w)
  with assms(4) accept_event_inv [OF assms(1,2), of s w "fst sw'" "snd sw'"] show ?thesis by simp
next
  case (step_event fd revents s w)
  with assms(4) connection_event_inv [OF assms(1,2)] show ?thesis by blast
next
  case (step_tick s w)
  with assms(4) loopCallback_inv [OF assms(1,2)] show ?thesis by blast
next
  case (step_world w w' s sh)
  have "server_inv socks interest (s, w)" using assms(4) step_world by simp
  then have "server_inv socks interest (s, w')"
    by (rule server_rel_cong [OF _ step_world(3)]) (use \<open>server_inv socks interest (s, w)\<close> in \<open>simp_all add: server_rel_def table_okD(1)\<close>)
  with step_world(2) show ?thesis by (simp only: shared_irrelevant)
qed

interpretation servers: inductive_invariant "server_start N K getenv socks interest"
    "server_step N K getenv g_shutdown socks interest"
    "\<lambda>sw. fd_kernel K socks interest \<longrightarrow> fd_net N socks interest \<longrightarrow> server_inv socks interest sw"
  for N :: "'w net" and K getenv g_shutdown socks interest
  by unfold_locales (use server_start_inv server_step_inv in \<open>fastforce\<close>)+

end
