(* ===== verification/ServerProperties.thy ===== *)
theory ServerProperties
  imports ServerInv
begin

section \<open>Properties of the server\<close>

text \<open>
  The properties of the connection table, the accept loop, the idle sweep and the shutdown,
  and a concrete network to run them on.
\<close>

subsection \<open>A network for concrete runs\<close>

text \<open>
  Sockets are numbered upwards from 3; \<open>nw_waiting\<close> clients wait to be accepted; the interest
  lists are one association list; \<open>nw_shut\<close> records the calls of \<^verbatim>\<open>shutdown\<close>.
\<close>

record netw =
  nw_socks :: "int list"
  nw_next :: int
  nw_waiting :: nat
  nw_interest :: "((nat \<times> int) \<times> epoll_event) list"
  nw_shut :: "int list"
  nw_time :: int

definition nw_list :: "'a netw_scheme \<Rightarrow> nat \<Rightarrow> int \<Rightarrow> epoll_event option" where
  "nw_list w ep fd = map_of (nw_interest w) (ep, fd)"

definition nw_fresh :: "'a netw_scheme \<Rightarrow> int sysret \<times> 'a netw_scheme" where
  "nw_fresh w =
     (if nw_next w \<ge> 0 \<and> nw_next w \<notin> set (nw_socks w) \<and> (\<forall>e \<in> set (nw_interest w). snd (fst e) \<noteq> nw_next w)
      then (Ret (nw_next w), w\<lparr>nw_socks := nw_next w # nw_socks w, nw_next := nw_next w + 1\<rparr>)
      else (Err (EOther 24), w))"

definition nw_close :: "int \<Rightarrow> 'a netw_scheme \<Rightarrow> 'a netw_scheme" where
  "nw_close fd w = w\<lparr>nw_socks := filter (\<lambda>x. x \<noteq> fd) (nw_socks w),
                    nw_interest := filter (\<lambda>e. snd (fst e) \<noteq> fd) (nw_interest w)\<rparr>"

definition toy_net :: "'a netw_scheme net" where
  "toy_net =
     \<lparr>n_socket = nw_fresh, n_setsockopt = (\<lambda>fd opt w. w), n_bind = (\<lambda>fd a w. (Ret (), w)),
      n_listen = (\<lambda>fd b w. (Ret (), w)), n_getfl = (\<lambda>fd w. (0, w)), n_setfl = (\<lambda>fd f w. w),
      n_accept = (\<lambda>lfd w. if nw_waiting w = 0 then (Err EAGAIN, w)
                          else nw_fresh (w\<lparr>nw_waiting := nw_waiting w - 1\<rparr>)),
      n_connect = (\<lambda>fd a w. (Ret (), w)), n_shutdown = (\<lambda>fd w. w\<lparr>nw_shut := nw_shut w @ [fd]\<rparr>),
      n_close = nw_close, n_inet_addr = (\<lambda>ip. 0), n_epoll_create = (\<lambda>w. (Ret (), w))\<rparr>"

definition toy_epoll :: "'a netw_scheme kernel" where
  "toy_epoll =
     \<lparr>k_write = (\<lambda>fd d w. (Ret (length d), w)), k_read = (\<lambda>fd n w. (Ret [], w)),
      k_sendfile = (\<lambda>fd f off cnt w. (Ret 0, w)),
      k_epoll_ctl = (\<lambda>ep op fd ev w.
        if op = CtlAdd \<and> nw_list w ep fd \<noteq> None then (Err EEXIST, w)
        else if op = CtlMod \<and> nw_list w ep fd = None then (Err (EOther 2), w)
        else (Ret (), w\<lparr>nw_interest := ((ep, fd), ev) # nw_interest w\<rparr>)),
      k_time = (\<lambda>w. (nw_time w, w)), k_open = (\<lambda>p w. (-1, w)), k_fstat = (\<lambda>fd w. (None, w)),
      k_close = nw_close\<rparr>"

abbreviation toy_socks :: "'a netw_scheme \<Rightarrow> int set" where
  "toy_socks w \<equiv> set (nw_socks w)"

lemma nw_close_closes: "closes nw_close toy_socks nw_list"
proof -
  have "map_of (filter (\<lambda>e. snd (fst e) \<noteq> fd) xs) (ep, x) = (if x = fd then None else map_of xs (ep, x))"
    for fd x ep and xs :: "((nat \<times> int) \<times> epoll_event) list"
    by (induction xs) auto
  then show ?thesis by (auto simp: closes_def nw_close_def nw_list_def fun_eq_iff)
qed

lemma nw_fresh_new: "nw_fresh w = (r, w') \<Longrightarrow> new_socket toy_socks nw_list r w w'"
  by (force simp: nw_fresh_def new_socket_def unused_def same_fds_def nw_list_def fun_eq_iff map_of_eq_None_iff
      split: if_splits)

lemma toy_net_fds: "fd_net toy_net toy_socks nw_list"
proof -
  have "n_accept toy_net lfd w = (r, w') \<Longrightarrow> new_socket toy_socks nw_list r w w'" for lfd w r w'
    using nw_fresh_new [of "w\<lparr>nw_waiting := nw_waiting w - 1\<rparr>" r w']
    by (auto simp: toy_net_def new_socket_def same_fds_def unused_def nw_list_def fun_eq_iff split: if_splits sysret.splits)
  moreover have "n_socket toy_net = nw_fresh" "n_close toy_net = nw_close" by (simp_all add: toy_net_def)
  ultimately show ?thesis
    using nw_fresh_new nw_close_closes unfolding fd_net_def
    by (auto simp: same_fds_def nw_list_def fun_eq_iff) (auto simp: toy_net_def)
qed

lemma toy_epoll_fds: "fd_kernel toy_epoll toy_socks nw_list"
proof -
  have "epoll_contract toy_epoll nw_list"
    unfolding epoll_contract_def toy_epoll_def nw_list_def
    by (auto simp: fun_eq_iff split: if_splits) (metis epoll_op.exhaust)+
  moreover have "no_ctl_failure toy_epoll nw_list toy_socks"
    unfolding no_ctl_failure_def toy_epoll_def by (auto split: if_splits)
  moreover have "k_close toy_epoll = nw_close" by (simp add: toy_epoll_def)
  ultimately show ?thesis
    using nw_close_closes unfolding fd_kernel_def by (simp add: toy_epoll_def same_fds_def)
qed

definition toy_boot :: netw where
  "toy_boot = \<lparr>nw_socks = [], nw_next = 3, nw_waiting = 2, nw_interest = [], nw_shut = [], nw_time = 100\<rparr>"

text \<open>The server on two sub reactors, before and after two clients were accepted.\<close>

definition toy_channel :: "nat \<Rightarrow> nat \<Rightarrow> int \<Rightarrow> channel" where
  "toy_channel a l fd = \<lparr>ch_addr = a, ch_loop = l, ch_fd = fd, ch_events = 0x80002003, ch_revents = 0, inEpoll = True,
     read_callback = Some HandleMessage, write_callback = Some HandleWrite\<rparr>"

definition toy_connection :: "nat \<Rightarrow> nat \<Rightarrow> int \<Rightarrow> connection" where
  "toy_connection a l fd = \<lparr>conn_channel = toy_channel a l fd, sock_fd = fd, writeBuf = [], writeIndex = 0, inputBuffer = [],
     closeAfterWrite = False, lastActiveSec = 100, fileFd = -1, fileOffset = 0, fileRemaining = 0\<rparr>"

definition toy_server :: server where
  "toy_server =
     \<lparr>mainQuit = False, subQuit = [False, False], connections = [], thPool = \<lparr>tasks = [0, 1], stop = False, threads = [Waiting, Waiting]\<rparr>,
      serverShared = \<lparr>dbPool = pool_new kDbThreads, staticCache = static_cache_new,
                      rateLimiter = \<lparr>windowSec = 0, win_count = 0\<rparr>\<rparr>,
      listenFd = 3,
      acceptChannel = \<lparr>ch_addr = 0, ch_loop = 2, ch_fd = 3, ch_events = 0x2003, ch_revents = 0, inEpoll = True,
        read_callback = Some AcceptConnection, write_callback = None\<rparr>, nextAddr = 1\<rparr>"

definition toy_listening :: netw where
  "toy_listening = toy_boot\<lparr>nw_socks := [3], nw_next := 4, nw_interest := [((2, 3), \<lparr>ev_events = 0x2003, ev_ptr = 0\<rparr>)]\<rparr>"

definition toy_busy :: server where
  "toy_busy = toy_server\<lparr>connections := [(4, toy_connection 1 0 4), (5, toy_connection 2 1 5)], nextAddr := 3\<rparr>"

definition toy_crowd :: netw where
  "toy_crowd = toy_boot\<lparr>nw_socks := [5, 4, 3], nw_next := 6, nw_waiting := 0, nw_interest :=
     [((1, 5), \<lparr>ev_events = 0x80002003, ev_ptr = 2\<rparr>), ((0, 4), \<lparr>ev_events = 0x80002003, ev_ptr = 1\<rparr>),
      ((2, 3), \<lparr>ev_events = 0x2003, ev_ptr = 0\<rparr>)]\<rparr>"

lemmas toy_run_defs = toy_boot_def toy_server_def toy_listening_def toy_busy_def toy_crowd_def toy_connection_def
  toy_channel_def toy_net_def toy_epoll_def nw_fresh_def nw_list_def

lemma toy_starts: "server_new toy_net toy_epoll (\<lambda>_. None) 2 toy_boot = (Inr toy_server, toy_listening)"
  by (simp add: server_new_def acceptor_new_def socket_new_def socket_bind_def socket_listen_def errif_def failed_def
      socket_setnonblocking_def enableReading_def updateChannel_def setCallback_def channel_new_def toy_run_defs
      epoll_flags upt_rec numeral_2_eq_2 epoll_new_def pool_add_def pool_new_def)

lemma toy_start: "server_start toy_net toy_epoll (\<lambda>_. None) toy_socks nw_list (toy_server, toy_listening)"
  unfolding server_start_def using toy_starts
  by (intro exI [of _ 2] exI [of _ toy_boot]) (simp add: toy_boot_def nw_list_def fun_eq_iff)

lemma toy_newConnection:
  "newConnection toy_net toy_epoll 4 (toy_server, toy_listening\<lparr>nw_socks := [4, 3], nw_next := 5, nw_waiting := 1\<rparr>) =
     Some (toy_server\<lparr>connections := [(4, toy_connection 1 0 4)], nextAddr := 2\<rparr>,
           toy_crowd\<lparr>nw_socks := [4, 3], nw_next := 5, nw_waiting := 1, nw_interest := tl (nw_interest toy_crowd)\<rparr>)"
  "newConnection toy_net toy_epoll 5 (toy_server\<lparr>connections := [(4, toy_connection 1 0 4)], nextAddr := 2\<rparr>,
       toy_crowd\<lparr>nw_interest := tl (nw_interest toy_crowd)\<rparr>) = Some (toy_busy, toy_crowd)"
  by (simp_all add: newConnection_def connection_new_def enableReadingET_def updateChannel_def setCallback_def
      setWriteCallback_def channel_new_def toy_run_defs epoll_flags)

lemma toy_accepts: "accept_event toy_net toy_epoll (toy_server, toy_listening) = Some (toy_busy, toy_crowd)"
proof -
  let ?f = "acceptConnection toy_net (newConnection toy_net toy_epoll) 3"
  have "?f (toy_server, toy_listening) =
      ?f (toy_server\<lparr>connections := [(4, toy_connection 1 0 4)], nextAddr := 2\<rparr>,
          toy_crowd\<lparr>nw_socks := [4, 3], nw_next := 5, nw_waiting := 1, nw_interest := tl (nw_interest toy_crowd)\<rparr>)"
    using toy_newConnection(1)
    by (subst acceptConnection.simps) (simp add: toy_net_def nw_fresh_def socket_setNoDelay_def socket_setnonblocking_def
        toy_listening_def toy_boot_def)
  also have "\<dots> = ?f (toy_busy, toy_crowd)"
    using toy_newConnection(2)
    by (subst acceptConnection.simps) (simp add: toy_net_def nw_fresh_def socket_setNoDelay_def socket_setnonblocking_def
        toy_crowd_def toy_boot_def)
  also have "\<dots> = Some (toy_busy, toy_crowd)"
    by (subst acceptConnection.simps) (simp add: toy_net_def toy_crowd_def)
  finally show ?thesis by (simp add: accept_event_def toy_server_def)
qed

lemma toy_reached:
  "reach (server_start toy_net toy_epoll (\<lambda>_. None) toy_socks nw_list)
     (server_step toy_net toy_epoll (\<lambda>_. None) g toy_socks nw_list) (toy_busy, toy_crowd)"
  by (rule reach_step [OF reach_init [of _ "(toy_server, toy_listening)"]])
    (simp_all add: toy_start server_step.step_accept [OF toy_accepts])

subsection \<open>The connection table\<close>

lemma reachable_inv:
  assumes "fd_kernel K socks interest" and "fd_net N socks interest"
    and "reach (server_start N K getenv socks interest) (server_step N K getenv g socks interest) sw"
  shows "server_inv socks interest sw"
  using servers.reach_inv [OF assms(3)] assms(1,2) by blast

lemma table_entry:
  assumes "table_ok s" and "map_of (connections s) fd = Some c"
  shows "0 \<le> fd" and "fd \<noteq> listenFd s" and "sock_fd c = fd" and "ch_fd (conn_channel c) = fd"
    and "ch_loop (conn_channel c) = nat (fd mod int (length (subQuit s)))" and "ch_loop (conn_channel c) < length (subQuit s)"
    and "read_callback (conn_channel c) = Some HandleMessage" and "write_callback (conn_channel c) = Some HandleWrite"
proof -
  have "live s fd = Some (conn_id c)" using assms(2) by (simp add: live_def)
  note e = table_okD(3) [OF assms(1) this]
  then show "0 \<le> fd" "fd \<noteq> listenFd s" "sock_fd c = fd" "ch_fd (conn_channel c) = fd"
    "read_callback (conn_channel c) = Some HandleMessage" "write_callback (conn_channel c) = Some HandleWrite"
    and l: "ch_loop (conn_channel c) = nat (fd mod int (length (subQuit s)))"
    by (auto simp: conn_id_def)
  have "0 < int (length (subQuit s))" using table_okD(2) [OF assms(1)] by simp
  from pos_mod_bound [OF this, of fd] pos_mod_sign [OF this, of fd] l
  show "ch_loop (conn_channel c) < length (subQuit s)" by (simp add: nat_less_iff)
qed

lemma map_of_entry: "map_sorted m \<Longrightarrow> map_of m fd = Some c \<longleftrightarrow> (fd, c) \<in> set m"
  using map_sorted_distinct by (metis map_of_eq_Some_iff)

lemma map_le_entries:
  assumes "map_of m \<subseteq>\<^sub>m map_of m'" and "map_sorted m" and "map_sorted m'"
  shows "set m \<subseteq> set m'"
proof
  fix x assume "x \<in> set m"
  then have "map_of m (fst x) = Some (snd x)" using map_of_entry [OF assms(2), of "fst x" "snd x"] by simp
  then have "map_of m' (fst x) = Some (snd x)" using assms(1) by (metis domI map_le_def)
  then show "x \<in> set m'" using map_of_entry [OF assms(3), of "fst x" "snd x"] by simp
qed

lemma dom_live: "dom (live s) = fst ` set (connections s)"
  by (auto simp: live_def dom_def dom_map_of_conv_image_fst [symmetric])

text \<open>
  C6: the connection table is sound. In every reachable state the table is ordered, it holds
  exactly the accepted sockets that are open (no descriptor leaks, none is closed twice or
  closed while in the table), and every connection is stored under its own descriptor, polls
  that descriptor, and belongs to the sub reactor given by the remainder, which exists.
\<close>

theorem connection_table_sound:
  assumes "fd_kernel K socks interest" and "fd_net N socks interest"
    and "reach (server_start N K getenv socks interest) (server_step N K getenv g socks interest) (s, w)"
  shows "map_sorted (connections s)
    \<and> socks w = insert (listenFd s) (fst ` set (connections s)) \<and> listenFd s \<notin> fst ` set (connections s)
    \<and> (\<forall>(fd, c) \<in> set (connections s). 0 \<le> fd \<and> sock_fd c = fd \<and> ch_fd (conn_channel c) = fd
         \<and> ch_loop (conn_channel c) = nat (fd mod int (length (subQuit s)))
         \<and> ch_loop (conn_channel c) < length (subQuit s))"
proof -
  have inv: "table_ok s" "socks w = insert (listenFd s) (dom (live s))"
    using reachable_inv [OF assms] by (simp_all add: server_rel_def)
  have srt: "map_sorted (connections s)" by (rule table_okD(1) [OF inv(1)])
  have ent: "map_of (connections s) fd = Some c" if "(fd, c) \<in> set (connections s)" for fd c
    using map_of_entry [OF srt] that by blast
  have "listenFd s \<notin> fst ` set (connections s)" using table_entry(2) [OF inv(1) ent] by force
  moreover have "\<forall>(fd, c) \<in> set (connections s). 0 \<le> fd \<and> sock_fd c = fd \<and> ch_fd (conn_channel c) = fd
         \<and> ch_loop (conn_channel c) = nat (fd mod int (length (subQuit s)))
         \<and> ch_loop (conn_channel c) < length (subQuit s)"
    using table_entry [OF inv(1) ent] by (intro ballI, case_tac x) simp
  ultimately show ?thesis using srt inv(2) by (simp add: dom_live)
qed

theorem connection_table_sound_witness:
  "map fst (connections toy_busy) = [4, 5] \<and> toy_socks toy_crowd = {3, 4, 5}
   \<and> list_all (\<lambda>(fd, c). sock_fd c = fd \<and> ch_loop (conn_channel c) < 2) (connections toy_busy)"
  using connection_table_sound [OF toy_epoll_fds toy_net_fds toy_reached [of "\<lambda>_. False"]]
  by (auto simp: toy_busy_def toy_crowd_def toy_server_def)

lemma inv_registry:
  assumes "server_inv socks interest (s, w)"
  shows "map_option ev_ptr (interest w ep fd) = registry s ep fd"
  using assms by (simp add: server_rel_def ptr_def fun_eq_iff)

lemma registered_live:
  assumes "server_inv socks interest (s, w)" and "ep < length (subQuit s)" and "interest w ep fd = Some ev"
  shows "\<exists>c. (fd, c) \<in> set (connections s) \<and> ch_loop (conn_channel c) = ep \<and> ch_addr (conn_channel c) = ev_ptr ev"
proof -
  have "registry s ep fd = Some (ev_ptr ev)" using inv_registry [OF assms(1), of ep fd] assms(3) by simp
  then obtain c where "map_of (connections s) fd = Some c" "ch_loop (conn_channel c) = ep" "ch_addr (conn_channel c) = ev_ptr ev"
    using assms(2) by (auto simp: registry_def live_def conn_id_def split: if_splits option.splits)
  moreover have "map_sorted (connections s)" using assms(1) by (simp add: server_rel_def table_okD(1))
  ultimately show ?thesis by (auto simp: map_of_entry)
qed

lemma live_registered:
  assumes "server_inv socks interest (s, w)" and "map_of (connections s) fd = Some c"
  shows "\<exists>ev. interest w (ch_loop (conn_channel c)) fd = Some ev \<and> ev_ptr ev = ch_addr (conn_channel c)"
proof -
  have "fd \<noteq> listenFd s" using table_entry(2) [OF _ assms(2)] assms(1) by (simp add: server_rel_def)
  then have "registry s (ch_loop (conn_channel c)) fd = Some (ch_addr (conn_channel c))"
    using assms(2) by (simp add: registry_def live_def conn_id_def)
  then have "map_option ev_ptr (interest w (ch_loop (conn_channel c)) fd) = Some (ch_addr (conn_channel c))"
    using inv_registry [OF assms(1)] by simp
  then show ?thesis by auto
qed

lemma addresses_distinct:
  assumes "table_ok s"
  shows "distinct (map (\<lambda>(fd, c). ch_addr (conn_channel c)) (connections s))"
proof (subst distinct_map, intro conjI inj_onI)
  have srt: "map_sorted (connections s)" by (rule table_okD(1) [OF assms])
  show "distinct (connections s)" using map_sorted_distinct [OF srt] by (simp add: distinct_map)
  fix x y
  assume a: "x \<in> set (connections s)" "y \<in> set (connections s)"
    "(case x of (fd, c) \<Rightarrow> ch_addr (conn_channel c)) = (case y of (fd, c) \<Rightarrow> ch_addr (conn_channel c))"
  obtain fd c fd' c' where xy: "x = (fd, c)" "y = (fd', c')" by (metis prod.exhaust)
  have m: "map_of (connections s) fd = Some c" "map_of (connections s) fd' = Some c'"
    using a(1,2) map_of_entry [OF srt] by (simp_all add: xy)
  have "fd = fd'"
    using inj_onD [OF table_okD(4) [OF assms], of fd fd'] m a(3) by (simp add: xy live_def conn_id_def domIff)
  with m xy show "x = y" by simp
qed

text \<open>
  C7: an event reaches a live connection. In every reachable state each registration in the
  interest list of a sub reactor carries the address of a live connection of that reactor,
  with its descriptor: the pointer that \<^verbatim>\<open>epoll_wait\<close> returns never dangles and never belongs
  to another connection; and every live connection is registered with its reactor, provided
  that \<^verbatim>\<open>epoll_ctl\<close> on an open descriptor never runs out of resources (part of \<open>fd_kernel\<close>).
\<close>

theorem events_reach_live_connections:
  assumes "fd_kernel K socks interest" and "fd_net N socks interest"
    and "reach (server_start N K getenv socks interest) (server_step N K getenv g socks interest) (s, w)"
  shows "(\<forall>ep fd ev. ep < length (subQuit s) \<longrightarrow> interest w ep fd = Some ev \<longrightarrow>
        (\<exists>c. (fd, c) \<in> set (connections s) \<and> ch_loop (conn_channel c) = ep \<and> ch_addr (conn_channel c) = ev_ptr ev))
    \<and> (\<forall>(fd, c) \<in> set (connections s).
        \<exists>ev. interest w (ch_loop (conn_channel c)) fd = Some ev \<and> ev_ptr ev = ch_addr (conn_channel c))
    \<and> distinct (map (\<lambda>(fd, c). ch_addr (conn_channel c)) (connections s))"
proof -
  note inv = reachable_inv [OF assms]
  then have tab: "table_ok s" by (simp add: server_rel_def)
  have "\<exists>ev. interest w (ch_loop (conn_channel c)) fd = Some ev \<and> ev_ptr ev = ch_addr (conn_channel c)"
    if "(fd, c) \<in> set (connections s)" for fd c
    using live_registered [OF inv] map_of_entry [OF table_okD(1) [OF tab]] that by blast
  then show ?thesis using registered_live [OF inv] addresses_distinct [OF tab] by auto
qed

theorem events_reach_live_connections_witness:
  "\<exists>ev c. nw_list toy_crowd 1 5 = Some ev \<and> (5, c) \<in> set (connections toy_busy) \<and> ch_addr (conn_channel c) = ev_ptr ev"
proof -
  have ev: "nw_list toy_crowd 1 5 = Some \<lparr>ev_events = 0x80002003, ev_ptr = 2\<rparr>" "1 < length (subQuit toy_busy)"
    by (simp_all add: toy_crowd_def nw_list_def toy_busy_def toy_server_def)
  with events_reach_live_connections [OF toy_epoll_fds toy_net_fds toy_reached [of "\<lambda>_. False"], THEN conjunct1,
      rule_format, OF ev(2,1)] show ?thesis by blast
qed

subsection \<open>Accepting\<close>

text \<open>
  \<open>load w\<close> bounds the clients waiting and the interruptions to come: a call of \<^verbatim>\<open>accept\<close> that
  succeeds or is interrupted lowers it, and what the server does with a new socket does not
  raise it.
\<close>

definition finite_backlog :: "'w net \<Rightarrow> 'w kernel \<Rightarrow> ('w \<Rightarrow> nat) \<Rightarrow> bool" where
  "finite_backlog N K load \<longleftrightarrow>
     (\<forall>lfd w r w'. n_accept N lfd w = (r, w') \<longrightarrow> r = Err EINTR \<or> (\<exists>fd. r = Ret fd) \<longrightarrow> load w' < load w)
     \<and> (\<forall>fd opt w. load (n_setsockopt N fd opt w) \<le> load w)
     \<and> (\<forall>fd w r w'. n_getfl N fd w = (r, w') \<longrightarrow> load w' \<le> load w)
     \<and> (\<forall>fd f w. load (n_setfl N fd f w) \<le> load w)
     \<and> (\<forall>w t w'. k_time K w = (t, w') \<longrightarrow> load w' \<le> load w)
     \<and> (\<forall>ep op fd ev w r w'. k_epoll_ctl K ep op fd ev w = (r, w') \<longrightarrow> load w' \<le> load w)"

lemma finite_backlogD:
  assumes "finite_backlog N K load"
  shows "n_accept N lfd w = (Err EINTR, w') \<Longrightarrow> load w' < load w"
    and "n_accept N lfd w = (Ret fd, w') \<Longrightarrow> load w' < load w"
    and "load (n_setsockopt N fd opt w) \<le> load w"
    and "n_getfl N fd w = (f, w') \<Longrightarrow> load w' \<le> load w"
    and "load (n_setfl N fd f w) \<le> load w"
    and "k_time K w = (t, w') \<Longrightarrow> load w' \<le> load w"
    and "k_epoll_ctl K ep op fd ev w = (u, w') \<Longrightarrow> load w' \<le> load w"
  using assms unfolding finite_backlog_def by metis+

lemma connection_new_load:
  assumes "finite_backlog N K load" and "connection_new K a l fd w = (c, w')"
  shows "load w' \<le> load w"
proof -
  note ld = finite_backlogD [OF assms(1)]
  obtain t w1 where t: "k_time K w = (t, w1)" by fastforce
  have "load w2 \<le> load w1" if "updateChannel K ch w1 = (ch', w2)" for ch ch' w2
  proof -
    let ?ev = "\<lparr>ev_events = ch_events ch, ev_ptr = ch_addr ch\<rparr>"
    obtain r v where add: "k_epoll_ctl K (ch_loop ch) CtlAdd (ch_fd ch) ?ev w1 = (r, v)" by fastforce
    obtain r' v' where mod: "k_epoll_ctl K (ch_loop ch) CtlMod (ch_fd ch) ?ev v = (r', v')" by fastforce
    obtain r'' v'' where reg: "k_epoll_ctl K (ch_loop ch) CtlMod (ch_fd ch) ?ev w1 = (r'', v'')" by fastforce
    have "w2 \<in> {v, v', v''}" using that add mod reg by (auto simp: updateChannel_def Let_def split: if_splits)
    with ld(7) [OF add] ld(7) [OF mod] ld(7) [OF reg] show ?thesis by auto
  qed
  with assms(2) t ld(6) [OF t] show ?thesis
    by (fastforce simp: connection_new_def enableReadingET_def split: prod.splits)
qed

lemma configure_load:
  assumes "finite_backlog N K load"
  shows "load (socket_setNoDelay N fd (socket_setnonblocking N fd w)) \<le> load w"
proof -
  note ld = finite_backlogD [OF assms]
  obtain f w1 where f: "n_getfl N fd w = (f, w1)" by fastforce
  show ?thesis
    using ld(4) [OF f] ld(5) [of fd "f OR O_NONBLOCK" w1] ld(3) [of fd TcpNoDelay "n_setfl N fd (f OR O_NONBLOCK) w1"]
    by (simp add: socket_setnonblocking_def socket_setNoDelay_def f)
qed

text \<open>The states of the accept loop that began in \<open>s\<close>.\<close>

definition grown :: "('w \<Rightarrow> int set) \<Rightarrow> ('w \<Rightarrow> interests) \<Rightarrow> server \<Rightarrow> server \<Rightarrow> 'w \<Rightarrow> bool" where
  "grown socks interest s x v \<longleftrightarrow> server_inv socks interest (x, v) \<and> listenFd x = listenFd s
     \<and> map_of (connections s) \<subseteq>\<^sub>m map_of (connections x)"

lemma grown_err:
  assumes "fd_net N socks interest" and "grown socks interest s x v" and "n_accept N (listenFd s) v = (Err e, v')"
  shows "grown socks interest s x v'"
proof -
  have "same_fds socks interest v v'" using fd_netD(8) [OF assms(1,3)] by (simp add: new_socket_def)
  with assms(2) server_rel_cong [of socks interest "{}" x v v' x] show ?thesis
    by (auto simp: grown_def server_rel_def table_okD(1))
qed

lemma grown_ok:
  assumes "fd_kernel K socks interest" and "fd_net N socks interest" and "grown socks interest s x v"
    and "n_accept N (listenFd s) v = (Ret fd, v')"
  shows "\<exists>x1 v1. newConnection N K fd (x, socket_setNoDelay N fd (socket_setnonblocking N fd v')) = Some (x1, v1)
    \<and> grown socks interest s x1 v1 \<and> (finite_backlog N K load \<longrightarrow> load v1 < load v)"
proof -
  from assms(3,4) have x: "server_inv socks interest (x, v)" "n_accept N (listenFd x) v = (Ret fd, v')" "listenFd x = listenFd s"
    and le: "map_of (connections s) \<subseteq>\<^sub>m map_of (connections x)" by (simp_all add: grown_def)
  note p = accepted_pending [OF assms(2) x(1,2) refl]
  obtain x1 v1 c b l where n: "newConnection N K fd (x, socket_setNoDelay N fd (socket_setnonblocking N fd v')) = Some (x1, v1)"
    "server_inv socks interest (x1, v1)" "listenFd x1 = listenFd x" "connections x1 = map_insert fd c (connections x)"
    "connection_new K b l fd (socket_setNoDelay N fd (socket_setnonblocking N fd v')) = (c, v1)"
    using newConnection_inv [OF assms(1) p, of N] by blast
  have "map_of (connections s) fd = None" using le p(4) by (metis domIff live_None map_le_def)
  then have "map_of (connections s) \<subseteq>\<^sub>m map_of (connections x1)" using le by (auto simp: n(4) map_le_def)
  moreover have "load v1 < load v" if fb: "finite_backlog N K load"
    using connection_new_load [OF fb n(5)] configure_load [OF fb, of fd v'] finite_backlogD(2) [OF fb assms(4)] by simp
  ultimately show ?thesis using n x(3) by (auto simp: grown_def)
qed

text \<open>
  C22: accepting is complete. When a client waits, the accept loop returns, whatever
  interruptions occur; it stops at the first error of \<^verbatim>\<open>accept\<close> that is not an interruption,
  which is an empty queue or a hard error; every
  socket it accepted is in the table, and the connections that were there are untouched.
\<close>

theorem accept_event_complete:
  assumes "fd_kernel K socks interest" and "fd_net N socks interest" and "finite_backlog N K load"
    and "reach (server_start N K getenv socks interest) (server_step N K getenv g socks interest) (s, w)"
  shows "\<exists>s' w' w0 e. accept_event N K (s, w) = Some (s', w')
    \<and> n_accept N (listenFd s) w0 = (Err e, w') \<and> e \<noteq> EINTR
    \<and> socks w' = insert (listenFd s) (fst ` set (connections s'))
    \<and> set (connections s) \<subseteq> set (connections s')"
proof -
  let ?I = "grown socks interest s" and ?f = "acceptConnection N (newConnection N K) (listenFd s)"
  have start: "?I s w" using reachable_inv [OF assms(1,2,4)] by (simp add: grown_def)
  note err = grown_err [OF assms(2)] and ok = grown_ok [OF assms(1,2), where load = load]
  have "\<exists>r. ?f (s, w) = Some r"
  proof (rule acceptConnection_returns [where I = ?I and load = load])
    show "?I x v' \<and> load v' < load v" if "?I x v" "n_accept N (listenFd s) v = (Err EINTR, v')" for x v v'
      using err [OF that] finite_backlogD(1) [OF assms(3) that(2)] by simp
    show "\<exists>x1 v1. newConnection N K fd (x, socket_setNoDelay N fd (socket_setnonblocking N fd v')) = Some (x1, v1)
        \<and> ?I x1 v1 \<and> load v1 < load v" if "?I x v" "n_accept N (listenFd s) v = (Ret fd, v')" for x v fd v'
      using ok [OF that] assms(3) by blast
  qed (use start in simp)
  then obtain s' w' where r: "?f (s, w) = Some (s', w')" by auto
  have "?I (fst (s', w')) (snd (s', w')) \<and> (\<exists>w0 e. ?I (fst (s', w')) w0 \<and> n_accept N (listenFd s) w0 = (Err e, snd (s', w')) \<and> e \<noteq> EINTR)"
  proof (rule acceptConnection_rule [OF r])
    show "?I (fst xv) (snd xv)" if "?I x v" "n_accept N (listenFd s) v = (Ret fd, v')"
      "newConnection N K fd (x, socket_setNoDelay N fd (socket_setnonblocking N fd v')) = Some xv" for x v fd v' xv
      using ok [OF that(1,2)] that(3) by auto
  qed (use start err in auto)
  then obtain w0 e where fin: "?I s' w'" "n_accept N (listenFd s) w0 = (Err e, w')" "e \<noteq> EINTR" by auto
  have "set (connections s) \<subseteq> set (connections s')"
    using fin(1) start by (intro map_le_entries) (simp_all add: grown_def server_rel_def table_okD(1))
  with r fin show ?thesis by (auto simp: accept_event_def grown_def server_rel_def dom_live)
qed

lemma toy_backlog: "finite_backlog toy_net toy_epoll nw_waiting"
  unfolding finite_backlog_def by (auto simp: toy_net_def toy_epoll_def nw_fresh_def split: if_splits)

theorem accept_event_complete_witness:
  "\<exists>s' w'. accept_event toy_net toy_epoll (toy_server, toy_listening) = Some (s', w')
     \<and> toy_socks w' = insert 3 (fst ` set (connections s')) \<and> map fst (connections s') = [4, 5]"
proof -
  have "reach (server_start toy_net toy_epoll (\<lambda>_. None) toy_socks nw_list)
     (server_step toy_net toy_epoll (\<lambda>_. None) (\<lambda>_. False) toy_socks nw_list) (toy_server, toy_listening)"
    by (rule reach_init) (rule toy_start)
  from accept_event_complete [OF toy_epoll_fds toy_net_fds toy_backlog this] toy_accepts show ?thesis
    by (auto simp: toy_server_def toy_busy_def)
qed

subsection \<open>Idle connections\<close>

text \<open>
  C31: the sweep is exact. It shuts down the connections that have been silent for longer than
  the timeout, each once, in the order of their descriptors, and no other.
\<close>

theorem sweepIdle_exact:
  assumes "k_time K w = (now, w1)"
  shows "sweepIdle N K s w =
    fold (n_shutdown N) (map fst (filter (\<lambda>(fd, c). lastActiveSec c + kIdleTimeoutSec < now) (connections s))) w1"
proof -
  have "shutdown_idle N now t m v = fold (n_shutdown N) (map fst (filter (\<lambda>(fd, c). lastActiveSec c + t < now) m)) v" for t m v
    by (induction N now t m v rule: shutdown_idle.induct) (auto simp: algebra_simps)
  then show ?thesis using assms by (simp add: sweepIdle_def kIdleTimeoutSec_def)
qed

theorem sweepIdle_exact_witness:
  "nw_shut (sweepIdle toy_net toy_epoll
     (toy_busy\<lparr>connections := [(4, toy_connection 1 0 4), (5, (toy_connection 2 1 5)\<lparr>lastActiveSec := 170\<rparr>)]\<rparr>)
     (toy_crowd\<lparr>nw_time := 200\<rparr>)) = [4]"
proof -
  have "k_time toy_epoll (toy_crowd\<lparr>nw_time := 200\<rparr>) = (200, toy_crowd\<lparr>nw_time := 200\<rparr>)" by (simp add: toy_epoll_def)
  from sweepIdle_exact [OF this] show ?thesis
    by (simp add: toy_net_def toy_connection_def kIdleTimeoutSec_def toy_crowd_def toy_boot_def)
qed

text \<open>
  C24: an idle or closed connection is collected. When the peer closed, or the sweep shut the
  socket down, the next read event finds the end of the stream; it removes exactly that
  connection from the table and closes its socket.
\<close>

theorem end_of_stream_collects:
  assumes "fd_kernel K socks interest" and "fd_net N socks interest"
    and "reach (server_start N K getenv socks interest) (server_step N K getenv g socks interest) (s, w)"
    and "(fd, c) \<in> set (connections s)" and "revents AND EPOLLOUT = 0" and "revents AND EPOLLIN \<noteq> 0"
    and "k_time K w = (now, w0)" and "k_read K fd 4096 w0 = (Ret [], w1)"
  shows "\<exists>s' w'. connection_event N K getenv fd revents (s, w) = Some (s', w')
    \<and> set (connections s') = set (connections s) - {(fd, c)} \<and> socks w' = socks w - {fd}
    \<and> (\<forall>ep. interest w' ep fd = None)"
proof -
  have inv: "table_ok s" "server_inv socks interest (s, w)"
    using reachable_inv [OF assms(1-3)] by (simp_all add: server_rel_def)
  have srt: "map_sorted (connections s)" by (rule table_okD(1) [OF inv(1)])
  have c: "map_of (connections s) fd = Some c" using map_of_entry [OF srt] assms(4) by blast
  note e = table_entry [OF inv(1) c]
  let ?c = "c\<lparr>conn_channel := setRevents (conn_channel c) revents\<rparr>"
  have "revents AND (EPOLLIN OR EPOLLPRI OR EPOLLRDHUP OR EPOLLHUP OR EPOLLERR) \<noteq> 0"
    using assms(6) by (metis and.left_idem bit.conj_disj_distrib or_eq_0_iff)
  then have h: "handleEvent (conn_channel ?c) = Some HandleMessage"
    using assms(5) e(7) by (simp add: handleEvent_def setRevents_def)
  have m: "handleMessage K getenv ?c (serverShared s) w = Some (Destroyed, serverShared s, w1)"
    using assms(7,8) e(3) by (simp add: handleMessage_def read_loop.simps)
  have ev: "connection_event N K getenv fd revents (s, w) =
      Some (s\<lparr>connections := map_erase fd (connections s)\<rparr>, n_close N fd w1)"
    using c h m e(1) by (simp add: connection_event_def deleteConnection_def socket_delete_def)
  have "same_fds socks interest w w1"
    using fd_kernelD(7) [OF assms(1,7)] fd_kernelD(5) [OF assms(1,8)] by (rule same_fds_trans)
  then have "socks (n_close N fd w1) = socks w - {fd}" "\<forall>ep. interest (n_close N fd w1) ep fd = None"
    using fd_netD(9) [OF assms(2)] by (simp_all add: closes_def same_fds_def)
  moreover have "set (map_erase fd (connections s)) = set (connections s) - {(fd, c)}"
    using map_of_entry [OF srt] map_of_entry [OF map_sorted_erase [OF srt, of fd]] map_of_erase [OF srt, of fd] c
    by (auto split: if_splits) (metis fun_upd_apply option.distinct(1) option.inject)+
  ultimately show ?thesis using ev by auto
qed

theorem end_of_stream_collects_witness:
  "\<exists>s' w'. connection_event toy_net toy_epoll (\<lambda>_. None) 4 EPOLLIN (toy_busy, toy_crowd) = Some (s', w')
     \<and> toy_socks w' = {3, 5}"
proof -
  have "(4, toy_connection 1 0 4) \<in> set (connections toy_busy)" by (simp add: toy_busy_def)
  from end_of_stream_collects [OF toy_epoll_fds toy_net_fds toy_reached [of "\<lambda>_. False"] this, of EPOLLIN 100 toy_crowd toy_crowd]
  show ?thesis by (auto simp: epoll_flags toy_epoll_def toy_crowd_def toy_boot_def)
qed

subsection \<open>Shutdown\<close>

lemma close_connections_fds:
  assumes "closes (n_close N) socks interest" and "\<forall>(fd, c) \<in> set m. sock_fd c = fd \<and> 0 \<le> fd"
  shows "socks (close_connections N m w) = socks w - fst ` set m
    \<and> (\<forall>ep fd. fd \<notin> fst ` set m \<longrightarrow> interest (close_connections N m w) ep fd = interest w ep fd)
    \<and> (\<forall>ep. \<forall>fd \<in> fst ` set m. interest (close_connections N m w) ep fd = None)"
  using assms(2)
proof (induction m arbitrary: w)
  case (Cons x m)
  obtain fd c where x: "x = (fd, c)" by fastforce
  let ?w = "n_close N fd w"
  have w: "socks ?w = socks w - {fd}" "interest ?w = (\<lambda>ep. (interest w ep)(fd := None))"
    using assms(1) by (simp_all add: closes_def)
  have "close_connections N (x # m) w = close_connections N m ?w"
    using Cons.prems x by (simp add: socket_delete_def)
  moreover note IH = Cons.IH [of ?w]
  have "interest (close_connections N m ?w) ep fd = None" for ep
    using IH Cons.prems w(2) by (cases "fd \<in> fst ` set m") auto
  ultimately show ?case using IH Cons.prems w by (auto simp: x)
qed simp

lemma server_delete_inv:
  assumes "fd_net N socks interest" and "server_inv socks interest (s, w)"
  shows "socks (server_delete N (s, w)) = {} \<and> interest (server_delete N (s, w)) = (\<lambda>ep fd. None)"
proof -
  have inv: "table_ok s" "socks w = insert (listenFd s) (fst ` set (connections s))" "ptr interest w = registry s"
    using assms(2) by (simp_all add: server_rel_def dom_live)
  let ?m = "connections s" and ?w = "close_connections N (connections s) w"
  have srt: "map_sorted ?m" by (rule table_okD(1) [OF inv(1)])
  have m: "\<forall>(fd, c) \<in> set ?m. sock_fd c = fd \<and> 0 \<le> fd"
    using table_entry(1,3) [OF inv(1)] map_of_entry [OF srt] by blast
  note cl = close_connections_fds [OF fd_netD(9) [OF assms(1)] m, of w]
  have reg: "interest w ep fd = None" if "fd \<notin> fst ` set ?m" "fd \<noteq> listenFd s" for ep fd
  proof -
    have "live s fd = None" using that(1) dom_live [of s] by blast
    then have "map_option ev_ptr (interest w ep fd) = None"
      using inv(3) that(2) by (simp add: ptr_def registry_def fun_eq_iff)
    then show ?thesis by simp
  qed
  have "server_delete N (s, w) = n_close N (listenFd s) ?w"
    using table_okD(5) [OF inv(1)] by (simp add: server_delete_def socket_delete_def)
  moreover have "socks (n_close N (listenFd s) ?w) = {}"
    using fd_netD(9) [OF assms(1)] cl inv(2) by (auto simp: closes_def)
  moreover have "interest (n_close N (listenFd s) ?w) ep fd = None" for ep fd
    using fd_netD(9) [OF assms(1)] cl reg [of fd ep] by (cases "fd \<in> fst ` set ?m") (auto simp: closes_def)
  ultimately show ?thesis by (auto simp: fun_eq_iff)
qed

text \<open>
  C23: nothing stays open. Destroying the server, in whatever reachable state, closes every
  socket it ever accepted that is still open, and the listening socket; no interest list
  keeps a registration of the server.
\<close>

theorem server_delete_closes_all:
  assumes "fd_kernel K socks interest" and "fd_net N socks interest"
    and "reach (server_start N K getenv socks interest) (server_step N K getenv g socks interest) (s, w)"
  shows "socks (server_delete N (s, w)) = {} \<and> interest (server_delete N (s, w)) = (\<lambda>ep fd. None)"
  using server_delete_inv [OF assms(2) reachable_inv [OF assms(1-3)]] .

theorem server_delete_closes_all_witness:
  "toy_socks (server_delete toy_net (toy_busy, toy_crowd)) = {} \<and> toy_socks toy_crowd = {3, 4, 5}"
  using server_delete_closes_all [OF toy_epoll_fds toy_net_fds toy_reached [of "\<lambda>_. False"]]
  by (auto simp: toy_busy_def toy_server_def toy_crowd_def)

definition quitting :: "nat \<Rightarrow> server \<times> 'w \<Rightarrow> bool" where
  "quitting n sw \<longleftrightarrow> length (subQuit (fst sw)) = n \<and> (mainQuit (fst sw) \<longrightarrow> list_all id (subQuit (fst sw)))"

lemma accept_event_quitting:
  assumes "accept_event N K sw = Some sw'" and "quitting n sw"
  shows "quitting n sw'"
proof -
  have "(\<lambda>s w. quitting n (s, w)) (fst sw') (snd sw') \<and> (\<exists>w0 e. (\<lambda>s w. quitting n (s, w)) (fst sw') w0
      \<and> n_accept N (listenFd (fst sw)) w0 = (Err e, snd sw') \<and> e \<noteq> EINTR)"
    by (rule acceptConnection_rule [OF assms(1) [unfolded accept_event_def]])
      (use assms(2) in \<open>auto simp: quitting_def newConnection_def split: if_splits prod.splits\<close>)
  then show ?thesis by (simp add: quitting_def)
qed

lemma loop_iteration_quitting:
  assumes "loop_iteration (main_wait wait) (main_dispatch N K) (Some (loopCallback N K g)) sw = Some sw'" and "quitting n sw"
  shows "quitting n sw'"
proof -
  obtain r sw1 where w: "main_wait wait sw = (r, sw1)" by (metis prod.exhaust)
  with assms(1) obtain sw2 where d: "dispatch_all (main_dispatch N K) (activeChannels r) sw1 = Some sw2"
    and sw': "sw' = loopCallback N K g sw2"
    by (auto simp: loop_iteration_def split: option.splits)
  have "quitting n sw1" using w assms(2) by (auto simp: main_wait_def quitting_def split: prod.splits)
  moreover have "quitting n y" if "quitting n x" "main_dispatch N K p ev x = Some y" for x y p ev
    using that accept_event_quitting [of N K x y n] by (auto simp: main_dispatch_def split: if_splits)
  ultimately have "quitting n sw2" using dispatch_all_rule [where J = "quitting n", OF d] by blast
  with sw' show ?thesis by (auto simp: loopCallback_def server_stop_def quitting_def list_all_iff split: prod.splits)
qed

text \<open>
  A shutdown signal stops every reactor. If the callbacks of the main reactor return and
  \<^verbatim>\<open>g_shutdown\<close> is set when its housekeeping runs, the main loop returns, and then the quit
  flags of the main reactor and of all sub reactors are set.
\<close>

theorem main_loop_shuts_down:
  assumes "\<not> mainQuit s"
    and "loop_runs (main_wait wait) (main_dispatch N K) (Some (loopCallback N K g_shutdown)) (s, w) sw1"
    and "main_wait wait sw1 = (r, sw2)"
    and "dispatch_all (main_dispatch N K) (activeChannels r) sw2 = Some (s3, w3)" and "g_shutdown w3"
  shows "\<exists>s' w'. main_loop N K g_shutdown wait (s, w) = Some (s', w')
    \<and> mainQuit s' \<and> subQuit s' = replicate (length (subQuit s)) True"
proof -
  let ?cb = "Some (loopCallback N K g_shutdown)"
  let ?t = "loopCallback N K g_shutdown (s3, w3)"
  have it: "loop_iteration (main_wait wait) (main_dispatch N K) ?cb sw1 = Some ?t"
    using assms(3,4) by (simp add: loop_iteration_def)
  have "loop_runs (main_wait wait) (main_dispatch N K) ?cb (s, w) ?t"
    using assms(2) it by (rule loop_runs_snoc)
  moreover have "mainQuit (fst ?t)" using assms(5) by (simp add: loopCallback_def server_stop_def)
  ultimately obtain u where u: "main_loop N K g_shutdown wait (s, w) = Some u"
    using event_loop_returns [where quit = "\<lambda>sw. mainQuit (fst sw)"] unfolding main_loop_def by blast
  have "quitting (length (subQuit s)) u \<and> mainQuit (fst u)"
  proof (rule event_loop_rule [OF u [unfolded main_loop_def]])
    show "quitting (length (subQuit s)) (s, w)" using assms(1) by (simp add: quitting_def)
  qed (rule loop_iteration_quitting)
  then have "mainQuit (fst u)" "subQuit (fst u) = replicate (length (subQuit s)) True"
    by (auto simp: quitting_def list_eq_iff_nth_eq list_all_length)
  with u show ?thesis by (cases u) simp
qed

text \<open>A client is accepted in the iteration in which the signal arrives.\<close>

theorem main_loop_shuts_down_witness:
  "\<exists>s' w'. main_loop toy_net toy_epoll (\<lambda>w. nw_waiting w = 0) (\<lambda>w. (Ret [\<lparr>ev_events = EPOLLIN, ev_ptr = 0\<rparr>], w))
      (toy_server, toy_listening) = Some (s', w') \<and> mainQuit s' \<and> subQuit s' = [True, True]"
proof -
  let ?wait = "\<lambda>w :: netw. (Ret [\<lparr>ev_events = EPOLLIN, ev_ptr = 0\<rparr>], w)"
  have "main_dispatch toy_net toy_epoll 0 EPOLLIN (toy_server, toy_listening) = Some (toy_busy, toy_crowd)"
    using toy_accepts by (simp add: main_dispatch_def toy_server_def setRevents_def handleEvent_def epoll_flags)
  then have d: "dispatch_all (main_dispatch toy_net toy_epoll) (activeChannels (Ret [\<lparr>ev_events = EPOLLIN, ev_ptr = 0\<rparr>]))
      (toy_server, toy_listening) = Some (toy_busy, toy_crowd)"
    by (simp add: activeChannels_def)
  have w: "main_wait ?wait (toy_server, toy_listening) = (Ret [\<lparr>ev_events = EPOLLIN, ev_ptr = 0\<rparr>], (toy_server, toy_listening))"
    by (simp add: main_wait_def)
  have "nw_waiting toy_crowd = 0" "\<not> mainQuit toy_server" "length (subQuit toy_server) = 2"
    by (simp_all add: toy_crowd_def toy_server_def)
  with main_loop_shuts_down [OF _ runs_refl w d, where g_shutdown = "\<lambda>w. nw_waiting w = 0"] show ?thesis
    by (simp add: numeral_2_eq_2)
qed

end
