(* ===== verification/Threads.thy ===== *)
theory Threads
  imports Prelude
begin

section \<open>Threads that share a state\<close>

text \<open>
  A thread is what it has left to do: it is done, or it takes one atomic action on the
  shared state and goes on. An action that never returns (a loop inside a critical section)
  has no successor. Running a thread alone is \<open>run\<close>; threads together take their actions in
  any order, \<open>threads_step\<close>. What a thread promises under interference is \<open>safe\<close>, with the
  guarantee of a thread being the rely of all the others.
\<close>

datatype ('s, 'r) proc = Done 'r | Act "'s \<Rightarrow> ('s \<times> ('s, 'r) proc) option"

primrec and_then :: "('s, 'a) proc \<Rightarrow> ('a \<Rightarrow> ('s, 'b) proc) \<Rightarrow> ('s, 'b) proc" where
  "and_then (Done r) k = k r"
| "and_then (Act f) k = Act (\<lambda>s. map_option (map_prod id (\<lambda>p. and_then p k)) (f s))"

primrec run :: "('s, 'r) proc \<Rightarrow> 's \<Rightarrow> ('r \<times> 's) option" where
  "run (Done r) = (\<lambda>s. Some (r, s))"
| "run (Act f) = (\<lambda>s. case map_option (map_prod id run) (f s) of None \<Rightarrow> None | Some (s', g) \<Rightarrow> g s')"

definition atomically :: "('s \<Rightarrow> ('r \<times> 's) option) \<Rightarrow> ('s, 'r) proc" where
  "atomically f = Act (\<lambda>s. map_option (\<lambda>(r, s'). (s', Done r)) (f s))"

lemma and_then_assoc: "and_then (and_then p k) k' = and_then p (\<lambda>r. and_then (k r) k')"
proof (induction p)
  case (Act f)
  have "map_option (map_prod id (\<lambda>p. and_then p k')) (map_option (map_prod id (\<lambda>p. and_then p k)) (f s))
    = map_option (map_prod id (\<lambda>p. and_then p (\<lambda>r. and_then (k r) k'))) (f s)" for s
  proof (cases "f s")
    case (Some y)
    obtain s' p where y: "y = (s', p)" by fastforce
    then have "Some (s', p) \<in> range f" using Some rangeI [of f s] by simp
    from Act [OF this] Some y show ?thesis by simp
  qed simp
  then show ?case by simp
qed simp

lemma run_and_then: "run (and_then p k) s = (case run p s of None \<Rightarrow> None | Some (r, s') \<Rightarrow> run (k r) s')"
proof (induction p arbitrary: s)
  case (Act f)
  show ?case
  proof (cases "f s")
    case (Some y)
    obtain s' p where y: "y = (s', p)" by fastforce
    then have "Some (s', p) \<in> range f" using Some rangeI [of f s] by simp
    from Act [OF this] Some y show ?thesis by simp
  qed simp
qed simp

lemma run_atomically: "run (atomically f) s = f s"
  by (cases "f s") (auto simp: atomically_def)

lemmas run_simps = run_and_then run_atomically

subsection \<open>Safety under interference\<close>

text \<open>
  \<open>J\<close> holds between any two actions; \<open>rely i\<close> is what the others may do to the state as far
  as thread \<open>i\<close> can tell. Each action of the thread keeps \<open>J\<close> and is allowed by the rely of
  every other thread; at the end \<open>post\<close> holds.
\<close>

primrec safe ::
    "('s \<Rightarrow> bool) \<Rightarrow> ('t \<Rightarrow> 's \<Rightarrow> 's \<Rightarrow> bool) \<Rightarrow> 't \<Rightarrow> ('s \<Rightarrow> 'r \<Rightarrow> bool) \<Rightarrow> ('s, 'r) proc \<Rightarrow> 's \<Rightarrow> bool" where
  "safe J rely i post (Done r) = (\<lambda>s. \<forall>s1. rely i s s1 \<longrightarrow> J s1 \<longrightarrow> post s1 r)"
| "safe J rely i post (Act f) = (\<lambda>s. \<forall>s1. rely i s s1 \<longrightarrow> J s1 \<longrightarrow>
     (case map_option (map_prod id (safe J rely i post)) (f s1) of
        None \<Rightarrow> True
      | Some (s2, ok) \<Rightarrow> J s2 \<and> (\<forall>j. j \<noteq> i \<longrightarrow> rely j s1 s2) \<and> ok s2))"

lemma safe_premise: "(A \<Longrightarrow> safe J rely i post p s) \<Longrightarrow> safe (\<lambda>s. A \<and> J s) rely i post p s"
  by (cases A; cases p) simp_all

lemma safe_Act_iff:
  "safe J rely i post (Act f) s \<longleftrightarrow>
     (\<forall>s1 s2 p. rely i s s1 \<longrightarrow> J s1 \<longrightarrow> f s1 = Some (s2, p) \<longrightarrow>
        J s2 \<and> (\<forall>j. j \<noteq> i \<longrightarrow> rely j s1 s2) \<and> safe J rely i post p s2)"
  by (auto split: option.splits)

locale interference =
  fixes J :: "'s \<Rightarrow> bool" and rely :: "'t \<Rightarrow> 's \<Rightarrow> 's \<Rightarrow> bool"
  assumes rely_refl: "rely i s s"
    and rely_trans: "rely i s s1 \<Longrightarrow> rely i s1 s2 \<Longrightarrow> rely i s s2"
begin

lemma safe_stable: "safe J rely i post p s \<Longrightarrow> rely i s s1 \<Longrightarrow> safe J rely i post p s1"
  by (cases p) (auto dest: rely_trans)

lemma safe_Done: "post s r \<Longrightarrow> (\<And>s1. rely i s s1 \<Longrightarrow> J s1 \<Longrightarrow> post s r \<Longrightarrow> post s1 r) \<Longrightarrow> safe J rely i post (Done r) s"
  by simp

lemma safe_DoneD: "safe J rely i post (Done r) s \<Longrightarrow> J s \<Longrightarrow> post s r"
  using rely_refl by auto

lemma safe_ActD:
  assumes "safe J rely i post (Act f) s" and "J s" and "f s = Some (s2, p)"
  shows "J s2" and "j \<noteq> i \<Longrightarrow> rely j s s2" and "safe J rely i post p s2"
  using assms rely_refl [of i s] by auto

lemma safe_and_then:
  assumes "safe J rely i mid p s" and "\<And>r s1. mid s1 r \<Longrightarrow> J s1 \<Longrightarrow> safe J rely i post (k r) s1"
  shows "safe J rely i post (and_then p k) s"
  using assms(1)
proof (induction p arbitrary: s)
  case (Done r)
  show ?case
  proof (cases "k r")
    case (Done x)
    with \<open>safe J rely i mid (Done r) s\<close> assms(2) [of _ r] show ?thesis
      by (simp add: rely_refl) (metis rely_refl)
  next
    case (Act f)
    with \<open>safe J rely i mid (Done r) s\<close> assms(2) [of _ r] rely_refl show ?thesis by fastforce
  qed
next
  case (Act f)
  show ?case
    unfolding and_then.simps safe_Act_iff
  proof (intro allI impI)
    fix s1 s2 q
    assume r: "rely i s s1" "J s1" and "map_option (map_prod id (\<lambda>p. and_then p k)) (f s1) = Some (s2, q)"
    then obtain p where p: "f s1 = Some (s2, p)" "q = and_then p k" by auto
    with r Act.prems have a: "J s2" "\<forall>j. j \<noteq> i \<longrightarrow> rely j s1 s2" "safe J rely i mid p s2"
      unfolding safe_Act_iff by blast+
    have "Some (s2, p) \<in> range f" using p(1) rangeI [of f s1] by simp
    from Act.IH [OF this _ _ a(3)] have "safe J rely i post q s2" by (simp add: p(2))
    with a(1,2) show "J s2 \<and> (\<forall>j. j \<noteq> i \<longrightarrow> rely j s1 s2) \<and> safe J rely i post q s2" by blast
  qed
qed

lemma safe_atomically:
  assumes "\<And>s1 r s2. rely i s s1 \<Longrightarrow> J s1 \<Longrightarrow> f s1 = Some (r, s2) \<Longrightarrow>
      J s2 \<and> (\<forall>j. j \<noteq> i \<longrightarrow> rely j s1 s2) \<and> (\<forall>s3. rely i s2 s3 \<longrightarrow> J s3 \<longrightarrow> post s3 r)"
  shows "safe J rely i post (atomically f) s"
  using assms by (auto simp: atomically_def split: option.splits)

text \<open>What thread \<open>i\<close> knows and the others cannot take away.\<close>

definition stable :: "'t \<Rightarrow> ('s \<Rightarrow> bool) \<Rightarrow> bool" where
  "stable i P \<longleftrightarrow> (\<forall>s s'. P s \<longrightarrow> rely i s s' \<longrightarrow> P s')"

lemma stable_intros:
  "stable i (\<lambda>s. b)"
  "stable i P \<Longrightarrow> stable i Q \<Longrightarrow> stable i (\<lambda>s. P s \<and> Q s)"
  "(\<And>x. stable i (R x)) \<Longrightarrow> stable i (\<lambda>s. \<forall>x. R x s)"
  "(\<And>x. stable i (R x)) \<Longrightarrow> stable i (\<lambda>s. \<exists>x. R x s)"
  "stable i P \<Longrightarrow> stable i (\<lambda>s. b \<longrightarrow> P s)"
  unfolding stable_def by blast+

lemma safe_DoneI: "P s \<Longrightarrow> stable i P \<Longrightarrow> (\<And>s1. P s1 \<Longrightarrow> J s1 \<Longrightarrow> post s1 r) \<Longrightarrow> safe J rely i post (Done r) s"
  unfolding stable_def by simp

text \<open>An action that the thread's own knowledge survives, too, and one that it need not survive.\<close>

lemma safe_action:
  assumes "P s" and "stable i P"
    and "\<And>s1 r s2. P s1 \<Longrightarrow> J s1 \<Longrightarrow> f s1 = Some (r, s2) \<Longrightarrow> J s2 \<and> (\<forall>j. j \<noteq> i \<longrightarrow> rely j s1 s2) \<and> Q s2 r"
    and "\<And>r. stable i (\<lambda>s. Q s r)"
  shows "safe J rely i Q (atomically f) s"
proof (rule safe_atomically)
  fix s1 r s2
  assume "rely i s s1" "J s1" "f s1 = Some (r, s2)"
  moreover have "P s1" using assms(1,2) \<open>rely i s s1\<close> by (simp add: stable_def)
  ultimately show "J s2 \<and> (\<forall>j. j \<noteq> i \<longrightarrow> rely j s1 s2) \<and> (\<forall>s3. rely i s2 s3 \<longrightarrow> J s3 \<longrightarrow> Q s3 r)"
    using assms(3) [of s1 r s2] assms(4) [of r] unfolding stable_def by blast
qed

lemma safe_gentle:
  assumes "P s" and "stable i P"
    and "\<And>s1 r s2. P s1 \<Longrightarrow> J s1 \<Longrightarrow> f s1 = Some (r, s2) \<Longrightarrow> J s2 \<and> (\<forall>j. rely j s1 s2) \<and> Q s2 r"
    and "\<And>r. stable i (\<lambda>s. Q s r)"
  shows "safe J rely i (\<lambda>s r. P s \<and> Q s r) (atomically f) s"
proof (rule safe_action [OF assms(1,2)])
  fix s1 r s2
  assume "P s1" "J s1" "f s1 = Some (r, s2)"
  with assms(2,3) show "J s2 \<and> (\<forall>j. j \<noteq> i \<longrightarrow> rely j s1 s2) \<and> P s2 \<and> Q s2 r"
    unfolding stable_def by metis
qed (intro stable_intros assms)

lemma safe_conseq:
  "safe J rely i post p s \<Longrightarrow> (\<And>r s1. post s1 r \<Longrightarrow> J s1 \<Longrightarrow> post' s1 r) \<Longrightarrow> safe J rely i post' p s"
proof (induction p arbitrary: s)
  case (Act f)
  have "safe J rely i post p s2 \<Longrightarrow> safe J rely i post' p s2" if "f s1 = Some (s2, p)" for s1 s2 p
    using Act.IH [of "Some (s2, p)" "(s2, p)" p s2] Act.prems(2) rangeI [of f s1] that by simp
  with Act.prems(1) show ?case unfolding safe_Act_iff by blast
qed simp

end

subsection \<open>Many threads\<close>

text \<open>
  Each thread is idle or in the middle of a job. Threads take their actions in any order;
  \<open>env\<close> is what the rest of the world does in between.
\<close>

inductive threads_step ::
    "('j \<Rightarrow> bool) \<Rightarrow> ('t \<Rightarrow> 'j \<Rightarrow> ('s, 'r) proc) \<Rightarrow> ('s \<Rightarrow> 's \<Rightarrow> bool)
     \<Rightarrow> 's \<times> ('t \<Rightarrow> ('j \<times> ('s, 'r) proc) option) \<Rightarrow> 's \<times> ('t \<Rightarrow> ('j \<times> ('s, 'r) proc) option) \<Rightarrow> bool"
  for job code env where
  thread_starts: "ts i = None \<Longrightarrow> job j \<Longrightarrow> threads_step job code env (s, ts) (s, ts(i \<mapsto> (j, code i j)))"
| thread_acts: "ts i = Some (j, Act f) \<Longrightarrow> f s = Some (s', p) \<Longrightarrow> threads_step job code env (s, ts) (s', ts(i \<mapsto> (j, p)))"
| thread_finishes: "ts i = Some (j, Done r) \<Longrightarrow> threads_step job code env (s, ts) (s, ts(i := None))"
| world_moves: "env s s' \<Longrightarrow> threads_step job code env (s, ts) (s', ts)"

definition threads_ok ::
    "('s \<Rightarrow> bool) \<Rightarrow> ('t \<Rightarrow> 's \<Rightarrow> 's \<Rightarrow> bool) \<Rightarrow> ('t \<Rightarrow> 's \<Rightarrow> bool) \<Rightarrow> ('t \<Rightarrow> 'j \<Rightarrow> 's \<Rightarrow> 'r \<Rightarrow> bool)
     \<Rightarrow> 's \<times> ('t \<Rightarrow> ('j \<times> ('s, 'r) proc) option) \<Rightarrow> bool" where
  "threads_ok J rely idle post st \<longleftrightarrow>
     (case st of (s, ts) \<Rightarrow>
        J s \<and> (\<forall>i. case ts i of None \<Rightarrow> idle i s | Some (j, p) \<Rightarrow> safe J rely i (post i j) p s))"

lemma threads_okD:
  assumes "threads_ok J rely idle post (s, ts)"
  shows "J s" and "case ts i of None \<Rightarrow> idle i s | Some (j, p) \<Rightarrow> safe J rely i (post i j) p s"
    and "ts i = Some (j, p) \<Longrightarrow> safe J rely i (post i j) p s"
proof -
  from assms have all: "J s" "\<forall>i. case ts i of None \<Rightarrow> idle i s | Some (j, p) \<Rightarrow> safe J rely i (post i j) p s"
    unfolding threads_ok_def prod.case by blast+
  show "J s" by (rule all(1))
  show slot: "case ts i of None \<Rightarrow> idle i s | Some (j, p) \<Rightarrow> safe J rely i (post i j) p s" using all(2) by (rule spec)
  then show "safe J rely i (post i j) p s" if "ts i = Some (j, p)" using that by simp
qed

lemma threads_okI:
  assumes "J s" and "\<And>i. case ts i of None \<Rightarrow> idle i s | Some (j, p) \<Rightarrow> safe J rely i (post i j) p s"
  shows "threads_ok J rely idle post (s, ts)"
  unfolding threads_ok_def prod.case using assms by blast

text \<open>
  The contract under which any interleaving is safe: code that is safe from an idle state,
  a finished job leaves its thread idle, and the world respects every rely.
\<close>

locale safe_threads = interference J rely
  for J :: "'s \<Rightarrow> bool" and rely :: "'t \<Rightarrow> 's \<Rightarrow> 's \<Rightarrow> bool" +
  fixes job :: "'j \<Rightarrow> bool" and code :: "'t \<Rightarrow> 'j \<Rightarrow> ('s, 'r) proc" and env :: "'s \<Rightarrow> 's \<Rightarrow> bool"
    and idle :: "'t \<Rightarrow> 's \<Rightarrow> bool" and post :: "'t \<Rightarrow> 'j \<Rightarrow> 's \<Rightarrow> 'r \<Rightarrow> bool"
  assumes code_safe: "J s \<Longrightarrow> idle i s \<Longrightarrow> job j \<Longrightarrow> safe J rely i (post i j) (code i j) s"
    and idle_stable: "stable i (idle i)"
    and post_idle: "post i j s r \<Longrightarrow> idle i s"
    and env_ok: "J s \<Longrightarrow> env s s' \<Longrightarrow> J s' \<and> (\<forall>i. rely i s s')"
begin

lemma slot_stable:
  assumes "case slot of None \<Rightarrow> idle i s | Some (j, p) \<Rightarrow> safe J rely i (post i j) p s" and "rely i s s'"
  shows "case slot of None \<Rightarrow> idle i s' | Some (j, p) \<Rightarrow> safe J rely i (post i j) p s'"
  using assms idle_stable safe_stable by (auto simp: stable_def split: option.splits)

lemma step_ok:
  assumes "threads_ok J rely idle post st" and "threads_step job code env st st'"
  shows "threads_ok J rely idle post st'"
  using assms(2)
proof (cases rule: threads_step.cases)
  case (thread_starts ts i j s)
  note ok = threads_okD [OF assms(1) [unfolded thread_starts(1)]]
  have "safe J rely i (post i j) (code i j) s" using code_safe ok(1) ok(2) [of i] thread_starts(3,4) by simp
  with ok(1,2) show ?thesis unfolding thread_starts(2) by (intro threads_okI) simp_all
next
  case (thread_acts ts i j f s s' p)
  note ok = threads_okD [OF assms(1) [unfolded thread_acts(1)]]
  note d = safe_ActD [OF ok(3) [OF thread_acts(3)] ok(1) thread_acts(4)]
  have "case (ts(i \<mapsto> (j, p))) k of None \<Rightarrow> idle k s' | Some (j, p) \<Rightarrow> safe J rely k (post k j) p s'" for k
    using d(3) slot_stable [OF ok(2) d(2), of k] by (cases "k = i") simp_all
  with d(1) show ?thesis unfolding thread_acts(2) by (intro threads_okI)
next
  case (thread_finishes ts i j r s)
  note ok = threads_okD [OF assms(1) [unfolded thread_finishes(1)]]
  have "idle i s" using safe_DoneD [OF ok(3) [OF thread_finishes(3)] ok(1)] post_idle by blast
  with ok(1,2) show ?thesis unfolding thread_finishes(2) by (intro threads_okI) simp_all
next
  case (world_moves s s' ts)
  note ok = threads_okD [OF assms(1) [unfolded world_moves(1)]]
  with env_ok [OF ok(1) world_moves(3)] slot_stable show ?thesis
    unfolding world_moves(2) by (intro threads_okI) blast+
qed

lemma finished:
  assumes "threads_ok J rely idle post (s, ts)" and "ts i = Some (j, Done r)"
  shows "post i j s r"
  by (rule safe_DoneD [OF threads_okD(3,1) [OF assms(1)]]) (rule assms(2))

end

text \<open>A thread that the others leave alone runs to its end.\<close>

lemma run_alone:
  assumes "run p s = Some (r, s')" and "reach init (threads_step job code env) (s, ts)" and "ts i = Some (j, p)"
  shows "reach init (threads_step job code env) (s', ts(i \<mapsto> (j, Done r)))"
  using assms
proof (induction p arbitrary: s ts)
  case (Done x)
  then have "ts(i \<mapsto> (j, Done r)) = ts" "s' = s" by auto
  with Done show ?case by simp
next
  case (Act f)
  then obtain s1 p where f: "f s = Some (s1, p)" "run p s1 = Some (r, s')" by (cases "f s") auto
  have "Some (s1, p) \<in> range f" using f(1) rangeI [of f s] by simp
  moreover have "reach init (threads_step job code env) (s1, ts(i \<mapsto> (j, p)))"
    by (rule reach_step [OF Act.prems(2) thread_acts [where ts = ts, OF Act.prems(3) f(1)]])
  ultimately have "reach init (threads_step job code env) (s', (ts(i \<mapsto> (j, p)))(i \<mapsto> (j, Done r)))"
    using Act.IH [OF _ _ _ f(2), of "Some (s1, p)" "(s1, p)" "ts(i \<mapsto> (j, p))"]
    by (simp only: option.set prod_set_simps fun_upd_same insert_iff simp_thms)
  then show ?case by (simp only: fun_upd_upd)
qed

lemma reach_starts:
  assumes "reach init (threads_step job code env) (s, ts)" and "ts i = None" and "job j"
  shows "reach init (threads_step job code env) (s, ts(i \<mapsto> (j, code i j)))"
  by (rule reach_step [OF assms(1) thread_starts [where ts = ts and job = job, OF assms(2,3)]])

text \<open>The first \<open>n\<close> actions of a thread.\<close>

fun acts :: "nat \<Rightarrow> ('s, 'r) proc \<Rightarrow> 's \<Rightarrow> ('s \<times> ('s, 'r) proc) option" where
  "acts 0 p s = Some (s, p)"
| "acts (Suc n) (Act f) s = (case f s of None \<Rightarrow> None | Some (s', p) \<Rightarrow> acts n p s')"
| "acts (Suc n) (Done r) s = None"

lemma acts_atomically:
  "acts (Suc n) (and_then (atomically f) k) s = (case f s of None \<Rightarrow> None | Some (r, s') \<Rightarrow> acts n (k r) s')"
  by (auto simp: atomically_def split: option.split)

lemma reach_acts:
  assumes "acts n p s = Some (s', p')" and "reach init (threads_step job code env) (s, ts)" and "ts i = Some (j, p)"
  shows "reach init (threads_step job code env) (s', ts(i \<mapsto> (j, p')))"
  using assms
proof (induction n p s arbitrary: ts rule: acts.induct)
  case (1 p s)
  then have "ts(i \<mapsto> (j, p')) = ts" "s' = s" by auto
  with 1 show ?case by simp
next
  case (2 n f s)
  then obtain s1 q where f: "f s = Some (s1, q)" "acts n q s1 = Some (s', p')" by (auto split: option.splits)
  have "reach init (threads_step job code env) (s1, ts(i \<mapsto> (j, q)))"
    by (rule reach_step [OF 2(3) thread_acts [where ts = ts, OF 2(4) f(1)]])
  from 2(1) [OF f(1) refl f(2) this] show ?case by (simp only: fun_upd_upd fun_upd_same)
qed simp

subsection \<open>What every action does to the state\<close>

text \<open>Each action of the thread, whenever it is taken, moves the state along \<open>Q\<close>.\<close>

primrec moves :: "('s \<Rightarrow> 's \<Rightarrow> bool) \<Rightarrow> ('s, 'r) proc \<Rightarrow> bool" where
  "moves Q (Done r) = True"
| "moves Q (Act f) = (\<forall>s. case map_option (map_prod id (moves Q)) (f s) of None \<Rightarrow> True | Some (s', ok) \<Rightarrow> Q s s' \<and> ok)"

lemma moves_Act: "moves Q (Act f) \<longleftrightarrow> (\<forall>s s' p. f s = Some (s', p) \<longrightarrow> Q s s' \<and> moves Q p)"
  by (auto split: option.splits)

declare moves.simps(2) [simp del]

lemma moves_atomically: "moves Q (atomically f) \<longleftrightarrow> (\<forall>s r s'. f s = Some (r, s') \<longrightarrow> Q s s')"
  by (auto simp: atomically_def moves_Act)

lemma moves_and_then:
  assumes "moves Q p" and "\<And>r. moves Q (k r)"
  shows "moves Q (and_then p k)"
  using assms(1)
proof (induction p)
  case (Act f)
  have "moves Q (and_then p k)" if "f s = Some (s', p)" for s s' p
  proof -
    have "Some (s', p) \<in> range f" using that rangeI [of f s] by simp
    from Act(1) [OF this, of "(s', p)" p] Act(2) that show ?thesis by (auto simp: moves_Act)
  qed
  with Act(2) show ?case by (auto simp: moves_Act)
qed (simp add: assms(2))

text \<open>Every result the thread can end with, whatever happens between its actions, satisfies \<open>R\<close>.\<close>

primrec ends :: "('r \<Rightarrow> bool) \<Rightarrow> ('s, 'r) proc \<Rightarrow> bool" where
  "ends R (Done r) = R r"
| "ends R (Act f) = (\<forall>s. case map_option (map_prod id (ends R)) (f s) of None \<Rightarrow> True | Some (s', ok) \<Rightarrow> ok)"

lemma ends_Act: "ends R (Act f) \<longleftrightarrow> (\<forall>s s' p. f s = Some (s', p) \<longrightarrow> ends R p)"
  by (auto split: option.splits)

declare ends.simps(2) [simp del]

lemma ends_atomically: "ends R (atomically f) \<longleftrightarrow> (\<forall>s r s'. f s = Some (r, s') \<longrightarrow> R r)"
  unfolding atomically_def ends_Act by (auto, metis ends.simps(1), metis)

lemma ends_any: "ends (\<lambda>_. True) p"
proof (induction p)
  case (Act f)
  then show ?case unfolding ends_Act by (metis rangeI snd_conv snds.intros option.set_intros)
qed simp

lemma ends_and_then:
  assumes "ends M p" and "\<And>r. M r \<Longrightarrow> ends R (k r)"
  shows "ends R (and_then p k)"
  using assms(1)
proof (induction p)
  case (Act f)
  have "ends R (and_then p k)" if "f s = Some (s', p)" for s s' p
  proof -
    have "Some (s', p) \<in> range f" using that rangeI [of f s] by simp
    from Act(1) [OF this, of "(s', p)" p] Act(2) that show ?thesis by (auto simp: ends_Act)
  qed
  then show ?case by (auto simp: ends_Act)
qed (simp add: assms(2))

lemma ends_then: "(\<And>r. ends R (k r)) \<Longrightarrow> ends R (and_then p k)"
  by (rule ends_and_then [OF ends_any])

text \<open>What may be left of a thread after some of its actions.\<close>

inductive residual :: "('s, 'r) proc \<Rightarrow> ('s, 'r) proc \<Rightarrow> bool" for p where
  residual_refl: "residual p p"
| residual_act: "residual p (Act f) \<Longrightarrow> f s = Some (s', q) \<Longrightarrow> residual p q"

lemma residual_moves: "residual p q \<Longrightarrow> moves Q p \<Longrightarrow> moves Q q"
  by (induction rule: residual.induct) (auto simp: moves_Act)

lemma residual_ends: "residual p q \<Longrightarrow> ends R p \<Longrightarrow> ends R q"
  by (induction rule: residual.induct) (auto simp: ends_Act)

end
