(* ===== verification/DbThreads.thy ===== *)
theory DbThreads
  imports DbWorking Threads
begin

section \<open>The database threads, action by action\<close>

text \<open>
  The tasks of \<open>DbHandlers\<close> once more, as the threads of the DB pool run them: every call of a
  client library, every critical section of a connection pool and every answer is one
  action, and other threads may act in between. Run alone, a thread does what \<open>runDbTask\<close>
  says. The shared state is that of the tasks and a ghost: which
  thread holds a MySQL connection.
\<close>

record 'w db_shared = "'w db_state" +
  holder :: "nat \<Rightarrow> nat option"

definition erase :: "'w db_shared \<Rightarrow> 'w db_state" where
  "erase s = \<lparr>mysqlPool = mysqlPool s, redisPool = redisPool s, world = world s\<rparr>"

type_synonym ('w, 'r) db_proc = "('w db_shared, 'r) proc"

subsection \<open>Actions\<close>

definition mysql_acquire :: "nat \<Rightarrow> ('w, nat option) db_proc" where
  "mysql_acquire i = atomically (\<lambda>s.
     case mysql_getConn (mysqlPool s) of
       (conn, p) \<Rightarrow> Some (conn, s\<lparr>mysqlPool := p,
         holder := (case conn of None \<Rightarrow> holder s | Some c \<Rightarrow> (holder s)(c \<mapsto> i))\<rparr>))"

definition mysql_giveback :: "nat option \<Rightarrow> ('w, unit) db_proc" where
  "mysql_giveback conn = atomically (\<lambda>s. Some ((), s\<lparr>mysqlPool := mysql_releaseConn conn (mysqlPool s),
     holder := (case conn of None \<Rightarrow> holder s | Some c \<Rightarrow> (holder s)(c := None))\<rparr>))"

definition redis_acquire :: "('w, nat option) db_proc" where
  "redis_acquire = atomically (\<lambda>s.
     case redis_getConn (redisPool s) of (conn, p) \<Rightarrow> Some (conn, s\<lparr>redisPool := p\<rparr>))"

definition redis_giveback :: "nat \<Rightarrow> ('w, unit) db_proc" where
  "redis_giveback conn = atomically (\<lambda>s. Some ((), s\<lparr>redisPool := redis_releaseConn (Some conn) (redisPool s)\<rparr>))"

definition world_call :: "('w \<Rightarrow> 'r \<times> 'w) \<Rightarrow> ('w, 'r) db_proc" where
  "world_call f = atomically (\<lambda>s. case f (world s) of (r, w) \<Rightarrow> Some (r, s\<lparr>world := w\<rparr>))"

definition reply_proc :: "'w services \<Rightarrow> int \<Rightarrow> bool \<Rightarrow> nat \<Rightarrow> bytes \<Rightarrow> ('w, db_result) db_proc" where
  "reply_proc S fd keepAlive statusCode body = atomically (\<lambda>s.
     map_option (\<lambda>(r, w). (r, s\<lparr>world := w\<rparr>)) (reply S fd keepAlive statusCode body (world s)))"

subsection \<open>Redis operations\<close>

text \<open>The connection of a pool is opened outside its lock, and pushed under it.\<close>

definition redis_discard_proc :: "'w redis \<Rightarrow> nat \<Rightarrow> ('w, unit) db_proc" where
  "redis_discard_proc R conn =
     and_then (world_call (\<lambda>w. ((), rd_free R conn w))) (\<lambda>_.
     and_then (atomically (\<lambda>s.
         case redis_createConn R (redisPool s) (world s) of (fresh, w) \<Rightarrow> Some (fresh, s\<lparr>world := w\<rparr>))) (\<lambda>fresh.
       (case fresh of None \<Rightarrow> Done () | Some c \<Rightarrow> redis_giveback c)))"

text \<open>The common course of \<open>get\<close>, \<open>setex\<close> and \<open>del\<close>: without a connection or a reply the error value.\<close>

definition redis_op_proc :: "'w redis \<Rightarrow> bytes list \<Rightarrow> 'r \<Rightarrow> (redis_reply \<Rightarrow> 'r) \<Rightarrow> ('w, 'r) db_proc" where
  "redis_op_proc R command broken answer =
     and_then redis_acquire (\<lambda>conn.
       (case conn of
          None \<Rightarrow> Done broken
        | Some c \<Rightarrow>
            and_then (world_call (rd_command R c command)) (\<lambda>rep.
              (case rep of
                 None \<Rightarrow> and_then (redis_discard_proc R c) (\<lambda>_. Done broken)
               | Some r \<Rightarrow> and_then (redis_giveback c) (\<lambda>_. Done (answer r))))))"

definition redis_get_proc :: "'w redis \<Rightarrow> bytes \<Rightarrow> ('w, bytes \<times> redis_status) db_proc" where
  "redis_get_proc R key = redis_op_proc R [''GET'', c_str key] ([], RedisError)
     (\<lambda>r. case r of ReplyString s \<Rightarrow> (s, RedisOk) | _ \<Rightarrow> ([], RedisNotFound))"

definition redis_setex_proc :: "'w redis \<Rightarrow> bytes \<Rightarrow> nat \<Rightarrow> bytes \<Rightarrow> ('w, bool) db_proc" where
  "redis_setex_proc R key ttl val = redis_op_proc R [''SETEX'', c_str key, to_string ttl, c_str val] False
     (\<lambda>r. case r of ReplyError e \<Rightarrow> False | _ \<Rightarrow> True)"

definition redis_del_proc :: "'w redis \<Rightarrow> bytes \<Rightarrow> ('w, redis_status) db_proc" where
  "redis_del_proc R key = redis_op_proc R [''DEL'', c_str key] RedisError
     (\<lambda>r. case r of ReplyInteger n \<Rightarrow> if n > 0 then RedisOk else RedisNotFound | _ \<Rightarrow> RedisNotFound)"

subsection \<open>Tasks\<close>

definition mysql_guard_proc :: "nat \<Rightarrow> (nat option \<Rightarrow> ('w, 'r) db_proc) \<Rightarrow> ('w, 'r) db_proc" where
  "mysql_guard_proc i body =
     and_then (mysql_acquire i) (\<lambda>conn. and_then (body conn) (\<lambda>r. and_then (mysql_giveback conn) (\<lambda>_. Done r)))"

definition register_body_proc ::
    "'w services \<Rightarrow> int \<Rightarrow> bool \<Rightarrow> bytes \<Rightarrow> bytes \<Rightarrow> nat option \<Rightarrow> ('w, db_result) db_proc" where
  "register_body_proc S fd keepAlive username password conn =
     (case conn of
        None \<Rightarrow> reply_proc S fd keepAlive 503 (json_error ''service unavailable'')
      | Some c \<Rightarrow>
          (case (escape_into 129 (my_escape (sv_mysql S) username),
                 escape_into 257 (my_escape (sv_mysql S) password)) of
             (Some esc_user, Some esc_pass) \<Rightarrow>
               and_then (world_call (my_query (sv_mysql S) c (c_str (select_user_sql esc_user)))) (\<lambda>failed.
                 if failed then reply_proc S fd keepAlive 500 (json_error ''database error'')
                 else
                   and_then (world_call (my_store_result (sv_mysql S) c)) (\<lambda>res.
                     if res \<noteq> None \<and> the res \<noteq> [] then
                       reply_proc S fd keepAlive 409 (json_error ''user already exists'')
                     else
                       and_then (world_call (my_query (sv_mysql S) c (c_str (insert_user_sql esc_user esc_pass)))) (\<lambda>failed.
                         if failed then reply_proc S fd keepAlive 500 (json_error ''database error'')
                         else reply_proc S fd keepAlive 200 (json_message ''register success''))))
           | _ \<Rightarrow> Done Overrun))"

definition login_mysql_proc ::
    "'w services \<Rightarrow> int \<Rightarrow> bool \<Rightarrow> bytes \<Rightarrow> nat option \<Rightarrow> ('w, db_result + bytes option) db_proc" where
  "login_mysql_proc S fd keepAlive username conn =
     (case conn of
        None \<Rightarrow> and_then (reply_proc S fd keepAlive 503 (json_error ''service unavailable'')) (\<lambda>r. Done (Inl r))
      | Some c \<Rightarrow>
          (case escape_into 129 (my_escape (sv_mysql S) username) of
             None \<Rightarrow> Done (Inl Overrun)
           | Some esc_user \<Rightarrow>
               and_then (world_call (my_query (sv_mysql S) c (c_str (select_password_sql esc_user)))) (\<lambda>failed.
                 if failed then and_then (reply_proc S fd keepAlive 500 (json_error ''database error'')) (\<lambda>r. Done (Inl r))
                 else
                   and_then (world_call (my_store_result (sv_mysql S) c)) (\<lambda>res.
                     (case res of
                        Some (row # _) \<Rightarrow>
                          and_then (redis_setex_proc (sv_redis S) (user_key username) kUserCacheTtlSec (c_str row))
                            (\<lambda>_. Done (Inr (Some (c_str row))))
                      | _ \<Rightarrow> Done (Inr None))))))"

primrec draw_token_proc :: "'w services \<Rightarrow> nat \<Rightarrow> bytes \<Rightarrow> ('w, bytes option) db_proc" where
  "draw_token_proc S 0 token = Done (Some token)"
| "draw_token_proc S (Suc n) token =
     and_then (world_call (sv_draw S)) (\<lambda>i.
       (case i of None \<Rightarrow> Done None | Some i \<Rightarrow> draw_token_proc S n (token @ [token_charset ! i])))"

definition login_finish_proc ::
    "'w services \<Rightarrow> int \<Rightarrow> bool \<Rightarrow> bytes \<Rightarrow> bytes \<Rightarrow> bytes option \<Rightarrow> ('w, db_result) db_proc" where
  "login_finish_proc S fd keepAlive username password found =
     (case found of
        None \<Rightarrow> reply_proc S fd keepAlive 401 (json_error ''user not found'')
      | Some dbPassword \<Rightarrow>
          if password \<noteq> dbPassword then reply_proc S fd keepAlive 401 (json_error ''wrong password'')
          else
            and_then (draw_token_proc S kTokenLen []) (\<lambda>token.
              (case token of
                 None \<Rightarrow> Done Thrown
               | Some tok \<Rightarrow>
                   and_then (redis_setex_proc (sv_redis S) (session_key tok) kSessionTtlSec username) (\<lambda>ok.
                     if \<not> ok then reply_proc S fd keepAlive 503 (json_error ''service unavailable'')
                     else reply_proc S fd keepAlive 200 (json_token tok)))))"

fun work_proc :: "'w services \<Rightarrow> nat \<Rightarrow> db_task \<Rightarrow> ('w, db_result) db_proc" where
  "work_proc S i (RegisterTask fd ka username password) =
     mysql_guard_proc i (register_body_proc S fd ka username password)"
| "work_proc S i (LoginTask fd ka username password) =
     and_then (redis_get_proc (sv_redis S) (user_key username)) (\<lambda>(cached, st).
       if st = RedisOk \<and> cached \<noteq> [] then login_finish_proc S fd ka username password (Some cached)
       else
         and_then (mysql_guard_proc i (login_mysql_proc S fd ka username)) (\<lambda>res.
           (case res of
              Inl r \<Rightarrow> Done r
            | Inr found \<Rightarrow> login_finish_proc S fd ka username password found)))"
| "work_proc S i (ProfileTask fd ka token) =
     and_then (redis_get_proc (sv_redis S) (session_key token)) (\<lambda>(username, st).
       if st = RedisError then reply_proc S fd ka 503 (json_error ''service unavailable'')
       else if st = RedisNotFound \<or> username = [] then
         reply_proc S fd ka 401 (json_error ''invalid or expired token'')
       else reply_proc S fd ka 200 (json_username username))"
| "work_proc S i (LogoutTask fd ka token) =
     and_then (redis_del_proc (sv_redis S) (session_key token)) (\<lambda>st.
       if st = RedisError then reply_proc S fd ka 503 (json_error ''service unavailable'')
       else if st = RedisNotFound then reply_proc S fd ka 401 (json_error ''invalid or expired token'')
       else reply_proc S fd ka 200 (json_message ''logout success''))"

definition task_proc :: "'w services \<Rightarrow> nat \<Rightarrow> db_task \<Rightarrow> ('w, db_result) db_proc" where
  "task_proc S i t =
     and_then (work_proc S i t) (\<lambda>r.
       (case r of
          Thrown \<Rightarrow> reply_proc S (task_fd t) (task_ka t) 500 (json_error ''internal error'')
        | _ \<Rightarrow> Done r))"

subsection \<open>A thread alone\<close>

definition erased :: "('r \<times> 'w db_shared) option \<Rightarrow> ('r \<times> 'w db_state) option" where
  "erased = map_option (map_prod id erase)"

lemma erased_simps [simp]: "erased None = None" "erased (Some (r, s)) = Some (r, erase s)"
  by (simp_all add: erased_def)

lemma erase_sel [simp]:
  "mysqlPool (erase s) = mysqlPool s" "redisPool (erase s) = redisPool s" "world (erase s) = world s"
  by (simp_all add: erase_def)

lemma run_reply:
  "run (reply_proc S fd ka st b) s = map_option (\<lambda>(r, w). (r, s\<lparr>world := w\<rparr>)) (reply S fd ka st b (world s))"
  by (simp add: reply_proc_def run_simps)

lemma run_world_call: "run (world_call f) s = Some (fst (f (world s)), s\<lparr>world := snd (f (world s))\<rparr>)"
  by (simp add: world_call_def run_simps split: prod.split)

lemma run_discard:
  "run (redis_discard_proc R c) s =
     (case redis_discardBrokenConn R c (redisPool s) (world s) of (p, w) \<Rightarrow> Some ((), s\<lparr>redisPool := p, world := w\<rparr>))"
  by (auto simp: redis_discard_proc_def redis_discardBrokenConn_def redis_giveback_def redis_releaseConn_def run_simps
      run_world_call split: prod.split option.split)

lemma run_redis_ops:
  "run (redis_get_proc R key) s =
     (case redis_get R key (redisPool s) (world s) of (r, p, w) \<Rightarrow> Some (r, s\<lparr>redisPool := p, world := w\<rparr>))"
  "run (redis_setex_proc R key ttl v) s =
     (case redis_setex R key ttl v (redisPool s) (world s) of (ok, p, w) \<Rightarrow> Some (ok, s\<lparr>redisPool := p, world := w\<rparr>))"
  "run (redis_del_proc R key) s =
     (case redis_del R key (redisPool s) (world s) of (st, p, w) \<Rightarrow> Some (st, s\<lparr>redisPool := p, world := w\<rparr>))"
  by (auto simp: redis_get_proc_def redis_setex_proc_def redis_del_proc_def redis_op_proc_def redis_get_def redis_setex_def
      redis_del_def redis_acquire_def redis_giveback_def run_simps run_world_call run_discard
      split: prod.split option.split redis_reply.split)

lemma run_draw: "run (draw_token_proc S n tok) s =
    (case draw_token S n tok (world s) of (r, w) \<Rightarrow> Some (r, s\<lparr>world := w\<rparr>))"
  by (induction n arbitrary: tok s) (auto simp: run_simps run_world_call split: prod.split option.split)

lemma run_register_body:
  "run (register_body_proc S fd ka u q conn) s =
     map_option (\<lambda>(r, w). (r, s\<lparr>world := w\<rparr>)) (registerBody S fd ka u q conn (world s))"
  by (auto simp: register_body_proc_def registerBody_def run_simps run_reply run_world_call option.map_comp comp_def
      split: option.split prod.split)

lemma run_login_mysql:
  "run (login_mysql_proc S fd ka u conn) s =
     map_option (\<lambda>(r, p, w). (r, s\<lparr>redisPool := p, world := w\<rparr>)) (loginMysql S fd ka u conn (redisPool s, world s))"
  by (auto simp: login_mysql_proc_def loginMysql_def run_simps run_reply run_world_call run_redis_ops option.map_comp comp_def
      split: option.split prod.split list.split)

lemma run_login_finish:
  "run (login_finish_proc S fd ka u q found) s =
     map_option (\<lambda>(r, p, w). (r, s\<lparr>redisPool := p, world := w\<rparr>)) (loginFinish S fd ka u q found (redisPool s, world s))"
proof (cases "found = Some q")
  case False
  then show ?thesis
    by (cases found) (simp_all add: login_finish_proc_def loginFinish_def run_reply map_option_case split: option.split prod.split)
next
  case True
  obtain r w1 where d: "draw_token S kTokenLen [] (world s) = (r, w1)" by fastforce
  show ?thesis
  proof (cases r)
    case None
    with True d show ?thesis
      by (simp add: login_finish_proc_def loginFinish_def generateToken_def run_simps run_draw)
  next
    case (Some tok)
    obtain ok p w2 where "redis_setex (sv_redis S) (session_key tok) kSessionTtlSec u (redisPool s) w1 = (ok, p, w2)"
      by (metis prod_cases3)
    with True d Some show ?thesis
      by (simp add: login_finish_proc_def loginFinish_def generateToken_def run_simps run_draw run_redis_ops run_reply
          map_option_case split: option.split prod.split)
  qed
qed

lemmas run_parts = run_reply run_redis_ops run_register_body run_login_mysql run_login_finish

lemma run_guard:
  "run (mysql_guard_proc i body) s =
     (case mysql_getConn (mysqlPool s) of (conn, p) \<Rightarrow>
        (case run (body conn) (s\<lparr>mysqlPool := p, holder := (case conn of None \<Rightarrow> holder s | Some c \<Rightarrow> (holder s)(c \<mapsto> i))\<rparr>) of
           None \<Rightarrow> None
         | Some (r, s') \<Rightarrow> Some (r, s'\<lparr>mysqlPool := mysql_releaseConn conn (mysqlPool s'),
             holder := (case conn of None \<Rightarrow> holder s' | Some c \<Rightarrow> (holder s')(c := None))\<rparr>)))"
  by (auto simp: mysql_guard_proc_def mysql_acquire_def mysql_giveback_def run_simps split: prod.split option.split)

lemma work_proc_sequential: "erased (run (work_proc S i t) s) = db_work S t (erase s)"
proof (cases t)
  case (RegisterTask fd ka u q)
  then show ?thesis
    by (auto simp: run_guard run_parts registerWork_def mysql_guard_def erase_def map_option_case split: prod.split option.split)
next
  case (LoginTask fd ka u q)
  then show ?thesis
    by (auto simp: run_simps run_guard run_parts loginWork_def mysql_guard_def erase_def map_option_case split: prod.split option.split sum.split)
next
  case (ProfileTask fd ka tok)
  then show ?thesis
    by (auto simp: run_simps run_parts profileWork_def erase_def map_option_case split: prod.split option.split)
next
  case (LogoutTask fd ka tok)
  then show ?thesis
    by (auto simp: run_simps run_parts logoutWork_def erase_def map_option_case split: prod.split option.split)
qed

lemma run_task_proc: "erased (run (task_proc S i t) s) = runDbTask S t (erase s)"
proof -
  have w: "erased (run (work_proc S i t) s) = db_work S t (erase s)" by (rule work_proc_sequential)
  show ?thesis
  proof (cases "run (work_proc S i t) s")
    case None
    with w have "db_work S t (erase s) = None" by simp
    with None show ?thesis by (simp add: task_proc_def run_simps runDbTask_def)
  next
    case (Some x)
    obtain r s' where x: "x = (r, s')" by fastforce
    with w Some have "db_work S t (erase s) = Some (r, erase s')" by simp
    with Some x show ?thesis
      by (cases r) (auto simp: task_proc_def run_simps run_reply runDbTask_def erase_def map_option_case split: option.split)
  qed
qed

end
