(* ===== verification/DbConcurrent.thy ===== *)
theory DbConcurrent
  imports DbThreads DbProperties
begin

section \<open>Any interleaving of the database threads\<close>

text \<open>
  Authentication, sessions and the MySQL pool under any interleaving of the database
  threads, one action at a time. What is relied on of MySQL and Redis is stated for single
  calls; that a result set belongs to the query of the same thread follows from the pool
  handing each connection to one thread only.
\<close>

subsection \<open>Contract of single calls\<close>

text \<open>
  \<open>answer w c\<close> is the result of the last query on connection \<open>c\<close>, which \<^verbatim>\<open>mysql_store_result\<close>
  fetches. Nothing but a call on \<open>c\<close> itself changes it.
\<close>

definition settled ::
    "('w \<Rightarrow> (bytes \<times> bytes) list) \<Rightarrow> ('w \<Rightarrow> bytes \<Rightarrow> bytes option) \<Rightarrow> ('w \<Rightarrow> nat \<Rightarrow> bytes list) \<Rightarrow> 'w \<Rightarrow> 'w \<Rightarrow> bool" where
  "settled rows kv answer w w' \<longleftrightarrow> rows w' = rows w \<and> kv w' \<subseteq>\<^sub>m kv w \<and> answer w' = answer w"

definition mysql_calls ::
    "'w mysql \<Rightarrow> (bytes \<Rightarrow> bytes \<Rightarrow> bool) \<Rightarrow> ('w \<Rightarrow> (bytes \<times> bytes) list) \<Rightarrow> ('w \<Rightarrow> bytes \<Rightarrow> bytes option)
     \<Rightarrow> ('w \<Rightarrow> nat \<Rightarrow> bytes list) \<Rightarrow> bool" where
  "mysql_calls M same rows kv answer \<longleftrightarrow>
     (\<forall>s. length (my_escape M s) \<le> 2 * length s \<and> CHR 0x00 \<notin> set (my_escape M s))
     \<and> (\<forall>c q w f w'. my_query M c q w = (f, w') \<longrightarrow>
          kv w' \<subseteq>\<^sub>m kv w \<and> (\<forall>d. d \<noteq> c \<longrightarrow> answer w' d = answer w d))
     \<and> (\<forall>c u w f w'. my_query M c (select_user_sql (my_escape M u)) w = (f, w') \<longrightarrow>
          rows w' = rows w \<and> (\<not> f \<longrightarrow> answer w' c = map (\<lambda>_. ''1'') (take 1 (row_for same (rows w) u))))
     \<and> (\<forall>c u w f w'. my_query M c (select_password_sql (my_escape M u)) w = (f, w') \<longrightarrow>
          rows w' = rows w \<and> (\<not> f \<longrightarrow> answer w' c = map snd (take 1 (row_for same (rows w) u))))
     \<and> (\<forall>c u q w f w'. my_query M c (insert_user_sql (my_escape M u) (my_escape M q)) w = (f, w') \<longrightarrow>
          rows w' = rows w \<and> f \<or> rows w' = rows w @ [(u, q)] \<and> row_for same (rows w) u = [])
     \<and> (\<forall>c w r w'. my_store_result M c w = (r, w') \<longrightarrow>
          rows w' = rows w \<and> kv w' \<subseteq>\<^sub>m kv w \<and> (\<forall>d. d \<noteq> c \<longrightarrow> answer w' d = answer w d)
          \<and> (r \<noteq> None \<longrightarrow> the r = answer w c))"

definition quiet_calls ::
    "'w services \<Rightarrow> ('w \<Rightarrow> (bytes \<times> bytes) list) \<Rightarrow> ('w \<Rightarrow> bytes \<Rightarrow> bytes option) \<Rightarrow> ('w \<Rightarrow> nat \<Rightarrow> bytes list) \<Rightarrow> bool" where
  "quiet_calls S rows kv answer \<longleftrightarrow>
     (\<forall>fd d w r w'. k_write (sv_kernel S) fd d w = (r, w') \<longrightarrow> settled rows kv answer w w')
     \<and> (\<forall>w r w'. sv_draw S w = (r, w') \<longrightarrow> settled rows kv answer w w')
     \<and> (\<forall>h p w r w'. rd_connect (sv_redis S) h p w = (r, w') \<longrightarrow> rows w' = rows w \<and> answer w' = answer w)
     \<and> (\<forall>c w. rows (rd_free (sv_redis S) c w) = rows w \<and> answer (rd_free (sv_redis S) c w) = answer w)
     \<and> (\<forall>c cmd w r w'. rd_command (sv_redis S) c cmd w = (r, w') \<longrightarrow> rows w' = rows w \<and> answer w' = answer w)"

definition db_calls ::
    "'w services \<Rightarrow> (bytes \<Rightarrow> bytes \<Rightarrow> bool) \<Rightarrow> ('w \<Rightarrow> (bytes \<times> bytes) list) \<Rightarrow> ('w \<Rightarrow> bytes \<Rightarrow> bytes option)
     \<Rightarrow> ('w \<Rightarrow> nat \<Rightarrow> bytes list) \<Rightarrow> bool" where
  "db_calls S same rows kv answer \<longleftrightarrow>
     mysql_calls (sv_mysql S) same rows kv answer \<and> redis_contract (sv_redis S) kv \<and> quiet_calls S rows kv answer"

lemma mysql_callsD:
  assumes "mysql_calls M same rows kv answer"
  shows "length (my_escape M s) \<le> 2 * length s" and "CHR 0x00 \<notin> set (my_escape M s)"
    and "my_query M c q w = (f, w') \<Longrightarrow> kv w' \<subseteq>\<^sub>m kv w \<and> (\<forall>d. d \<noteq> c \<longrightarrow> answer w' d = answer w d)"
    and "my_query M c (select_user_sql (my_escape M u)) w = (f, w') \<Longrightarrow> rows w' = rows w"
    and "my_query M c (select_password_sql (my_escape M u)) w = (f, w') \<Longrightarrow>
      rows w' = rows w \<and> (\<not> f \<longrightarrow> answer w' c = map snd (take 1 (row_for same (rows w) u)))"
    and "my_query M c (insert_user_sql (my_escape M u) (my_escape M q)) w = (f, w') \<Longrightarrow>
      rows w' = rows w \<and> f \<or> rows w' = rows w @ [(u, q)] \<and> row_for same (rows w) u = []"
    and "my_store_result M c w = (r, w') \<Longrightarrow>
      rows w' = rows w \<and> kv w' \<subseteq>\<^sub>m kv w \<and> (\<forall>d. d \<noteq> c \<longrightarrow> answer w' d = answer w d) \<and> (r \<noteq> None \<longrightarrow> the r = answer w c)"
  using assms unfolding mysql_calls_def by metis+

lemma quiet_callsD:
  assumes "quiet_calls S rows kv answer"
  shows "k_write (sv_kernel S) fd d w = (n, w') \<Longrightarrow> settled rows kv answer w w'"
    and "sv_draw S w = (i, w') \<Longrightarrow> settled rows kv answer w w'"
    and "rd_connect (sv_redis S) h p w = (con, w') \<Longrightarrow> rows w' = rows w \<and> answer w' = answer w"
    and "rows (rd_free (sv_redis S) c w) = rows w \<and> answer (rd_free (sv_redis S) c w) = answer w"
    and "rd_command (sv_redis S) c cmd w = (rep, w') \<Longrightarrow> rows w' = rows w \<and> answer w' = answer w"
  using assms unfolding quiet_calls_def by metis+

lemma settled_refl [simp]: "settled rows kv answer w w"
  by (simp add: settled_def)

lemma settled_trans: "settled rows kv answer w w1 \<Longrightarrow> settled rows kv answer w1 w2 \<Longrightarrow> settled rows kv answer w w2"
  by (auto simp: settled_def intro: map_le_trans)

subsection \<open>Invariant and rely\<close>

text \<open>Every session names a user of the table.\<close>

definition sessions_named :: "(bytes \<Rightarrow> bytes \<Rightarrow> bool) \<Rightarrow> (bytes \<times> bytes) list \<Rightarrow> (bytes \<Rightarrow> bytes option) \<Rightarrow> bool" where
  "sessions_named same table m \<longleftrightarrow> (\<forall>t v. m (session_key t) = Some v \<longrightarrow> (\<exists>q. knows_password same table v q))"

definition unique_names :: "(bytes \<Rightarrow> bytes \<Rightarrow> bool) \<Rightarrow> (bytes \<times> bytes) list \<Rightarrow> bool" where
  "unique_names same table \<longleftrightarrow> sorted_wrt (\<lambda>a b. \<not> same (fst a) (fst b)) table"

text \<open>
  \<open>C\<close> are the connections the MySQL pool was filled with: each is idle or held by one thread.
\<close>

definition db_inv ::
    "(bytes \<Rightarrow> bytes \<Rightarrow> bool) \<Rightarrow> ('w \<Rightarrow> (bytes \<times> bytes) list) \<Rightarrow> ('w \<Rightarrow> bytes \<Rightarrow> bytes option) \<Rightarrow> nat set \<Rightarrow> 'w db_shared \<Rightarrow> bool" where
  "db_inv same rows kv C s \<longleftrightarrow>
     distinct (mysql_idle (mysqlPool s)) \<and> set (mysql_idle (mysqlPool s)) \<inter> dom (holder s) = {}
     \<and> set (mysql_idle (mysqlPool s)) \<union> dom (holder s) = C
     \<and> cache_coherent same (rows (world s)) (kv (world s)) \<and> sessions_named same (rows (world s)) (kv (world s))
     \<and> unique_names same (rows (world s))"

definition db_rely ::
    "('w \<Rightarrow> (bytes \<times> bytes) list) \<Rightarrow> ('w \<Rightarrow> nat \<Rightarrow> bytes list) \<Rightarrow> nat \<Rightarrow> 'w db_shared \<Rightarrow> 'w db_shared \<Rightarrow> bool" where
  "db_rely rows answer i s s' \<longleftrightarrow>
     (\<exists>rs. rows (world s') = rows (world s) @ rs)
     \<and> (\<forall>c. holder s' c = Some i \<longleftrightarrow> holder s c = Some i)
     \<and> (\<forall>c. holder s c = Some i \<longrightarrow> answer (world s') c = answer (world s) c)"

interpretation dbt: interference "db_inv same rows kv C" "db_rely rows answer"
  for same :: "bytes \<Rightarrow> bytes \<Rightarrow> bool" and rows :: "'w \<Rightarrow> (bytes \<times> bytes) list" and kv C answer
  by unfold_locales (auto simp: db_rely_def)

abbreviation "dsafe same rows kv answer C \<equiv> safe (db_inv same rows kv C) (db_rely rows answer)"

abbreviation "dstable rows answer \<equiv> interference.stable (db_rely rows answer)"

text \<open>The connection thread \<open>i\<close> holds.\<close>

definition holds :: "nat \<Rightarrow> nat option \<Rightarrow> 'w db_shared \<Rightarrow> bool" where
  "holds i conn s \<longleftrightarrow> (\<forall>c. holder s c = Some i \<longleftrightarrow> conn = Some c)"

lemma holds_stable: "dstable rows answer i (holds i conn)"
  by (simp add: dbt.stable_def db_rely_def holds_def)

lemma table_stable: "(\<And>table rs. P table \<Longrightarrow> P (table @ rs)) \<Longrightarrow> dstable rows answer i (\<lambda>s. P (rows (world s)))"
  by (auto simp: dbt.stable_def db_rely_def)

lemma knows_stable: "dstable rows answer i (\<lambda>s. knows_password same (rows (world s)) u q)"
  by (rule table_stable) (rule knows_password_append)

lemma sessions_named_le: "sessions_named same table m \<Longrightarrow> m' \<subseteq>\<^sub>m m \<Longrightarrow> sessions_named same (table @ rs) m'"
  unfolding sessions_named_def map_le_def dom_def by (metis (mono_tags) knows_password_append mem_Collect_eq option.distinct(1))

text \<open>An action on the world that only lets time pass.\<close>

lemma settled_ok:
  assumes "db_inv same rows kv C s" and "settled rows kv answer (world s) w"
  shows "db_inv same rows kv C (s\<lparr>world := w\<rparr>)" and "db_rely rows answer j s (s\<lparr>world := w\<rparr>)"
  using assms cache_coherent_le [of same "rows (world s)" "kv (world s)" "kv w" "[]"]
    sessions_named_le [of same "rows (world s)" "kv (world s)" "kv w" "[]"]
  by (simp_all add: db_inv_def db_rely_def settled_def)

subsection \<open>Actions\<close>

lemma safe_world_quiet:
  assumes "P s" and "dstable rows answer i P" and "\<And>w r w'. f w = (r, w') \<Longrightarrow> settled rows kv answer w w'"
  shows "dsafe same rows kv answer C i (\<lambda>s r. P s) (world_call f) s"
proof -
  have "dsafe same rows kv answer C i (\<lambda>s r. P s \<and> True) (world_call f) s"
    unfolding world_call_def
  proof (rule dbt.safe_gentle [OF assms(1,2)])
    fix s1 r s2
    assume i: "db_inv same rows kv C s1" and "(case f (world s1) of (r, w) \<Rightarrow> Some (r, s1\<lparr>world := w\<rparr>)) = Some (r, s2)"
    then obtain w where w: "f (world s1) = (r, w)" "s2 = s1\<lparr>world := w\<rparr>" by (auto split: prod.splits)
    with settled_ok [OF i assms(3) [OF w(1)]]
    show "db_inv same rows kv C s2 \<and> (\<forall>j. db_rely rows answer j s1 s2) \<and> True" by simp
  qed (rule dbt.stable_intros)
  then show ?thesis by simp
qed

lemma safe_reply:
  assumes "quiet_calls S rows kv answer" and "P s" and "dstable rows answer i P"
  shows "dsafe same rows kv answer C i (\<lambda>s r. P s \<and> r = Answered st b) (reply_proc S fd ka st b) s"
  unfolding reply_proc_def
proof (rule dbt.safe_gentle [OF assms(2,3)])
  fix s1 r s2
  assume i: "db_inv same rows kv C s1"
    and "map_option (\<lambda>(r, w). (r, s1\<lparr>world := w\<rparr>)) (reply S fd ka st b (world s1)) = Some (r, s2)"
  then obtain w where w: "reply S fd ka st b (world s1) = Some (r, w)" "s2 = s1\<lparr>world := w\<rparr>" by auto
  then obtain d n where "send_loop (sv_kernel S) fd (buildHttpResponse st ''application/json'' b ka) 0 (world s1) = Some (d, n, w)"
    by (auto simp: reply_def sendJson_def sendHttpResponse_def split: option.splits)
  then have "settled rows kv answer (world s1) w"
    by (rule send_loop_keeps) (blast intro: settled_refl settled_trans dest: quiet_callsD(1) [OF assms(1)])+
  from settled_ok [OF i this] w show "db_inv same rows kv C s2 \<and> (\<forall>j. db_rely rows answer j s1 s2) \<and> r = Answered st b"
    by (auto simp: reply_def split: option.splits)
qed (rule dbt.stable_intros)

text \<open>The Redis pool does not matter to the invariant.\<close>

lemma redis_pool_ok:
  "db_inv same rows kv C (s\<lparr>redisPool := p\<rparr>) = db_inv same rows kv C s" "db_rely rows answer j s (s\<lparr>redisPool := p\<rparr>)"
  by (simp_all add: db_inv_def db_rely_def)

lemma safe_redis_acquire:
  assumes "P s" and "dstable rows answer i P"
  shows "dsafe same rows kv answer C i (\<lambda>s r. P s) redis_acquire s"
proof -
  have "dsafe same rows kv answer C i (\<lambda>s r. P s \<and> True) redis_acquire s"
    unfolding redis_acquire_def
    by (rule dbt.safe_gentle [OF assms]) (auto simp: redis_pool_ok split: prod.splits intro: dbt.stable_intros)
  then show ?thesis by simp
qed

lemma safe_redis_giveback:
  assumes "P s" and "dstable rows answer i P"
  shows "dsafe same rows kv answer C i (\<lambda>s r. P s) (redis_giveback c) s"
proof -
  have "dsafe same rows kv answer C i (\<lambda>s r. P s \<and> True) (redis_giveback c) s"
    unfolding redis_giveback_def
    by (rule dbt.safe_gentle [OF assms]) (auto simp: redis_pool_ok intro: dbt.stable_intros)
  then show ?thesis by simp
qed

lemma redis_createConn_settled:
  assumes "redis_contract (sv_redis S) kv" and "quiet_calls S rows kv answer"
    and "redis_createConn (sv_redis S) p w = (r, w')"
  shows "settled rows kv answer w w'"
proof -
  obtain con w1 where c: "rd_connect (sv_redis S) (c_str (redis_host p)) (redis_port p) w = (con, w1)" by fastforce
  have c1: "settled rows kv answer w w1"
    using redis_contractD(1) [OF assms(1) c] quiet_callsD(3) [OF assms(2) c] by (simp add: settled_def)
  have "settled rows kv answer w1 (rd_free (sv_redis S) d w1)" for d
    using redis_contractD(2) [OF assms(1)] quiet_callsD(4) [OF assms(2)] by (simp add: settled_def)
  with settled_trans [OF c1] have "settled rows kv answer w (rd_free (sv_redis S) d w1)" for d by blast
  with c c1 assms(3) show ?thesis
    by (auto simp: redis_createConn_def split: option.splits if_splits)
qed

lemma safe_discard:
  assumes "redis_contract (sv_redis S) kv" and "quiet_calls S rows kv answer" and "P s" and "dstable rows answer i P"
  shows "dsafe same rows kv answer C i (\<lambda>s r. P s) (redis_discard_proc (sv_redis S) c) s"
  unfolding redis_discard_proc_def
proof (rule dbt.safe_and_then [where mid = "\<lambda>s r. P s"], rule safe_world_quiet [OF assms(3,4)])
  show "((), rd_free (sv_redis S) c w) = (r, w') \<Longrightarrow> settled rows kv answer w w'" for w r w'
    using redis_contractD(2) [OF assms(1), of c w] quiet_callsD(4) [OF assms(2), of c w] by (simp add: settled_def)
next
  fix s1
  assume P: "P s1"
  have "dsafe same rows kv answer C i (\<lambda>s r. P s \<and> True)
     (atomically (\<lambda>s. case redis_createConn (sv_redis S) (redisPool s) (world s) of (fresh, w) \<Rightarrow> Some (fresh, s\<lparr>world := w\<rparr>))) s1"
  proof (rule dbt.safe_gentle [OF P assms(4)])
    fix s2 r s3
    assume i: "db_inv same rows kv C s2"
      and "(case redis_createConn (sv_redis S) (redisPool s2) (world s2) of (fresh, w) \<Rightarrow> Some (fresh, s2\<lparr>world := w\<rparr>)) = Some (r, s3)"
    then obtain w where w: "redis_createConn (sv_redis S) (redisPool s2) (world s2) = (r, w)" "s3 = s2\<lparr>world := w\<rparr>"
      by (auto split: prod.splits)
    with settled_ok [OF i redis_createConn_settled [OF assms(1,2) w(1)]]
    show "db_inv same rows kv C s3 \<and> (\<forall>j. db_rely rows answer j s2 s3) \<and> True" by simp
  qed (rule dbt.stable_intros)
  then show "dsafe same rows kv answer C i (\<lambda>s r. P s)
     (and_then (atomically (\<lambda>s. case redis_createConn (sv_redis S) (redisPool s) (world s) of (fresh, w) \<Rightarrow> Some (fresh, s\<lparr>world := w\<rparr>)))
       (\<lambda>fresh. case fresh of None \<Rightarrow> Done () | Some c \<Rightarrow> redis_giveback c)) s1"
  proof (rule dbt.safe_and_then)
    fix r s2 assume "P s2 \<and> True"
    with safe_redis_giveback [OF _ assms(4)] assms(4) show
      "dsafe same rows kv answer C i (\<lambda>s r. P s) (case r of None \<Rightarrow> Done () | Some c \<Rightarrow> redis_giveback c) s2"
      by (cases r) (simp_all add: dbt.safe_DoneI del: safe.simps)
  qed
qed

text \<open>A Redis operation whose command is allowed and establishes \<open>Q\<close>.\<close>

lemma safe_redis_op:
  assumes "redis_contract (sv_redis S) kv" and "quiet_calls S rows kv answer" and "P s" and st: "dstable rows answer i P"
    and cmd: "\<And>c s1 rep w. P s1 \<Longrightarrow> db_inv same rows kv C s1 \<Longrightarrow> rd_command (sv_redis S) c command (world s1) = (rep, w) \<Longrightarrow>
      db_inv same rows kv C (s1\<lparr>world := w\<rparr>) \<and> (\<forall>j. db_rely rows answer j s1 (s1\<lparr>world := w\<rparr>))
      \<and> (\<forall>r. rep = Some r \<longrightarrow> Q (s1\<lparr>world := w\<rparr>) (ans r))"
    and Q: "\<And>s1. P s1 \<Longrightarrow> Q s1 broken" and Qst: "\<And>r. dstable rows answer i (\<lambda>s. Q s r)"
  shows "dsafe same rows kv answer C i (\<lambda>s r. P s \<and> Q s r) (redis_op_proc (sv_redis S) command broken ans) s"
  unfolding redis_op_proc_def
proof (rule dbt.safe_and_then [OF safe_redis_acquire [OF assms(3) st]])
  fix conn s1
  assume P1: "P s1"
  have fin: "dsafe same rows kv answer C i (\<lambda>s r. P s \<and> Q s r) (Done r) s2" if "P s2" "Q s2 r" for r s2
    by (rule dbt.safe_DoneI [where P = "\<lambda>s. P s \<and> Q s r"]) (use that st Qst in \<open>simp_all add: dbt.stable_intros\<close>)
  have "dsafe same rows kv answer C i (\<lambda>s r. P s \<and> Q s r)
      (and_then (world_call (rd_command (sv_redis S) c command))
         (\<lambda>rep. case rep of None \<Rightarrow> and_then (redis_discard_proc (sv_redis S) c) (\<lambda>_. Done broken)
                 | Some r \<Rightarrow> and_then (redis_giveback c) (\<lambda>_. Done (ans r)))) s1" for c
  proof (rule dbt.safe_and_then)
    show "dsafe same rows kv answer C i (\<lambda>s rep. P s \<and> (\<forall>r. rep = Some r \<longrightarrow> Q s (ans r))) (world_call (rd_command (sv_redis S) c command)) s1"
      unfolding world_call_def
    proof (rule dbt.safe_gentle [OF P1 st])
      fix s2 r s3
      assume a: "P s2" "db_inv same rows kv C s2"
        "(case rd_command (sv_redis S) c command (world s2) of (r, w) \<Rightarrow> Some (r, s2\<lparr>world := w\<rparr>)) = Some (r, s3)"
      then obtain w where "rd_command (sv_redis S) c command (world s2) = (r, w)" "s3 = s2\<lparr>world := w\<rparr>" by (auto split: prod.splits)
      with cmd [OF a(1,2)] show "db_inv same rows kv C s3 \<and> (\<forall>j. db_rely rows answer j s2 s3) \<and> (\<forall>r'. r = Some r' \<longrightarrow> Q s3 (ans r'))"
        by simp
    qed (intro dbt.stable_intros Qst)
  next
    fix rep s2
    assume a: "P s2 \<and> (\<forall>r. rep = Some r \<longrightarrow> Q s2 (ans r))"
    show "dsafe same rows kv answer C i (\<lambda>s r. P s \<and> Q s r)
        (case rep of None \<Rightarrow> and_then (redis_discard_proc (sv_redis S) c) (\<lambda>_. Done broken)
         | Some r \<Rightarrow> and_then (redis_giveback c) (\<lambda>_. Done (ans r))) s2"
    proof (cases rep)
      case None
      have "dsafe same rows kv answer C i (\<lambda>s r. P s \<and> Q s r) (and_then (redis_discard_proc (sv_redis S) c) (\<lambda>_. Done broken)) s2"
        by (rule dbt.safe_and_then [OF safe_discard [OF assms(1,2) _ st]]) (use a Q fin in blast)+
      with None show ?thesis by simp
    next
      case (Some r)
      have "dsafe same rows kv answer C i (\<lambda>s _. P s \<and> Q s (ans r)) (redis_giveback c) s2"
        by (rule safe_redis_giveback) (use a Some st Qst in \<open>simp_all add: dbt.stable_intros\<close>)
      then have "dsafe same rows kv answer C i (\<lambda>s r. P s \<and> Q s r) (and_then (redis_giveback c) (\<lambda>_. Done (ans r))) s2"
        by (rule dbt.safe_and_then) (use fin in blast)
      with Some show ?thesis by simp
    qed
  qed
  then show "dsafe same rows kv answer C i (\<lambda>s r. P s \<and> Q s r)
      (case conn of None \<Rightarrow> Done broken
       | Some c \<Rightarrow> and_then (world_call (rd_command (sv_redis S) c command))
           (\<lambda>rep. case rep of None \<Rightarrow> and_then (redis_discard_proc (sv_redis S) c) (\<lambda>_. Done broken)
                   | Some r \<Rightarrow> and_then (redis_giveback c) (\<lambda>_. Done (ans r)))) s1"
    using fin [OF P1 Q [OF P1]] by (cases conn) simp_all
qed

lemma safe_get:
  assumes "db_calls S same rows kv answer" and "P s" and "dstable rows answer i P"
    and "\<And>table m v. cache_coherent same table m \<Longrightarrow> sessions_named same table m \<Longrightarrow> m (c_str key) = Some v \<Longrightarrow> G table v"
    and "\<And>table rs v. G table v \<Longrightarrow> G (table @ rs) v"
  shows "dsafe same rows kv answer C i (\<lambda>s r. P s \<and> (snd r = RedisOk \<longrightarrow> G (rows (world s)) (fst r)))
    (redis_get_proc (sv_redis S) key) s"
proof -
  have R: "redis_contract (sv_redis S) kv" and q: "quiet_calls S rows kv answer" using assms(1) by (simp_all add: db_calls_def)
  show ?thesis
    unfolding redis_get_proc_def
  proof (rule safe_redis_op [OF R q assms(2,3)])
    fix c s1 rep w
    assume i: "db_inv same rows kv C s1" and g: "rd_command (sv_redis S) c [''GET'', c_str key] (world s1) = (rep, w)"
    note r = redis_contractD(3) [OF R g] and n = quiet_callsD(5) [OF q g]
    then have "settled rows kv answer (world s1) w" by (simp add: settled_def)
    note ok = settled_ok [OF i this]
    have "G (rows w) v" if "rep = Some (ReplyString v)" for v
      using assms(4) [of "rows (world s1)" "kv (world s1)" v] i r n that by (simp add: db_inv_def)
    then show "db_inv same rows kv C (s1\<lparr>world := w\<rparr>) \<and> (\<forall>j. db_rely rows answer j s1 (s1\<lparr>world := w\<rparr>))
      \<and> (\<forall>r. rep = Some r \<longrightarrow> snd (case r of ReplyString s \<Rightarrow> (s, RedisOk) | _ \<Rightarrow> ([], RedisNotFound)) = RedisOk \<longrightarrow>
           G (rows (world (s1\<lparr>world := w\<rparr>))) (fst (case r of ReplyString s \<Rightarrow> (s, RedisOk) | _ \<Rightarrow> ([], RedisNotFound))))"
      using ok by (auto split: redis_reply.splits)
  next
    show "dstable rows answer i (\<lambda>s. snd r = RedisOk \<longrightarrow> G (rows (world s)) (fst r))" for r
      by (rule table_stable) (use assms(5) in blast)
  qed simp
qed

text \<open>What may be stored under a key.\<close>

definition storable :: "(bytes \<Rightarrow> bytes \<Rightarrow> bool) \<Rightarrow> (bytes \<times> bytes) list \<Rightarrow> bytes \<Rightarrow> bytes \<Rightarrow> bool" where
  "storable same table k v \<longleftrightarrow>
     (\<forall>u. k = user_key u \<longrightarrow> knows_password same table u v)
     \<and> (\<forall>t. k = session_key t \<longrightarrow> (\<exists>q. knows_password same table v q))"

lemma storable_stable: "dstable rows answer i (\<lambda>s. storable same (rows (world s)) k v)"
  by (rule table_stable) (auto simp: storable_def intro: knows_password_append)

lemma store_keeps:
  assumes "cache_coherent same table m" and "sessions_named same table m" and "storable same table k v"
    and "m' \<subseteq>\<^sub>m m \<or> m' \<subseteq>\<^sub>m m(k \<mapsto> v)"
  shows "cache_coherent same table m'" and "sessions_named same table m'"
proof -
  have s: "m x = Some y \<or> x = k \<and> y = v" if "m' x = Some y" for x y
    using assms(4) that map_le_upd_cases [of m' m k v x y] by (auto simp: map_le_def dom_def)
  show "cache_coherent same table m'" unfolding cache_coherent_def
    using s assms(1,3) unfolding cache_coherent_def storable_def by blast
  show "sessions_named same table m'" unfolding sessions_named_def
    using s assms(2,3) unfolding sessions_named_def storable_def by blast
qed

lemma safe_setex:
  assumes "db_calls S same rows kv answer" and "P s" and "dstable rows answer i P"
    and "storable same (rows (world s)) (c_str key) (c_str v)"
  shows "dsafe same rows kv answer C i (\<lambda>s r. P s) (redis_setex_proc (sv_redis S) key ttl v) s"
proof -
  have R: "redis_contract (sv_redis S) kv" and q: "quiet_calls S rows kv answer" using assms(1) by (simp_all add: db_calls_def)
  let ?P = "\<lambda>s. P s \<and> storable same (rows (world s)) (c_str key) (c_str v)"
  have "dsafe same rows kv answer C i (\<lambda>s r. ?P s \<and> True) (redis_setex_proc (sv_redis S) key ttl v) s"
    unfolding redis_setex_proc_def
  proof (rule safe_redis_op [OF R q])
    fix c s1 rep w
    assume P: "?P s1" and i: "db_inv same rows kv C s1"
      and g: "rd_command (sv_redis S) c [''SETEX'', c_str key, to_string ttl, c_str v] (world s1) = (rep, w)"
    note r = redis_contractD(4) [OF R g] and n = quiet_callsD(5) [OF q g]
    from i store_keeps [OF _ _ conjunct2 [OF P] r] n have "db_inv same rows kv C (s1\<lparr>world := w\<rparr>)"
      by (simp add: db_inv_def)
    moreover have "db_rely rows answer j s1 (s1\<lparr>world := w\<rparr>)" for j using n by (simp add: db_rely_def)
    ultimately show "db_inv same rows kv C (s1\<lparr>world := w\<rparr>) \<and> (\<forall>j. db_rely rows answer j s1 (s1\<lparr>world := w\<rparr>)) \<and> (\<forall>r. rep = Some r \<longrightarrow> True)"
      by blast
  qed (use assms(2-4) in \<open>auto intro: dbt.stable_intros storable_stable\<close>)
  then show ?thesis by (rule dbt.safe_conseq) simp
qed

lemma safe_del:
  assumes "db_calls S same rows kv answer" and "P s" and "dstable rows answer i P"
  shows "dsafe same rows kv answer C i (\<lambda>s r. P s) (redis_del_proc (sv_redis S) key) s"
proof -
  have R: "redis_contract (sv_redis S) kv" and q: "quiet_calls S rows kv answer" using assms(1) by (simp_all add: db_calls_def)
  have "dsafe same rows kv answer C i (\<lambda>s r. P s \<and> True) (redis_del_proc (sv_redis S) key) s"
    unfolding redis_del_proc_def
  proof (rule safe_redis_op [OF R q assms(2,3)])
    fix c s1 rep w
    assume i: "db_inv same rows kv C s1" and g: "rd_command (sv_redis S) c [''DEL'', c_str key] (world s1) = (rep, w)"
    have "settled rows kv answer (world s1) w"
      using redis_contractD(5) [OF R g] quiet_callsD(5) [OF q g] by (simp add: settled_def)
    with settled_ok [OF i this] show "db_inv same rows kv C (s1\<lparr>world := w\<rparr>) \<and> (\<forall>j. db_rely rows answer j s1 (s1\<lparr>world := w\<rparr>)) \<and> (\<forall>r. rep = Some r \<longrightarrow> True)"
      by blast
  qed (auto intro: dbt.stable_intros)
  then show ?thesis by simp
qed

lemma safe_draw:
  assumes "quiet_calls S rows kv answer" and "dstable rows answer i P"
  shows "P s \<Longrightarrow> dsafe same rows kv answer C i (\<lambda>s r. P s) (draw_token_proc S n tok) s"
proof (induction n arbitrary: tok s)
  case 0
  with assms(2) show ?case by (auto intro: dbt.safe_DoneI simp del: safe.simps)
next
  case (Suc n)
  have fin: "dsafe same rows kv answer C i (\<lambda>s r. P s) (Done r) s1" if "P s1" for r s1
    using that assms(2) by (auto intro: dbt.safe_DoneI simp del: safe.simps)
  show ?case
    unfolding draw_token_proc.simps
    by (rule dbt.safe_and_then [OF safe_world_quiet [OF Suc.prems assms(2)]])
      (auto dest: quiet_callsD(2) [OF assms(1)] intro: Suc.IH fin simp del: safe.simps split: option.splits)
qed

subsection \<open>MySQL\<close>

text \<open>A call on the connection that the thread holds.\<close>

lemma held_ok:
  assumes "db_inv same rows kv C s" and "holds i (Some c) s"
    and "rows w = rows (world s) @ rs" and "unique_names same (rows w)" and "kv w \<subseteq>\<^sub>m kv (world s)"
    and "\<forall>d. d \<noteq> c \<longrightarrow> answer w d = answer (world s) d"
  shows "db_inv same rows kv C (s\<lparr>world := w\<rparr>)" and "j \<noteq> i \<Longrightarrow> db_rely rows answer j s (s\<lparr>world := w\<rparr>)"
proof -
  show "db_inv same rows kv C (s\<lparr>world := w\<rparr>)"
    using assms(1,3-5) cache_coherent_le [of same "rows (world s)" "kv (world s)" "kv w" rs]
      sessions_named_le [of same "rows (world s)" "kv (world s)" "kv w" rs]
    by (simp add: db_inv_def)
  show "db_rely rows answer j s (s\<lparr>world := w\<rparr>)" if "j \<noteq> i"
    using assms(2,3,6) that by (simp add: db_rely_def holds_def) (metis option.inject)
qed

lemma safe_on_held:
  assumes "holds i (Some c) s" and "Pre s" and "dstable rows answer i (\<lambda>s. holds i (Some c) s \<and> Pre s)"
    and "\<And>r. dstable rows answer i (\<lambda>s. holds i (Some c) s \<and> Q s r)"
    and "\<And>s1 r w. holds i (Some c) s1 \<Longrightarrow> Pre s1 \<Longrightarrow> db_inv same rows kv C s1 \<Longrightarrow> f (world s1) = (r, w) \<Longrightarrow>
      (\<exists>rs. rows w = rows (world s1) @ rs) \<and> unique_names same (rows w) \<and> kv w \<subseteq>\<^sub>m kv (world s1)
      \<and> (\<forall>d. d \<noteq> c \<longrightarrow> answer w d = answer (world s1) d) \<and> Q (s1\<lparr>world := w\<rparr>) r"
  shows "dsafe same rows kv answer C i (\<lambda>s r. holds i (Some c) s \<and> Q s r) (world_call f) s"
  unfolding world_call_def
proof (rule dbt.safe_action [OF conjI [OF assms(1,2)] assms(3)])
  fix s1 r s2
  assume a: "holds i (Some c) s1 \<and> Pre s1" "db_inv same rows kv C s1"
    "(case f (world s1) of (r, w) \<Rightarrow> Some (r, s1\<lparr>world := w\<rparr>)) = Some (r, s2)"
  then obtain w where w: "f (world s1) = (r, w)" "s2 = s1\<lparr>world := w\<rparr>" by (auto split: prod.splits)
  with assms(5) [OF _ _ a(2) w(1)] a(1) obtain rs where
    x: "rows w = rows (world s1) @ rs" "unique_names same (rows w)" "kv w \<subseteq>\<^sub>m kv (world s1)"
      "\<forall>d. d \<noteq> c \<longrightarrow> answer w d = answer (world s1) d" "Q s2 r" by auto
  have "holds i (Some c) s2" using a(1) w(2) by (simp add: holds_def)
  with held_ok [OF a(2) _ x(1-4)] a(1) w(2) x(5)
  show "db_inv same rows kv C s2 \<and> (\<forall>j. j \<noteq> i \<longrightarrow> db_rely rows answer j s1 s2) \<and> holds i (Some c) s2 \<and> Q s2 r"
    by blast
qed (rule assms(4))

definition found_passwords ::
    "(bytes \<Rightarrow> bytes \<Rightarrow> bool) \<Rightarrow> (bytes \<times> bytes) list \<Rightarrow> bytes \<Rightarrow> bytes list \<Rightarrow> bool" where
  "found_passwords same table u ps \<longleftrightarrow> (\<forall>p \<in> set ps. knows_password same table u (c_str p))"

lemma found_append: "found_passwords same table u ps \<Longrightarrow> found_passwords same (table @ rs) u ps"
  by (auto simp: found_passwords_def intro: knows_password_append)

text \<open>The result that waits on the connection of thread \<open>i\<close> stays what it is.\<close>

lemma result_stable:
  "dstable rows answer i (\<lambda>s. holds i (Some c) s \<and> found_passwords same (rows (world s)) u (answer (world s) c))"
  unfolding dbt.stable_def
proof (intro allI impI)
  fix s s' :: "'a db_shared"
  assume a: "holds i (Some c) s \<and> found_passwords same (rows (world s)) u (answer (world s) c)" and r: "db_rely rows answer i s s'"
  then obtain rs where "rows (world s') = rows (world s) @ rs" by (auto simp: db_rely_def)
  moreover have "holds i (Some c) s'" "answer (world s') c = answer (world s) c"
    using a r by (auto simp: db_rely_def holds_def)
  ultimately show "holds i (Some c) s' \<and> found_passwords same (rows (world s')) u (answer (world s') c)"
    using a found_append by simp
qed

lemma row_for_found:
  "ps = map snd (take 1 (row_for same table u)) \<Longrightarrow> found_passwords same table u ps"
  by (force simp: found_passwords_def knows_password_def row_for_def dest!: in_set_takeD)

lemma holds_and_stable:
  "(\<And>table rs. G table \<Longrightarrow> G (table @ rs)) \<Longrightarrow> dstable rows answer i (\<lambda>s. holds i conn s \<and> G (rows (world s)))"
  by (intro dbt.stable_intros holds_stable table_stable)

lemma safe_select_password:
  assumes "db_calls S same rows kv answer" and "holds i (Some c) s"
  shows "dsafe same rows kv answer C i
    (\<lambda>s f. holds i (Some c) s \<and> (f \<or> found_passwords same (rows (world s)) u (answer (world s) c)))
    (world_call (my_query (sv_mysql S) c (select_password_sql (my_escape (sv_mysql S) u)))) s"
proof (rule safe_on_held [OF assms(2), where Pre = "\<lambda>_. True"])
  have m: "mysql_calls (sv_mysql S) same rows kv answer" using assms(1) by (simp add: db_calls_def)
  fix s1 r w
  assume "db_inv same rows kv C s1" and q: "my_query (sv_mysql S) c (select_password_sql (my_escape (sv_mysql S) u)) (world s1) = (r, w)"
  with mysql_callsD(5) [OF m q] mysql_callsD(3) [OF m q] row_for_found [OF refl, of same "rows (world s1)" u]
  show "(\<exists>rs. rows w = rows (world s1) @ rs) \<and> unique_names same (rows w) \<and> kv w \<subseteq>\<^sub>m kv (world s1)
      \<and> (\<forall>d. d \<noteq> c \<longrightarrow> answer w d = answer (world s1) d)
      \<and> (r \<or> found_passwords same (rows (world (s1\<lparr>world := w\<rparr>))) u (answer (world (s1\<lparr>world := w\<rparr>)) c))"
    by (auto simp: db_inv_def)
next
  show "dstable rows answer i (\<lambda>s. holds i (Some c) s \<and> (f \<or> found_passwords same (rows (world s)) u (answer (world s) c)))" for f
    using result_stable holds_stable by (cases f) simp_all
qed (use holds_stable in simp_all)

lemma safe_fetch:
  assumes "db_calls S same rows kv answer" and "holds i (Some c) s"
    and "found_passwords same (rows (world s)) u (answer (world s) c)"
  shows "dsafe same rows kv answer C i
    (\<lambda>s r. holds i (Some c) s \<and> (r = None \<or> found_passwords same (rows (world s)) u (the r)))
    (world_call (my_store_result (sv_mysql S) c)) s"
proof (rule safe_on_held [where Pre = "\<lambda>s. found_passwords same (rows (world s)) u (answer (world s) c)", OF assms(2,3)])
  show "dstable rows answer i (\<lambda>s. holds i (Some c) s \<and> found_passwords same (rows (world s)) u (answer (world s) c))"
    by (rule result_stable)
next
  have m: "mysql_calls (sv_mysql S) same rows kv answer" using assms(1) by (simp add: db_calls_def)
  fix s1 r w
  assume "db_inv same rows kv C s1" and f: "found_passwords same (rows (world s1)) u (answer (world s1) c)"
    and q: "my_store_result (sv_mysql S) c (world s1) = (r, w)"
  with mysql_callsD(7) [OF m q] show "(\<exists>rs. rows w = rows (world s1) @ rs) \<and> unique_names same (rows w) \<and> kv w \<subseteq>\<^sub>m kv (world s1)
      \<and> (\<forall>d. d \<noteq> c \<longrightarrow> answer w d = answer (world s1) d)
      \<and> (r = None \<or> found_passwords same (rows (world (s1\<lparr>world := w\<rparr>))) u (the r))"
    by (auto simp: db_inv_def)
next
  show "dstable rows answer i (\<lambda>s. holds i (Some c) s \<and> (r = None \<or> found_passwords same (rows (world s)) u (the r)))" for r
    by (rule holds_and_stable) (auto intro: found_append)
qed

text \<open>The two statements of a registration.\<close>

lemma safe_lookup_user:
  assumes "db_calls S same rows kv answer" and "holds i (Some c) s"
  shows "dsafe same rows kv answer C i (\<lambda>s f. holds i (Some c) s \<and> True)
      (world_call (my_query (sv_mysql S) c (select_user_sql (my_escape (sv_mysql S) u)))) s"
    and "dsafe same rows kv answer C i (\<lambda>s r. holds i (Some c) s \<and> True) (world_call (my_store_result (sv_mysql S) c)) s"
proof -
  have m: "mysql_calls (sv_mysql S) same rows kv answer" using assms(1) by (simp add: db_calls_def)
  show "dsafe same rows kv answer C i (\<lambda>s f. holds i (Some c) s \<and> True)
      (world_call (my_query (sv_mysql S) c (select_user_sql (my_escape (sv_mysql S) u)))) s"
    by (rule safe_on_held [OF assms(2), where Pre = "\<lambda>_. True"])
      (use holds_stable in \<open>auto simp: db_inv_def dest: mysql_callsD(3) [OF m] mysql_callsD(4) [OF m]\<close>)
  show "dsafe same rows kv answer C i (\<lambda>s r. holds i (Some c) s \<and> True) (world_call (my_store_result (sv_mysql S) c)) s"
    by (rule safe_on_held [OF assms(2), where Pre = "\<lambda>_. True"])
      (use holds_stable in \<open>auto simp: db_inv_def dest: mysql_callsD(7) [OF m]\<close>)
qed

lemma unique_names_append:
  "unique_names same table \<Longrightarrow> row_for same table u = [] \<Longrightarrow> unique_names same (table @ [(u, q)])"
  by (simp add: unique_names_def sorted_wrt_append row_for_def filter_empty_conv)

lemma safe_insert:
  assumes "db_calls S same rows kv answer" and "holds i (Some c) s"
  shows "dsafe same rows kv answer C i (\<lambda>s f. holds i (Some c) s \<and> (f \<or> (u, q) \<in> set (rows (world s))))
    (world_call (my_query (sv_mysql S) c (insert_user_sql (my_escape (sv_mysql S) u) (my_escape (sv_mysql S) q)))) s"
proof (rule safe_on_held [OF assms(2), where Pre = "\<lambda>_. True"])
  have m: "mysql_calls (sv_mysql S) same rows kv answer" using assms(1) by (simp add: db_calls_def)
  fix s1 r w
  assume "db_inv same rows kv C s1"
    and q: "my_query (sv_mysql S) c (insert_user_sql (my_escape (sv_mysql S) u) (my_escape (sv_mysql S) q)) (world s1) = (r, w)"
  with mysql_callsD(6) [OF m q] mysql_callsD(3) [OF m q] unique_names_append [of same "rows (world s1)" u q]
  show "(\<exists>rs. rows w = rows (world s1) @ rs) \<and> unique_names same (rows w) \<and> kv w \<subseteq>\<^sub>m kv (world s1)
      \<and> (\<forall>d. d \<noteq> c \<longrightarrow> answer w d = answer (world s1) d) \<and> (r \<or> (u, q) \<in> set (rows (world (s1\<lparr>world := w\<rparr>))))"
    by (auto simp: db_inv_def)
next
  show "dstable rows answer i (\<lambda>s. holds i (Some c) s \<and> (f \<or> (u, q) \<in> set (rows (world s))))" for f
    by (rule holds_and_stable) auto
qed (use holds_stable in simp_all)

text \<open>Acquiring and giving back.\<close>

lemma safe_acquire:
  assumes "holds i None s"
  shows "dsafe same rows kv answer C i (\<lambda>s conn. holds i conn s) (mysql_acquire i) s"
  unfolding mysql_acquire_def
proof (rule dbt.safe_action [OF assms holds_stable])
  fix s1 conn s2
  assume h: "holds i None s1" and J: "db_inv same rows kv C s1"
    and a: "(case mysql_getConn (mysqlPool s1) of (conn, p) \<Rightarrow> Some (conn, s1\<lparr>mysqlPool := p,
        holder := case conn of None \<Rightarrow> holder s1 | Some c \<Rightarrow> (holder s1)(c \<mapsto> i)\<rparr>)) = Some (conn, s2)"
  show "db_inv same rows kv C s2 \<and> (\<forall>j. j \<noteq> i \<longrightarrow> db_rely rows answer j s1 s2) \<and> holds i conn s2"
  proof (cases "mysql_idle (mysqlPool s1)")
    case Nil
    with a h J show ?thesis by (auto simp: mysql_getConn_def dbt.rely_refl)
  next
    case (Cons c rest)
    with a have s2: "conn = Some c" "s2 = s1\<lparr>mysqlPool := mysqlPool s1\<lparr>mysql_idle := rest\<rparr>, holder := (holder s1)(c \<mapsto> i)\<rparr>"
      by (auto simp: mysql_getConn_def)
    with J Cons have "holder s1 c = None" by (auto simp: db_inv_def domIff)
    with J h Cons s2 show ?thesis by (auto simp: db_inv_def db_rely_def holds_def)
  qed
qed (rule holds_stable)

lemma safe_giveback:
  assumes "holds i conn s" and "G (rows (world s))" and "\<And>table rs. G table \<Longrightarrow> G (table @ rs)"
  shows "dsafe same rows kv answer C i (\<lambda>s r. holds i None s \<and> G (rows (world s))) (mysql_giveback conn) s"
  unfolding mysql_giveback_def
proof (rule dbt.safe_action [where P = "\<lambda>s. holds i conn s \<and> G (rows (world s))"])
  fix s1 r s2
  assume h: "holds i conn s1 \<and> G (rows (world s1))" and J: "db_inv same rows kv C s1"
    and a: "Some ((), s1\<lparr>mysqlPool := mysql_releaseConn conn (mysqlPool s1),
        holder := case conn of None \<Rightarrow> holder s1 | Some c \<Rightarrow> (holder s1)(c := None)\<rparr>) = Some (r, s2)"
  show "db_inv same rows kv C s2 \<and> (\<forall>j. j \<noteq> i \<longrightarrow> db_rely rows answer j s1 s2) \<and> holds i None s2 \<and> G (rows (world s2))"
  proof (cases conn)
    case None
    with a h J show ?thesis by (auto simp: mysql_releaseConn_def dbt.rely_refl)
  next
    case (Some c)
    then have c: "holder s1 c = Some i" using h by (simp add: holds_def)
    have s2: "s2 = s1\<lparr>mysqlPool := mysqlPool s1\<lparr>mysql_idle := mysql_idle (mysqlPool s1) @ [c]\<rparr>, holder := (holder s1)(c := None)\<rparr>"
      using a Some by (simp add: mysql_releaseConn_def)
    have "\<forall>j. j \<noteq> i \<longrightarrow> db_rely rows answer j s1 s2" using c s2 by (auto simp: db_rely_def)
    moreover have "db_inv same rows kv C s2" using c s2 J by (auto simp: db_inv_def)
    ultimately show ?thesis using h s2 Some by (auto simp: holds_def)
  qed
qed (use assms in \<open>auto intro: holds_and_stable\<close>)

lemma safe_guard:
  assumes "holds i None s"
    and body: "\<And>conn s1. holds i conn s1 \<Longrightarrow>
      dsafe same rows kv answer C i (\<lambda>s r. holds i conn s \<and> G (rows (world s)) r) (body conn) s1"
    and G: "\<And>table rs r. G table r \<Longrightarrow> G (table @ rs) r"
  shows "dsafe same rows kv answer C i (\<lambda>s r. holds i None s \<and> G (rows (world s)) r) (mysql_guard_proc i body) s"
  unfolding mysql_guard_proc_def
proof (rule dbt.safe_and_then [OF safe_acquire [OF assms(1)]], rule dbt.safe_and_then [OF body], assumption)
  fix conn r s1
  assume "holds i conn s1 \<and> G (rows (world s1)) r"
  then have "dsafe same rows kv answer C i (\<lambda>s _. holds i None s \<and> G (rows (world s)) r) (mysql_giveback conn) s1"
    using safe_giveback [of i conn s1 "\<lambda>table. G table r" rows] G by blast
  then show "dsafe same rows kv answer C i (\<lambda>s r. holds i None s \<and> G (rows (world s)) r)
      (and_then (mysql_giveback conn) (\<lambda>_. Done r)) s1"
    by (rule dbt.safe_and_then)
      (rule dbt.safe_DoneI [OF _ holds_and_stable [where G = "\<lambda>table. G table r"]]; use G in blast)
qed

subsection \<open>Tasks\<close>

text \<open>What a finished task means, for the users table at any later time.\<close>

fun task_post :: "(bytes \<Rightarrow> bytes \<Rightarrow> bool) \<Rightarrow> db_task \<Rightarrow> (bytes \<times> bytes) list \<Rightarrow> db_result \<Rightarrow> bool" where
  "task_post same (RegisterTask fd ka u q) table r \<longleftrightarrow> (\<forall>b. r = Answered 200 b \<longrightarrow> (u, q) \<in> set table)"
| "task_post same (LoginTask fd ka u q) table r \<longleftrightarrow> (\<forall>b. r = Answered 200 b \<longrightarrow> knows_password same table u q)"
| "task_post same (ProfileTask fd ka tok) table r \<longleftrightarrow>
     (\<forall>b. r = Answered 200 b \<longrightarrow> (\<exists>v q. b = json_username v \<and> knows_password same table v q))"
| "task_post same (LogoutTask fd ka tok) table r \<longleftrightarrow> True"

definition task_done :: "(bytes \<Rightarrow> bytes \<Rightarrow> bool) \<Rightarrow> db_task \<Rightarrow> (bytes \<times> bytes) list \<Rightarrow> db_result \<Rightarrow> bool" where
  "task_done same t table r \<longleftrightarrow> task_post same t table r \<and> (task_fits t \<longrightarrow> r \<noteq> Overrun)"

lemma task_done_append: "task_done same t table r \<Longrightarrow> task_done same t (table @ rs) r"
  by (cases t; simp add: task_done_def; use knows_password_append in metis)

lemma safe_answer:
  assumes "db_calls S same rows kv answer" and "holds i conn s" and "G (rows (world s)) (Answered st b)"
    and "\<And>table rs r. G table r \<Longrightarrow> G (table @ rs) r"
  shows "dsafe same rows kv answer C i (\<lambda>s r. holds i conn s \<and> G (rows (world s)) r) (reply_proc S fd ka st b) s"
proof -
  have "dstable rows answer i (\<lambda>s. holds i conn s \<and> G (rows (world s)) (Answered st b))"
    by (rule holds_and_stable) (rule assms(4))
  from safe_reply [OF _ _ this, of S kv s same C st b fd ka] assms(1-3)
  show ?thesis unfolding db_calls_def by (auto elim: dbt.safe_conseq)
qed

lemma safe_task_answer:
  assumes "db_calls S same rows kv answer" and "holds i conn s" and "task_done same t (rows (world s)) (Answered st b)"
  shows "dsafe same rows kv answer C i (\<lambda>s r. holds i conn s \<and> task_done same t (rows (world s)) r) (reply_proc S fd ka st b) s"
  by (rule safe_answer [where G = "task_done same t", OF assms]) (rule task_done_append)

lemma safe_if: "(b \<Longrightarrow> safe J rely i post p s) \<Longrightarrow> (\<not> b \<Longrightarrow> safe J rely i post p' s) \<Longrightarrow> safe J rely i post (if b then p else p') s"
  by simp

lemma safe_option:
  "(x = None \<Longrightarrow> safe J rely i post p s) \<Longrightarrow> (\<And>y. x = Some y \<Longrightarrow> safe J rely i post (f y) s) \<Longrightarrow>
   safe J rely i post (case x of None \<Rightarrow> p | Some y \<Rightarrow> f y) s"
  by (cases x) simp_all

lemma escaped:
  assumes "mysql_calls M same rows kv answer"
  shows "escape_into n (my_escape M s) = Some e \<Longrightarrow> e = my_escape M s \<and> CHR 0x00 \<notin> set e"
    and "2 * length s + 1 \<le> n \<Longrightarrow> escape_into n (my_escape M s) \<noteq> None"
  using mysql_callsD(1,2) [OF assms, of s] by (auto simp: escape_into_def c_str_id split: if_splits)

lemma safe_register_body:
  assumes "db_calls S same rows kv answer" and "holds i conn s"
  shows "dsafe same rows kv answer C i (\<lambda>s r. holds i conn s \<and> task_done same (RegisterTask fd ka u q) (rows (world s)) r)
    (register_body_proc S fd ka u q conn) s"
proof (cases conn)
  case None
  with safe_task_answer [OF assms(1,2), of "RegisterTask fd ka u q" 503] show ?thesis
    by (simp add: register_body_proc_def task_done_def)
next
  case (Some c)
  let ?t = "RegisterTask fd ka u q" and ?m = "sv_mysql S"
  have m: "mysql_calls ?m same rows kv answer" using assms(1) by (simp add: db_calls_def)
  note ans = safe_task_answer [OF assms(1), of i "Some c" _ ?t]
  show ?thesis
  proof (cases "escape_into 129 (my_escape ?m u) = None \<or> escape_into 257 (my_escape ?m q) = None")
    case True
    then have "\<not> task_fits ?t"
      using escaped(2) [OF m, of u 129] escaped(2) [OF m, of q 257] by (auto simp: kMaxUsernameLen_def kMaxPasswordLen_def)
    then have "dsafe same rows kv answer C i (\<lambda>s r. holds i conn s \<and> task_done same ?t (rows (world s)) r) (Done Overrun) s"
      using assms(2) by (intro dbt.safe_DoneI [OF _ holds_stable]) (auto simp: task_done_def)
    with True Some show ?thesis by (auto simp: register_body_proc_def split: option.splits)
  next
    case False
    then obtain e1 e2 where e: "escape_into 129 (my_escape ?m u) = Some e1" "escape_into 257 (my_escape ?m q) = Some e2" by auto
    have e': "e1 = my_escape ?m u" "e2 = my_escape ?m q" "CHR 0x00 \<notin> set e1" "CHR 0x00 \<notin> set e2"
      using escaped(1) [OF m e(1)] escaped(1) [OF m e(2)] by blast+
    have ins: "dsafe same rows kv answer C i (\<lambda>s r. holds i (Some c) s \<and> task_done same ?t (rows (world s)) r)
       (and_then (world_call (my_query ?m c (insert_user_sql e1 e2))) (\<lambda>failed.
          if failed then reply_proc S fd ka 500 (json_error ''database error'')
          else reply_proc S fd ka 200 (json_message ''register success''))) s1" if "holds i (Some c) s1" for s1
      by (rule dbt.safe_and_then [OF safe_insert [OF assms(1) that, of _ u q, folded e'(1,2)]], rule safe_if; rule ans)
        (auto simp: task_done_def)
    have fetch: "dsafe same rows kv answer C i (\<lambda>s r. holds i (Some c) s \<and> task_done same ?t (rows (world s)) r)
       (and_then (world_call (my_store_result ?m c)) (\<lambda>res.
          if res \<noteq> None \<and> the res \<noteq> [] then reply_proc S fd ka 409 (json_error ''user already exists'')
          else and_then (world_call (my_query ?m c (insert_user_sql e1 e2))) (\<lambda>failed.
            if failed then reply_proc S fd ka 500 (json_error ''database error'')
            else reply_proc S fd ka 200 (json_message ''register success'')))) s1" if "holds i (Some c) s1" for s1
      by (rule dbt.safe_and_then [OF safe_lookup_user(2) [OF assms(1) that]], rule safe_if; (rule ans | rule ins))
        (auto simp: task_done_def)
    have "holds i (Some c) s" using assms(2) Some by simp
    note sel = safe_lookup_user(1) [OF assms(1) this, of _ u, folded e'(1)]
    have cs: "c_str (select_user_sql e1) = select_user_sql e1" "c_str (insert_user_sql e1 e2) = insert_user_sql e1 e2"
      using e'(3,4) by simp_all
    show ?thesis unfolding register_body_proc_def Some e option.case prod.case cs
      by (rule dbt.safe_and_then [OF sel], rule safe_if; (rule ans | rule fetch); simp add: task_done_def)
  qed
qed

text \<open>What the MySQL part of a login hands on: an answer, or the password of the user's row.\<close>

definition login_found ::
    "(bytes \<Rightarrow> bytes \<Rightarrow> bool) \<Rightarrow> db_task \<Rightarrow> bytes \<Rightarrow> (bytes \<times> bytes) list \<Rightarrow> db_result + bytes option \<Rightarrow> bool" where
  "login_found same t u table res \<longleftrightarrow>
     (case res of Inl r \<Rightarrow> task_done same t table r | Inr found \<Rightarrow> \<forall>p. found = Some p \<longrightarrow> knows_password same table u p)"

lemma login_found_simps [simp]:
  "login_found same t u table (Inl r) = task_done same t table r"
  "login_found same t u table (Inr found) = (\<forall>p. found = Some p \<longrightarrow> knows_password same table u p)"
  by (simp_all add: login_found_def)

lemma login_found_append: "login_found same t u table res \<Longrightarrow> login_found same t u (table @ rs) res"
  by (auto simp: login_found_def intro: knows_password_append task_done_append split: sum.splits)

lemma safe_login_found:
  assumes "holds i conn s" and "login_found same t u (rows (world s)) res"
  shows "dsafe same rows kv answer C i (\<lambda>s r. holds i conn s \<and> login_found same t u (rows (world s)) r) (Done res) s"
  by (rule dbt.safe_DoneI [where P = "\<lambda>s. holds i conn s \<and> login_found same t u (rows (world s)) res"])
    (use assms in \<open>auto intro: holds_and_stable login_found_append\<close>)

lemma safe_login_mysql:
  assumes "db_calls S same rows kv answer" and "holds i conn s" and "CHR 0x00 \<notin> set u"
  shows "dsafe same rows kv answer C i (\<lambda>s r. holds i conn s \<and> login_found same (LoginTask fd ka u q) u (rows (world s)) r)
    (login_mysql_proc S fd ka u conn) s"
proof -
  let ?t = "LoginTask fd ka u q" and ?m = "sv_mysql S"
  let ?post = "\<lambda>s r. holds i conn s \<and> login_found same ?t u (rows (world s)) r"
  have m: "mysql_calls ?m same rows kv answer" using assms(1) by (simp add: db_calls_def)
  have ans: "dsafe same rows kv answer C i ?post (and_then (reply_proc S fd ka st b) (\<lambda>r. Done (Inl r))) s1"
    if "holds i conn s1" "st \<noteq> 200" for s1 st b
    by (rule dbt.safe_and_then [OF safe_task_answer [OF assms(1) that(1), of ?t]])
      (use that(2) in \<open>auto simp: task_done_def intro!: safe_login_found simp del: safe.simps\<close>)
  show ?thesis
  proof (cases conn)
    case None
    with ans [OF assms(2), of 503] show ?thesis by (simp add: login_mysql_proc_def del: safe.simps)
  next
    case (Some c)
    show ?thesis
    proof (cases "escape_into 129 (my_escape ?m u)")
      case None
      then have "\<not> task_fits ?t" using escaped(2) [OF m, of u 129] by (auto simp: kMaxUsernameLen_def)
      with None Some safe_login_found [OF assms(2), of same ?t u rows "Inl Overrun"] show ?thesis
        by (simp add: login_mysql_proc_def task_done_def del: safe.simps)
    next
      case e: (Some e)
      have e': "e = my_escape ?m u" "c_str (select_password_sql e) = select_password_sql e"
        using escaped(1) [OF m e] by auto
      have cache: "dsafe same rows kv answer C i ?post
         (and_then (redis_setex_proc (sv_redis S) (user_key u) kUserCacheTtlSec (c_str row)) (\<lambda>_. Done (Inr (Some (c_str row))))) s1"
        if "holds i conn s1" "knows_password same (rows (world s1)) u (c_str row)" for s1 row
        by (rule dbt.safe_and_then [OF safe_setex
              [where P = "\<lambda>s. holds i conn s \<and> knows_password same (rows (world s)) u (c_str row)", OF assms(1)]])
          (use that assms(3) in \<open>auto simp: storable_def c_str_id
              intro!: safe_login_found intro: holds_and_stable knows_password_append simp del: safe.simps\<close>)
      have fetch: "dsafe same rows kv answer C i ?post
         (and_then (world_call (my_store_result ?m c)) (\<lambda>res.
            case res of
              Some (row # _) \<Rightarrow> and_then (redis_setex_proc (sv_redis S) (user_key u) kUserCacheTtlSec (c_str row)) (\<lambda>_. Done (Inr (Some (c_str row))))
            | _ \<Rightarrow> Done (Inr None))) s1"
        if "holds i (Some c) s1" "found_passwords same (rows (world s1)) u (answer (world s1) c)" for s1
        by (rule dbt.safe_and_then [OF safe_fetch [OF assms(1) that]])
          (auto simp: Some found_passwords_def intro!: safe_login_found cache [unfolded Some]
            simp del: safe.simps split: option.splits list.splits)
      have "holds i (Some c) s" using assms(2) Some by simp
      note sel = safe_select_password [OF assms(1) this, of C u, folded e'(1)]
      show ?thesis unfolding login_mysql_proc_def Some option.case e e'(2)
        by (rule dbt.safe_and_then [OF sel], rule safe_if; (rule ans [unfolded Some] | rule fetch [unfolded Some]); simp)
    qed
  qed
qed

lemma safe_login_finish:
  assumes "db_calls S same rows kv answer" and "holds i None s" and "CHR 0x00 \<notin> set u"
    and "\<forall>p. found = Some p \<longrightarrow> knows_password same (rows (world s)) u p"
  shows "dsafe same rows kv answer C i (\<lambda>s r. holds i None s \<and> task_done same (LoginTask fd ka u q) (rows (world s)) r)
    (login_finish_proc S fd ka u q found) s"
proof (cases "found = Some q")
  case False
  with safe_task_answer [OF assms(1,2), of "LoginTask fd ka u q" 401] show ?thesis
    by (auto simp: login_finish_proc_def task_done_def simp del: safe.simps split: option.splits)
next
  case True
  let ?P = "\<lambda>s. holds i None s \<and> knows_password same (rows (world s)) u q"
  let ?post = "\<lambda>s r. holds i None s \<and> task_done same (LoginTask fd ka u q) (rows (world s)) r"
  have st: "dstable rows answer i ?P" by (rule holds_and_stable) (rule knows_password_append)
  have quiet: "quiet_calls S rows kv answer" using assms(1) by (simp add: db_calls_def)
  have ans: "dsafe same rows kv answer C i ?post (reply_proc S fd ka code b) s1" if "?P s1" for s1 code b
    by (rule safe_task_answer [OF assms(1)]) (use that in \<open>auto simp: task_done_def\<close>)
  have thrown: "dsafe same rows kv answer C i ?post (Done Thrown) s1" if "?P s1" for s1
    by (rule dbt.safe_DoneI [OF that st]) (simp add: task_done_def)
  have store: "dsafe same rows kv answer C i ?post
     (and_then (redis_setex_proc (sv_redis S) (session_key tok) kSessionTtlSec u) (\<lambda>ok.
        if \<not> ok then reply_proc S fd ka 503 (json_error ''service unavailable'') else reply_proc S fd ka 200 (json_token tok))) s1"
    if "?P s1" for s1 tok
    by (rule dbt.safe_and_then [OF safe_setex [OF assms(1) that st]], use that assms(3) in \<open>auto simp: storable_def c_str_id\<close>)
      (rule ans, simp)+
  have "?P s" using assms(2,4) True by simp
  note draw = safe_draw [OF quiet st this]
  have "dsafe same rows kv answer C i ?post (and_then (draw_token_proc S kTokenLen []) (\<lambda>token.
     (case token of
        None \<Rightarrow> Done Thrown
      | Some tok \<Rightarrow> and_then (redis_setex_proc (sv_redis S) (session_key tok) kSessionTtlSec u) (\<lambda>ok.
          if \<not> ok then reply_proc S fd ka 503 (json_error ''service unavailable'') else reply_proc S fd ka 200 (json_token tok))))) s"
    by (rule dbt.safe_and_then [OF draw], rule safe_option; (rule thrown | rule store))
  with True show ?thesis by (simp add: login_finish_proc_def del: safe.simps)
qed

lemma safe_work:
  assumes "db_calls S same rows kv answer" and "holds i None s" and "nul_free_user t"
  shows "dsafe same rows kv answer C i (\<lambda>s r. holds i None s \<and> task_done same t (rows (world s)) r) (work_proc S i t) s"
proof (cases t)
  case (RegisterTask fd ka u q)
  then show ?thesis
    using safe_guard [OF assms(2), where G = "task_done same t" and body = "register_body_proc S fd ka u q"]
      safe_register_body [OF assms(1)] task_done_append by auto
next
  case (LoginTask fd ka u q)
  then have u: "CHR 0x00 \<notin> set u" using assms(3) by simp
  let ?post = "\<lambda>s r. holds i None s \<and> task_done same t (rows (world s)) r"
  note finish = safe_login_finish [OF assms(1) _ u, of i _ _ C fd ka q, folded LoginTask]
  have mysql: "dsafe same rows kv answer C i (\<lambda>s res. holds i None s \<and> login_found same t u (rows (world s)) res)
     (mysql_guard_proc i (login_mysql_proc S fd ka u)) s1" if "holds i None s1" for s1
    by (rule safe_guard [OF that, where G = "login_found same t u"])
      (auto simp: LoginTask intro: safe_login_mysql [OF assms(1) _ u] login_found_append simp del: safe.simps)
  have get: "dsafe same rows kv answer C i (\<lambda>s r. holds i None s \<and> (snd r = RedisOk \<longrightarrow> knows_password same (rows (world s)) u (fst r)))
     (redis_get_proc (sv_redis S) (user_key u)) s"
    by (rule safe_get [OF assms(1,2) holds_stable, where G = "\<lambda>table v. knows_password same table u v"])
      (use u in \<open>auto simp: cache_coherent_def c_str_id intro: knows_password_append\<close>)
  have miss: "dsafe same rows kv answer C i ?post
     (and_then (mysql_guard_proc i (login_mysql_proc S fd ka u)) (\<lambda>res.
        case res of Inl r \<Rightarrow> Done r | Inr found \<Rightarrow> login_finish_proc S fd ka u q found)) s1" if "holds i None s1" for s1
  proof (rule dbt.safe_and_then [OF mysql [OF that]])
    fix res s2
    assume f: "holds i None s2 \<and> login_found same t u (rows (world s2)) res"
    show "dsafe same rows kv answer C i ?post (case res of Inl r \<Rightarrow> Done r | Inr found \<Rightarrow> login_finish_proc S fd ka u q found) s2"
    proof (cases res)
      case (Inl r)
      with f show ?thesis unfolding Inl sum.case
        by (intro dbt.safe_DoneI [where P = "\<lambda>s. holds i None s \<and> task_done same t (rows (world s)) r"])
          (auto intro: holds_and_stable task_done_append)
    next
      case (Inr found)
      with f finish [of s2 found] show ?thesis by simp
    qed
  qed
  show ?thesis unfolding arg_cong [OF LoginTask, of "work_proc S i"] work_proc.simps
  proof (rule dbt.safe_and_then [OF get], unfold split_beta, rule safe_if)
    fix r s1
    assume a: "holds i None s1 \<and> (snd r = RedisOk \<longrightarrow> knows_password same (rows (world s1)) u (fst r))"
    then show "dsafe same rows kv answer C i ?post
       (and_then (mysql_guard_proc i (login_mysql_proc S fd ka u)) (\<lambda>res.
          case res of Inl r \<Rightarrow> Done r | Inr found \<Rightarrow> login_finish_proc S fd ka u q found)) s1"
      by (intro miss) simp
    assume "snd r = RedisOk \<and> fst r \<noteq> []"
    with a show "dsafe same rows kv answer C i ?post (login_finish_proc S fd ka u q (Some (fst r))) s1"
      by (intro finish) simp_all
  qed
next
  case (ProfileTask fd ka tok)
  have get: "dsafe same rows kv answer C i (\<lambda>s r. holds i None s \<and> (snd r = RedisOk \<longrightarrow> (\<exists>q. knows_password same (rows (world s)) (fst r) q)))
     (redis_get_proc (sv_redis S) (session_key tok)) s"
    by (rule safe_get [OF assms(1,2) holds_stable, where G = "\<lambda>table v. \<exists>q. knows_password same table v q"])
      (auto simp: sessions_named_def intro: knows_password_append)
  note ans = safe_task_answer [OF assms(1), of i None _ t, unfolded ProfileTask]
  show ?thesis unfolding ProfileTask work_proc.simps
    by (rule dbt.safe_and_then [OF get], unfold split_beta, intro safe_if ans; use redis_status.exhaust in \<open>auto simp: task_done_def\<close>)
next
  case (LogoutTask fd ka tok)
  note ans = safe_task_answer [OF assms(1), of i None _ t, unfolded LogoutTask]
  show ?thesis unfolding LogoutTask work_proc.simps
    by (rule dbt.safe_and_then [OF safe_del [OF assms(1,2) holds_stable]], intro safe_if ans; simp add: task_done_def)
qed

lemma safe_task:
  assumes "db_calls S same rows kv answer" and "holds i None s" and "nul_free_user t"
  shows "dsafe same rows kv answer C i (\<lambda>s r. holds i None s \<and> task_done same t (rows (world s)) r \<and> r \<noteq> Thrown) (task_proc S i t) s"
  unfolding task_proc_def
proof (rule dbt.safe_and_then [OF safe_work [OF assms]])
  fix r s1
  assume a: "holds i None s1 \<and> task_done same t (rows (world s1)) r"
  have done500: "task_done same t table (Answered 500 b)" for table b by (cases t) (simp_all add: task_done_def)
  have st: "dstable rows answer i (\<lambda>s. holds i None s \<and> task_done same t (rows (world s)) r)"
    by (rule holds_and_stable) (rule task_done_append)
  show "dsafe same rows kv answer C i (\<lambda>s r. holds i None s \<and> task_done same t (rows (world s)) r \<and> r \<noteq> Thrown)
     (case r of Thrown \<Rightarrow> reply_proc S (task_fd t) (task_ka t) 500 (json_error ''internal error'') | _ \<Rightarrow> Done r) s1"
  proof (cases "r = Thrown")
    case True
    have "dsafe same rows kv answer C i (\<lambda>s r. holds i None s \<and> r = Answered 500 (json_error ''internal error''))
       (reply_proc S (task_fd t) (task_ka t) 500 (json_error ''internal error'')) s1"
      by (rule safe_reply) (use assms(1) a holds_stable in \<open>auto simp: db_calls_def\<close>)
    then have "dsafe same rows kv answer C i (\<lambda>s r. holds i None s \<and> task_done same t (rows (world s)) r \<and> r \<noteq> Thrown)
       (reply_proc S (task_fd t) (task_ka t) 500 (json_error ''internal error'')) s1"
      by (rule dbt.safe_conseq) (simp add: done500)
    with True show ?thesis by simp
  next
    case False
    then have "dsafe same rows kv answer C i (\<lambda>s r. holds i None s \<and> task_done same t (rows (world s)) r \<and> r \<noteq> Thrown) (Done r) s1"
      by (intro dbt.safe_DoneI [OF a st]) simp
    with False show ?thesis by (cases r) (simp_all del: safe.simps)
  qed
qed

subsection \<open>All threads\<close>

definition db_env ::
    "('w \<Rightarrow> (bytes \<times> bytes) list) \<Rightarrow> ('w \<Rightarrow> bytes \<Rightarrow> bytes option) \<Rightarrow> ('w \<Rightarrow> nat \<Rightarrow> bytes list) \<Rightarrow> 'w db_shared \<Rightarrow> 'w db_shared \<Rightarrow> bool" where
  "db_env rows kv answer s s' \<longleftrightarrow> (\<exists>w. s' = s\<lparr>world := w\<rparr> \<and> settled rows kv answer (world s) w)"

interpretation dbts: safe_threads
    "\<lambda>s. db_calls S same rows kv answer \<and> db_inv same rows kv C s" "db_rely rows answer"
    nul_free_user "task_proc S" "db_env rows kv answer" "\<lambda>i. holds i None"
    "\<lambda>i t s r. holds i None s \<and> task_done same t (rows (world s)) r \<and> r \<noteq> Thrown"
  for S :: "'w services" and same rows kv answer C
proof (unfold_locales, goal_cases)
  case (1 s i j)
  then show ?case by (intro safe_premise safe_task) simp_all
next
  case (4 s s')
  then show ?case using settled_ok [of same rows kv C s answer] by (auto simp: db_env_def)
qed (auto intro: dbt.rely_refl dbt.rely_trans holds_stable)

definition db_threads_start ::
    "(bytes \<Rightarrow> bytes \<Rightarrow> bool) \<Rightarrow> ('w \<Rightarrow> (bytes \<times> bytes) list) \<Rightarrow> ('w \<Rightarrow> bytes \<Rightarrow> bytes option) \<Rightarrow> nat set
     \<Rightarrow> 'w db_shared \<times> (nat \<Rightarrow> (db_task \<times> ('w, db_result) db_proc) option) \<Rightarrow> bool" where
  "db_threads_start same rows kv C st \<longleftrightarrow>
     (case st of (s, ts) \<Rightarrow> ts = Map.empty \<and> holder s = Map.empty \<and> db_inv same rows kv C s)"

abbreviation db_threads_step ::
    "'w services \<Rightarrow> ('w \<Rightarrow> (bytes \<times> bytes) list) \<Rightarrow> ('w \<Rightarrow> bytes \<Rightarrow> bytes option) \<Rightarrow> ('w \<Rightarrow> nat \<Rightarrow> bytes list)
     \<Rightarrow> 'w db_shared \<times> (nat \<Rightarrow> (db_task \<times> ('w, db_result) db_proc) option)
     \<Rightarrow> 'w db_shared \<times> (nat \<Rightarrow> (db_task \<times> ('w, db_result) db_proc) option) \<Rightarrow> bool" where
  "db_threads_step S rows kv answer \<equiv> threads_step nul_free_user (task_proc S) (db_env rows kv answer)"

abbreviation db_threads_ok ::
    "'w services \<Rightarrow> (bytes \<Rightarrow> bytes \<Rightarrow> bool) \<Rightarrow> ('w \<Rightarrow> (bytes \<times> bytes) list) \<Rightarrow> ('w \<Rightarrow> bytes \<Rightarrow> bytes option)
     \<Rightarrow> ('w \<Rightarrow> nat \<Rightarrow> bytes list) \<Rightarrow> nat set \<Rightarrow> 'w db_shared \<times> (nat \<Rightarrow> (db_task \<times> ('w, db_result) db_proc) option) \<Rightarrow> bool" where
  "db_threads_ok S same rows kv answer C \<equiv>
     threads_ok (\<lambda>s. db_calls S same rows kv answer \<and> db_inv same rows kv C s) (db_rely rows answer) (\<lambda>i. holds i None)
       (\<lambda>i t s r. holds i None s \<and> task_done same t (rows (world s)) r \<and> r \<noteq> Thrown)"

interpretation dbcs: inductive_invariant "db_threads_start same rows kv C" "db_threads_step S rows kv answer"
    "\<lambda>st. db_calls S same rows kv answer \<longrightarrow> db_threads_ok S same rows kv answer C st"
  for S :: "'w services" and same rows kv answer C
proof (unfold_locales, goal_cases)
  case (1 st)
  then show ?case by (auto simp: db_threads_start_def threads_ok_def holds_def)
next
  case (2 st st')
  then show ?case using dbts.step_ok by blast
qed

subsection \<open>Properties\<close>

text \<open>
  C11: the database threads are sound under any interleaving. The tasks that are started have
  usernames without a NUL byte. Whatever the threads of the pool, the peers and the expiry of
  keys do between two actions of a task: a login that finished with 200 presented the
  password in the row of its user, a registration that finished with 200 has its row in the
  table, a profile answer names a registered user, no exception leaves the task, and a task
  whose strings fit the escape buffers (the handlers submit no other) does not overrun them.
  With a NUL byte in a username the first part fails, see \<open>nul_username_takes_over_account\<close>.
\<close>

theorem concurrent_tasks_sound:
  assumes "db_calls S same rows kv answer"
    and "reach (db_threads_start same rows kv C) (db_threads_step S rows kv answer) (s, ts)"
    and "ts i = Some (t, Done r)"
  shows "task_post same t (rows (world s)) r \<and> (task_fits t \<longrightarrow> r \<noteq> Overrun) \<and> r \<noteq> Thrown"
proof -
  have "db_threads_ok S same rows kv answer C (s, ts)" using dbcs.reach_inv [OF assms(2)] assms(1) by blast
  from dbts.finished [OF this assms(3)] show ?thesis by (simp add: task_done_def)
qed

lemma toy_calls: "db_calls toy_services (=) toy_rows toy_kv toy_result"
proof -
  have "toy_command cmd w = (r, w') \<Longrightarrow> toy_rows w' = toy_rows w \<and> toy_result w' = toy_result w" for cmd w r w'
    by (cases "(cmd, w)" rule: toy_command.cases) (auto split: if_splits)
  then have "quiet_calls toy_services toy_rows toy_kv toy_result"
    by (auto simp: quiet_calls_def settled_def toy_services_def toy_kernel_def toy_redis_def)
  moreover have "mysql_calls toy_mysql (=) toy_rows toy_kv toy_result"
    using sql_esc_props
    by (auto simp: mysql_calls_def toy_mysql_def sql_parse_select_user sql_parse_select_password sql_parse_insert
        split: if_splits statement.splits)
  ultimately show ?thesis using toy_redis_contract by (simp add: db_calls_def toy_services_def)
qed

definition toy_shared :: "toy db_shared" where
  "toy_shared = \<lparr>mysqlPool = mysqlPool toy_start, redisPool = redisPool toy_start, world = world toy_start, holder = Map.empty\<rparr>"

lemma toy_erase: "erase toy_shared = toy_start"
  by (simp add: toy_shared_def erase_def)

lemma toy_threads_start: "db_threads_start (=) toy_rows toy_kv {1, 2} (toy_shared, Map.empty)"
  by (auto simp: db_threads_start_def db_inv_def toy_shared_def toy_start_def cache_coherent_def sessions_named_def
      unique_names_def)

text \<open>Two threads at work: one registers a user, the other one logs in while the first is under way.\<close>

lemma two_threads:
  assumes "nul_free_user t" and "nul_free_user t'" and "runDbTask toy_services t' toy_start = Some (r, s')"
  shows "\<exists>s. erase s = s' \<and> reach (db_threads_start (=) toy_rows toy_kv {1, 2}) (db_threads_step toy_services toy_rows toy_kv toy_result)
    (s, [0 \<mapsto> (t, task_proc toy_services 0 t), 1 \<mapsto> (t', Done r)])"
proof -
  let ?reach = "reach (db_threads_start (=) toy_rows toy_kv {1, 2}) (db_threads_step toy_services toy_rows toy_kv toy_result)"
  have "?reach (toy_shared, [0 \<mapsto> (t, task_proc toy_services 0 t)])"
    by (rule reach_starts [OF reach_init [of "db_threads_start (=) toy_rows toy_kv {1, 2}", OF toy_threads_start]])
      (simp_all add: assms(1))
  then have b: "?reach (toy_shared, [0 \<mapsto> (t, task_proc toy_services 0 t), 1 \<mapsto> (t', task_proc toy_services 1 t')])"
    by (rule reach_starts) (simp_all add: assms(2))
  from run_task_proc [of toy_services 1 t' toy_shared] assms(3) toy_erase
  obtain s where s: "run (task_proc toy_services 1 t') toy_shared = Some (r, s)" "erase s = s'"
    by (cases "run (task_proc toy_services 1 t') toy_shared") auto
  from run_alone [OF s(1) b, of 1 t'] s(2) show ?thesis by (auto simp: fun_upd_twist)
qed

theorem concurrent_tasks_sound_witness:
  "\<exists>s b. reach (db_threads_start (=) toy_rows toy_kv {1, 2}) (db_threads_step toy_services toy_rows toy_kv toy_result)
      (s, [0 \<mapsto> (RegisterTask 4 True ''bob'' ''pw'', task_proc toy_services 0 (RegisterTask 4 True ''bob'' ''pw'')),
           1 \<mapsto> (LoginTask 5 True ''admin'' ''secret'', Done (Answered 200 b))])
    \<and> knows_password (=) (toy_rows (world s)) ''admin'' ''secret''"
proof -
  obtain tok s' where "runDbTask toy_services (LoginTask 5 True ''admin'' ''secret'') toy_start = Some (Answered 200 (json_token tok), s')"
    using toy_login_runs by blast
  from two_threads [OF _ _ this, of "RegisterTask 4 True ''bob'' ''pw''"] obtain s where
    r: "reach (db_threads_start (=) toy_rows toy_kv {1, 2}) (db_threads_step toy_services toy_rows toy_kv toy_result)
      (s, [0 \<mapsto> (RegisterTask 4 True ''bob'' ''pw'', task_proc toy_services 0 (RegisterTask 4 True ''bob'' ''pw'')),
           1 \<mapsto> (LoginTask 5 True ''admin'' ''secret'', Done (Answered 200 (json_token tok)))])" by auto
  with concurrent_tasks_sound [OF toy_calls r, of 1] show ?thesis by auto
qed

text \<open>
  C15: MySQL connections are exclusive, task by task. Under any interleaving of tasks whose
  usernames hold no NUL byte, each of the
  connections that the pool was filled with is either idle in the pool, once, or held by
  one thread, which is in the middle of a task; a finished task holds none, so none leaks.
  Names stay unique, every cached password is the user's, and every session names a
  registered user.
\<close>

theorem mysql_connections_owned:
  assumes "db_calls S same rows kv answer"
    and "reach (db_threads_start same rows kv C) (db_threads_step S rows kv answer) (s, ts)"
  shows "distinct (mysql_idle (mysqlPool s)) \<and> set (mysql_idle (mysqlPool s)) \<inter> dom (holder s) = {}
    \<and> set (mysql_idle (mysqlPool s)) \<union> dom (holder s) = C
    \<and> (\<forall>c i. holder s c = Some i \<longrightarrow> (\<exists>t f. ts i = Some (t, Act f)))
    \<and> unique_names same (rows (world s)) \<and> cache_coherent same (rows (world s)) (kv (world s))
    \<and> sessions_named same (rows (world s)) (kv (world s))"
proof -
  have ok: "db_threads_ok S same rows kv answer C (s, ts)" using dbcs.reach_inv [OF assms(2)] assms(1) by blast
  have "\<exists>t f. ts i = Some (t, Act f)" if h: "holder s c = Some i" for c i
  proof (cases "ts i")
    case None
    with threads_okD(2) [OF ok, of i] h show ?thesis by (simp add: holds_def)
  next
    case (Some x)
    obtain t p where x: "x = (t, p)" by fastforce
    show ?thesis
    proof (cases p)
      case (Done r)
      with dbts.finished [OF ok, of i t r] Some x h show ?thesis by (simp add: holds_def)
    next
      case (Act f)
      with Some x show ?thesis by simp
    qed
  qed
  with threads_okD(1) [OF ok] show ?thesis by (simp add: db_inv_def)
qed

theorem mysql_connections_owned_witness:
  "\<exists>s ts r. reach (db_threads_start (=) toy_rows toy_kv {1, 2}) (db_threads_step toy_services toy_rows toy_kv toy_result) (s, ts)
    \<and> ts 1 = Some (LoginTask 5 True ''admin'' ''secret'', Done r)
    \<and> set (mysql_idle (mysqlPool s)) \<union> dom (holder s) = {1, 2} \<and> unique_names (=) (toy_rows (world s))"
proof -
  obtain tok s' where "runDbTask toy_services (LoginTask 5 True ''admin'' ''secret'') toy_start = Some (Answered 200 (json_token tok), s')"
    using toy_login_runs by blast
  from two_threads [OF _ _ this, of "RegisterTask 4 True ''bob'' ''pw''"] obtain s where
    r: "reach (db_threads_start (=) toy_rows toy_kv {1, 2}) (db_threads_step toy_services toy_rows toy_kv toy_result)
      (s, [0 \<mapsto> (RegisterTask 4 True ''bob'' ''pw'', task_proc toy_services 0 (RegisterTask 4 True ''bob'' ''pw'')),
           1 \<mapsto> (LoginTask 5 True ''admin'' ''secret'', Done (Answered 200 (json_token tok)))])" by auto
  with mysql_connections_owned [OF toy_calls r] show ?thesis
    by (intro exI [of _ s] exI [of _ "[0 \<mapsto> (RegisterTask 4 True ''bob'' ''pw'', task_proc toy_services 0 (RegisterTask 4 True ''bob'' ''pw'')),
        1 \<mapsto> (LoginTask 5 True ''admin'' ''secret'', Done (Answered 200 (json_token tok)))]"] exI [of _ "Answered 200 (json_token tok)"]) simp
qed

subsection \<open>Where interleaving shows\<close>

lemma toy_parts [simp]:
  "sv_mysql toy_services = toy_mysql" "sv_kernel toy_services = toy_kernel" "my_escape toy_mysql = sql_esc"
  "sv_redis toy_services = toy_redis"
  by (simp_all add: toy_services_def toy_mysql_def)

lemma toy_escapes:
  "length u \<le> kMaxUsernameLen \<Longrightarrow> escape_into 129 (sql_esc u) = Some (sql_esc u)"
  "length q \<le> kMaxPasswordLen \<Longrightarrow> escape_into 257 (sql_esc q) = Some (sql_esc q)"
  using escape_into_fits [OF toy_mysql_contract] by (simp_all add: kMaxUsernameLen_def kMaxPasswordLen_def)

text \<open>What is left of a registration that has found no row.\<close>

definition insert_proc :: "nat \<Rightarrow> bytes \<Rightarrow> bytes \<Rightarrow> (toy, db_result) db_proc" where
  "insert_proc c u q =
     and_then (world_call (my_query toy_mysql c (insert_user_sql (sql_esc u) (sql_esc q)))) (\<lambda>failed.
     and_then (if failed then reply_proc toy_services 5 True 500 (json_error ''database error'')
               else reply_proc toy_services 5 True 200 (json_message ''register success'')) (\<lambda>r.
     and_then (mysql_giveback (Some c)) (\<lambda>_.
       (case r of
          Thrown \<Rightarrow> reply_proc toy_services (task_fd (RegisterTask 5 True u q)) (task_ka (RegisterTask 5 True u q)) 500 (json_error ''internal error'')
        | _ \<Rightarrow> Done r))))"

lemma registration_checked:
  "\<exists>s. acts 3 (task_proc toy_services 1 (RegisterTask 5 True ''bob'' ''pw2'')) toy_shared = Some (s, insert_proc 1 ''bob'' ''pw2'')
     \<and> ready (erase s) \<and> toy_rows (world s) = toy_rows (world toy_start)"
proof -
  have nul: "CHR 0x00 \<notin> set (sql_esc u)" for u using sql_esc_props by blast
  have "escape_into 129 (sql_esc ''bob'') = Some (sql_esc ''bob'')" "escape_into 257 (sql_esc ''pw2'') = Some (sql_esc ''pw2'')"
    by (simp_all add: toy_escapes kMaxUsernameLen_def kMaxPasswordLen_def)
  then show ?thesis
    by (simp add: task_proc_def mysql_guard_proc_def and_then_assoc mysql_acquire_def acts_atomically numeral_3_eq_3
        toy_shared_def toy_start_def mysql_getConn_def register_body_proc_def world_call_def c_str_sql nul
        toy_mysql_def sql_parse_select_user row_for_def insert_proc_def ready_def erase_def)
qed

lemma insert_refused:
  assumes "row_for (=) (toy_rows (world s)) u \<noteq> []"
  shows "\<exists>s'. run (insert_proc c u q) s = Some (Answered 500 (json_error ''database error''), s')"
proof -
  obtain w' where "reply toy_services 5 True 500 (json_error ''database error'') (world s) = Some (Answered 500 (json_error ''database error''), w')"
    using workingD(3) [OF toy_working] by blast
  with assms show ?thesis
    by (simp add: insert_proc_def run_simps run_world_call run_reply mysql_giveback_def toy_mysql_def sql_parse_insert)
qed

text \<open>
  Two registrations of the same name at the same time: both look the name up before either
  inserts it. The unique column keeps the table sound, but the loser is told of a database
  error (500) and not that the user exists (409).
\<close>

lemma simultaneous_registrations:
  "\<exists>s. reach (db_threads_start (=) toy_rows toy_kv {1, 2}) (db_threads_step toy_services toy_rows toy_kv toy_result)
      (s, [0 \<mapsto> (RegisterTask 4 True ''bob'' ''pw'', Done (Answered 200 (json_message ''register success''))),
           1 \<mapsto> (RegisterTask 5 True ''bob'' ''pw2'', Done (Answered 500 (json_error ''database error'')))])"
proof -
  let ?reach = "reach (db_threads_start (=) toy_rows toy_kv {1, 2}) (db_threads_step toy_services toy_rows toy_kv toy_result)"
  let ?a = "RegisterTask 4 True ''bob'' ''pw''" and ?b = "RegisterTask 5 True ''bob'' ''pw2''"
  have r1: "?reach (toy_shared, [0 \<mapsto> (?a, task_proc toy_services 0 ?a)])"
    by (rule reach_starts [OF reach_init [of "db_threads_start (=) toy_rows toy_kv {1, 2}", OF toy_threads_start]]) simp_all
  have r2: "?reach (toy_shared, [0 \<mapsto> (?a, task_proc toy_services 0 ?a), 1 \<mapsto> (?b, task_proc toy_services 1 ?b)])"
    by (rule reach_starts [OF r1]) simp_all
  obtain s1 where s1: "acts 3 (task_proc toy_services 1 ?b) toy_shared = Some (s1, insert_proc 1 ''bob'' ''pw2'')"
    "ready (erase s1)" "toy_rows (world s1) = toy_rows (world toy_start)"
    using registration_checked by blast
  have r3: "?reach (s1, [0 \<mapsto> (?a, task_proc toy_services 0 ?a), 1 \<mapsto> (?b, insert_proc 1 ''bob'' ''pw2'')])"
    using reach_acts [OF s1(1) r2, of 1 ?b] by (simp add: fun_upd_twist)
  have "row_for (=) (toy_rows (world (erase s1))) ''bob'' = []" using s1(3) by (simp add: row_for_def toy_start_def)
  from working_register [OF toy_working s1(2) _ _ this, of "''pw''" 4 True]
  obtain s2' where s2': "runDbTask toy_services ?a (erase s1) = Some (Answered 200 (json_message ''register success''), s2')"
    "toy_rows (world s2') = toy_rows (world s1) @ [(''bob'', ''pw'')]"
    by (auto simp: kMaxUsernameLen_def kMaxPasswordLen_def)
  from run_task_proc [of toy_services 0 ?a s1] s2'(1)
  obtain s2 where s2: "run (task_proc toy_services 0 ?a) s1 = Some (Answered 200 (json_message ''register success''), s2)" "erase s2 = s2'"
    by (cases "run (task_proc toy_services 0 ?a) s1") auto
  have r4: "?reach (s2, [0 \<mapsto> (?a, Done (Answered 200 (json_message ''register success''))), 1 \<mapsto> (?b, insert_proc 1 ''bob'' ''pw2'')])"
    using run_alone [OF s2(1) r3, of 0 ?a] by (simp add: fun_upd_twist)
  have "row_for (=) (toy_rows (world s2)) ''bob'' \<noteq> []" using s2'(2) s2(2) by (auto simp: row_for_def)
  from insert_refused [OF this] obtain s3 where s3: "run (insert_proc 1 ''bob'' ''pw2'') s2 = Some (Answered 500 (json_error ''database error''), s3)"
    by blast
  have "?reach (s3, [0 \<mapsto> (?a, Done (Answered 200 (json_message ''register success''))),
      1 \<mapsto> (?b, Done (Answered 500 (json_error ''database error'')))])"
    using run_alone [OF s3 r4, of 1 ?b] by (simp add: fun_upd_twist)
  then show ?thesis by blast
qed

text \<open>
  Two pipelined requests of one connection run on two threads, and the answer to the second
  may be sent first: HTTP requires the order of the requests.
\<close>

lemma toy_reply:
  "reply toy_services fd ka st b w = Some (Answered st b,
     w\<lparr>toy_sent := (toy_sent w)(fd := toy_sent w fd @ buildHttpResponse st ''application/json'' b ka)\<rparr>)"
proof -
  let ?d = "buildHttpResponse st ''application/json'' b ka"
  have "?d \<noteq> []" by (simp add: buildHttpResponse_def)
  then have "send_loop toy_kernel fd ?d 0 w = Some (Drained, length ?d, w\<lparr>toy_sent := (toy_sent w)(fd := toy_sent w fd @ ?d)\<rparr>)"
    by (subst send_loop.simps, subst send_loop.simps) (simp add: toy_kernel_def)
  then show ?thesis by (simp add: reply_def sendJson_def sendHttpResponse_def)
qed

lemma toy_runs:
  assumes "redis_idle (redisPool s) \<noteq> []" and "mysql_idle (mysqlPool s) \<noteq> []" and "toy_kv (world s) = Map.empty"
    and "toy_rows (world s) = toy_rows (world toy_start)"
  shows "\<exists>s'. runDbTask toy_services (ProfileTask 5 True ''x'') s = Some (Answered 401 (json_error ''invalid or expired token''), s')
      \<and> toy_sent (world s') 5 = toy_sent (world s) 5 @
          buildHttpResponse 401 ''application/json'' (json_error ''invalid or expired token'') True
      \<and> toy_kv (world s') = Map.empty \<and> toy_rows (world s') = toy_rows (world toy_start)
      \<and> redis_idle (redisPool s') \<noteq> [] \<and> mysql_idle (mysqlPool s') \<noteq> []"
    and "\<exists>s'. runDbTask toy_services (LoginTask 5 True ''eve'' ''pw'') s = Some (Answered 401 (json_error ''user not found''), s')
      \<and> toy_sent (world s') 5 = toy_sent (world s) 5 @
          buildHttpResponse 401 ''application/json'' (json_error ''user not found'') True"
proof -
  obtain c rc d md where p: "redis_idle (redisPool s) = c # rc" "mysql_idle (mysqlPool s) = d # md"
    using assms(1,2) by (meson neq_Nil_conv)
  show "\<exists>s'. runDbTask toy_services (ProfileTask 5 True ''x'') s = Some (Answered 401 (json_error ''invalid or expired token''), s')
      \<and> toy_sent (world s') 5 = toy_sent (world s) 5 @
          buildHttpResponse 401 ''application/json'' (json_error ''invalid or expired token'') True
      \<and> toy_kv (world s') = Map.empty \<and> toy_rows (world s') = toy_rows (world toy_start)
      \<and> redis_idle (redisPool s') \<noteq> [] \<and> mysql_idle (mysqlPool s') \<noteq> []"
    using p assms(3,4)
    by (simp add: runDbTask_def profileWork_def redis_get_def redis_getConn_def redis_releaseConn_def toy_redis_def toy_reply)
  have e: "escape_into 129 (sql_esc ''eve'') = Some (sql_esc ''eve'')" by (simp add: toy_escapes kMaxUsernameLen_def)
  have nul: "CHR 0x00 \<notin> set (sql_esc u)" for u using sql_esc_props by blast
  have q: "my_query toy_mysql d (select_password_sql (sql_esc ''eve'')) w = (False, w\<lparr>toy_result := (toy_result w)(d := [])\<rparr>)"
    "my_store_result toy_mysql d w = (Some (toy_result w d), w)" if "toy_rows w = toy_rows (world toy_start)" for w
    using that by (simp_all add: toy_mysql_def sql_parse_select_password row_for_def toy_start_def)
  show "\<exists>s'. runDbTask toy_services (LoginTask 5 True ''eve'' ''pw'') s = Some (Answered 401 (json_error ''user not found''), s')
      \<and> toy_sent (world s') 5 = toy_sent (world s) 5 @
          buildHttpResponse 401 ''application/json'' (json_error ''user not found'') True"
    using p assms(3,4) e q nul
    by (simp add: runDbTask_def loginWork_def loginMysql_def loginFinish_def mysql_guard_def mysql_getConn_def mysql_releaseConn_def
        redis_get_def redis_getConn_def redis_releaseConn_def toy_redis_def toy_reply)
qed

lemma pipelined_answers_reordered:
  "\<exists>s r r'. reach (db_threads_start (=) toy_rows toy_kv {1, 2}) (db_threads_step toy_services toy_rows toy_kv toy_result)
      (s, [0 \<mapsto> (LoginTask 5 True ''eve'' ''pw'', Done r), 1 \<mapsto> (ProfileTask 5 True ''x'', Done r')])
    \<and> toy_sent (world s) 5 =
        buildHttpResponse 401 ''application/json'' (json_error ''invalid or expired token'') True
        @ buildHttpResponse 401 ''application/json'' (json_error ''user not found'') True"
proof -
  let ?a = "LoginTask 5 True ''eve'' ''pw''" and ?b = "ProfileTask 5 True ''x''"
  have t: "redis_idle (redisPool toy_start) \<noteq> []" "mysql_idle (mysqlPool toy_start) \<noteq> []" "toy_kv (world toy_start) = Map.empty"
    "toy_sent (world toy_start) 5 = []" by (simp_all add: toy_start_def)
  obtain s1' where s1': "runDbTask toy_services ?b toy_start = Some (Answered 401 (json_error ''invalid or expired token''), s1')"
    and m: "toy_sent (world s1') 5 = buildHttpResponse 401 ''application/json'' (json_error ''invalid or expired token'') True"
      "toy_kv (world s1') = Map.empty" "toy_rows (world s1') = toy_rows (world toy_start)"
      "redis_idle (redisPool s1') \<noteq> []" "mysql_idle (mysqlPool s1') \<noteq> []"
    using toy_runs(1) [OF t(1-3) refl] t(4) by auto
  obtain s1 where s1: "erase s1 = s1'" and r1: "reach (db_threads_start (=) toy_rows toy_kv {1, 2}) (db_threads_step toy_services toy_rows toy_kv toy_result)
      (s1, [0 \<mapsto> (?a, task_proc toy_services 0 ?a), 1 \<mapsto> (?b, Done (Answered 401 (json_error ''invalid or expired token'')))])"
    using two_threads [OF _ _ s1', of ?a] by auto
  obtain s2' where s2': "runDbTask toy_services ?a s1' = Some (Answered 401 (json_error ''user not found''), s2')"
    "toy_sent (world s2') 5 = toy_sent (world s1') 5 @ buildHttpResponse 401 ''application/json'' (json_error ''user not found'') True"
    using toy_runs(2) [OF m(4,5,2,3)] by blast
  from run_task_proc [of toy_services 0 ?a s1] s2'(1) s1
  obtain s2 where s2: "run (task_proc toy_services 0 ?a) s1 = Some (Answered 401 (json_error ''user not found''), s2)" "erase s2 = s2'"
    by (cases "run (task_proc toy_services 0 ?a) s1") auto
  from run_alone [OF s2(1) r1, of 0 ?a] have "reach (db_threads_start (=) toy_rows toy_kv {1, 2}) (db_threads_step toy_services toy_rows toy_kv toy_result)
      (s2, [0 \<mapsto> (?a, Done (Answered 401 (json_error ''user not found''))), 1 \<mapsto> (?b, Done (Answered 401 (json_error ''invalid or expired token'')))])"
    by (simp add: fun_upd_twist)
  moreover have "toy_sent (world s2) 5 = toy_sent (world s2') 5" using s2(2) by auto
  ultimately show ?thesis using s2'(2) m(1) by auto
qed

end
