(* ===== verification/SystemWork.thy ===== *)
theory SystemWork
  imports ConnSubmit ServerProperties DbConcurrent
begin

section \<open>The whole server\<close>

text \<open>
  The reactors of \<open>ServerInv\<close> and the database threads of \<open>DbConcurrent\<close> together: one state,
  every interleaving. A reactor callback is one step (it touches nothing that the database
  threads touch but the task queue, under its mutex, and the sockets), a database thread
  takes one action at a time. Each component sees the others as steps of its world, so that
  the invariants of the components hold of the whole; what the handlers check of a request
  is what the database tasks rely on.
\<close>

subsection \<open>What reactor callbacks do to the world\<close>

text \<open>\<open>Q\<close> relates the worlds before and after every system call of a reactor.\<close>

definition reactor_moves :: "'w net \<Rightarrow> 'w kernel \<Rightarrow> ('w \<Rightarrow> 'w \<Rightarrow> bool) \<Rightarrow> bool" where
  "reactor_moves N K Q \<longleftrightarrow>
     (\<forall>l f a. kernel_moves K l f a Q)
     \<and> (\<forall>fd w. Q w (n_close N fd w)) \<and> (\<forall>fd w. Q w (n_shutdown N fd w))
     \<and> (\<forall>fd opt w. Q w (n_setsockopt N fd opt w)) \<and> (\<forall>fd f w. Q w (n_setfl N fd f w))
     \<and> (\<forall>fd w r w'. n_getfl N fd w = (r, w') \<longrightarrow> Q w w')
     \<and> (\<forall>fd w r w'. n_accept N fd w = (r, w') \<longrightarrow> Q w w')"

lemma reactor_movesD:
  assumes "reactor_moves N K Q"
  shows "kernel_moves K l f a Q" and "Q w w" and "Q w w1 \<Longrightarrow> Q w1 w2 \<Longrightarrow> Q w w2"
    and "Q w (n_close N fd w)" and "Q w (n_shutdown N fd w)" and "Q w (n_setsockopt N fd opt w)"
    and "Q w (n_setfl N fd flags w)" and "n_getfl N fd w = (g, w') \<Longrightarrow> Q w w'" and "n_accept N fd w = (r, w') \<Longrightarrow> Q w w'"
    and "keeps K Q c"
proof -
  show k: "kernel_moves K l f a Q" for l f a using assms by (simp add: reactor_moves_def)
  show "Q w w" and "Q w w1 \<Longrightarrow> Q w1 w2 \<Longrightarrow> Q w w2" by (rule kernel_movesD [OF k], assumption?)+
  show "keeps K Q c" by (simp add: keeps_def k)
  show "Q w (n_close N fd w)" and "Q w (n_shutdown N fd w)" and "Q w (n_setsockopt N fd opt w)"
    and "Q w (n_setfl N fd flags w)" and "n_getfl N fd w = (g, w') \<Longrightarrow> Q w w'" and "n_accept N fd w = (r, w') \<Longrightarrow> Q w w'"
    using assms unfolding reactor_moves_def by metis+
qed

lemma deleteConnection_moves:
  assumes "reactor_moves N K Q"
  shows "Q w (snd (deleteConnection N fd (s, w)))"
  using reactor_movesD(2,4) [OF assms] by (simp add: deleteConnection_def socket_delete_def)

text \<open>What a sub reactor ran for an event, and what became of the connection.\<close>

definition event_ran ::
    "'w kernel \<Rightarrow> environ \<Rightarrow> connection \<Rightarrow> reactor_shared \<Rightarrow> 'w \<Rightarrow> outcome \<Rightarrow> reactor_shared \<Rightarrow> 'w \<Rightarrow> bool" where
  "event_ran K getenv c sh w out sh' w' \<longleftrightarrow>
     handleMessage K getenv c sh w = Some (out, sh', w')
     \<or> handleWrite K c w = Some (out, w') \<and> sh' = sh
     \<or> out = Alive c \<and> sh' = sh \<and> w' = w"

lemma connection_event_cases:
  assumes "connection_event N K getenv fd ev (s, w) = Some (s', w')"
  obtains (gone) "s' = s" and "w' = w"
  | (alive) c c' sh where "map_of (connections s) fd = Some c"
      and "event_ran K getenv (c\<lparr>conn_channel := setRevents (conn_channel c) ev\<rparr>) (serverShared s) w (Alive c') sh w'"
      and "s' = s\<lparr>connections := map_insert fd c' (connections s), serverShared := sh\<rparr>"
  | (destroyed) c sh w1 where "map_of (connections s) fd = Some c"
      and "event_ran K getenv (c\<lparr>conn_channel := setRevents (conn_channel c) ev\<rparr>) (serverShared s) w Destroyed sh w1"
      and "(s', w') = deleteConnection N fd (s\<lparr>serverShared := sh\<rparr>, w1)"
proof (cases "map_of (connections s) fd")
  case None
  with assms gone show ?thesis by (simp add: connection_event_def)
next
  case (Some c)
  let ?c = "c\<lparr>conn_channel := setRevents (conn_channel c) ev\<rparr>"
  have same: "s\<lparr>serverShared := serverShared s\<rparr> = s" "s\<lparr>connections := m, serverShared := serverShared s\<rparr> = s\<lparr>connections := m\<rparr>" for m
    by simp_all
  note rule = alive [OF Some] destroyed [OF Some]
  consider "handleEvent (conn_channel ?c) = Some HandleMessage" | "handleEvent (conn_channel ?c) = Some HandleWrite"
    | "handleEvent (conn_channel ?c) \<notin> {Some HandleMessage, Some HandleWrite}" by blast
  then show ?thesis
  proof cases
    case 1
    with assms Some obtain out sh w1 where r: "handleMessage K getenv ?c (serverShared s) w = Some (out, sh, w1)"
      by (auto simp: connection_event_def Let_def split: option.splits)
    then have "event_ran K getenv ?c (serverShared s) w out sh w1" by (simp add: event_ran_def)
    with assms Some 1 r show ?thesis by (cases out) (auto simp: connection_event_def Let_def intro: rule)
  next
    case 2
    with assms Some obtain out w1 where r: "handleWrite K ?c w = Some (out, w1)"
      by (auto simp: connection_event_def Let_def split: option.splits)
    then have "event_ran K getenv ?c (serverShared s) w out (serverShared s) w1" by (simp add: event_ran_def)
    with assms Some 2 r show ?thesis
      using rule(1) [of _ "serverShared s"] rule(2) [of "serverShared s" w1]
      by (cases out) (auto simp: connection_event_def Let_def same)
  next
    case 3
    then have "s' = s\<lparr>connections := map_insert fd ?c (connections s)\<rparr>" "w' = w"
      using assms Some by (auto simp: connection_event_def Let_def split: option.splits callback.splits)
    with rule(1) [of ?c "serverShared s"] show ?thesis by (simp add: event_ran_def same)
  qed
qed

lemma event_ran_moves:
  assumes "reactor_moves N K Q" and "event_ran K getenv c sh w out sh' w'"
  shows "Q w w'"
  using assms(2) reactor_movesD(2) [OF assms(1)] handleMessage_kept [OF reactor_movesD(10) [OF assms(1)]]
    handleWrite_kept [OF reactor_movesD(10) [OF assms(1)]]
  unfolding event_ran_def kept_def by blast

lemma connection_event_moves:
  assumes "reactor_moves N K Q" and "connection_event N K getenv fd ev (s, w) = Some (s', w')"
  shows "Q w w'"
  using assms(2)
proof (cases rule: connection_event_cases)
  case (destroyed c sh w1)
  have "Q w1 w'" using deleteConnection_moves [OF assms(1)] destroyed(3) by (metis snd_conv)
  with event_ran_moves [OF assms(1) destroyed(2)] reactor_movesD(3) [OF assms(1)] show ?thesis by blast
qed (use reactor_movesD(2) [OF assms(1)] event_ran_moves [OF assms(1)] in blast)+

lemma newConnection_moves:
  assumes "reactor_moves N K Q" and "newConnection N K fd (s, w) = Some (s', w')"
  shows "Q w w'"
proof -
  note Q = reactor_movesD [OF assms(1)] and K = kernel_movesD [OF reactor_movesD(1) [OF assms(1)]]
  have "Q w w1" if "connection_new K a l fd w = (c, w1)" for a l c w1
    using that updateChannel_moves [OF Q(1)]
    by (auto simp: connection_new_def enableReadingET_def split: prod.splits intro: Q(3) dest!: K(7))
  with assms(2) show ?thesis
    by (auto simp: newConnection_def socket_delete_def split: if_splits prod.splits intro: Q(2) Q(3) [OF _ Q(4)])
qed

lemma accept_event_moves:
  assumes "reactor_moves N K Q" and "accept_event N K (s, w) = Some (s', w')"
  shows "Q w w'"
proof -
  note Q = reactor_movesD [OF assms(1)]
  have conf: "Q v (socket_setNoDelay N fd (socket_setnonblocking N fd v))" for fd v
    using Q(8) [of fd v] by (auto simp: socket_setNoDelay_def socket_setnonblocking_def split: prod.splits intro!: Q(3) [OF _ Q(6)] Q(3) [OF _ Q(7)])
  have "Q w (snd (s', w'))"
  proof (rule acceptConnection_rule [where I = "\<lambda>x v. Q w v", THEN conjunct1])
    show "acceptConnection N (newConnection N K) (listenFd s) (s, w) = Some (s', w')"
      using assms(2) by (simp add: accept_event_def)
  next
    fix x v fd v' xv
    assume "Q w v" "n_accept N (listenFd s) v = (Ret fd, v')"
      and "newConnection N K fd (x, socket_setNoDelay N fd (socket_setnonblocking N fd v')) = Some xv"
    then show "Q w (snd xv)"
      using newConnection_moves [OF assms(1), where s' = "fst xv" and w' = "snd xv"] conf Q(3,9)
      by (metis prod.collapse)
  qed (auto intro: Q(2,3,9))
  then show ?thesis by simp
qed

lemma loopCallback_moves:
  assumes "reactor_moves N K Q" and "loopCallback N K g (s, w) = (s', w')"
  shows "Q w w'"
proof -
  note Q = reactor_movesD [OF assms(1)] and K = kernel_movesD [OF reactor_movesD(1) [OF assms(1)]]
  have idle: "Q v (shutdown_idle N now timeout m v)" for now timeout m v
  proof (induction m arbitrary: v)
    case (Cons x m)
    then show ?case by (cases x) (auto intro: Q(3) [OF Q(5)])
  qed (simp add: Q(2))
  show ?thesis
    using assms(2) by (auto simp: loopCallback_def sweepIdle_def split: if_splits prod.splits intro: Q(2) Q(3) [OF K(7) idle])
qed

subsection \<open>What the actions of a database thread do to the world\<close>

definition thread_moves :: "'w services \<Rightarrow> ('w \<Rightarrow> 'w \<Rightarrow> bool) \<Rightarrow> bool" where
  "thread_moves S Q \<longleftrightarrow>
     (\<forall>w. Q w w) \<and> (\<forall>w w1 w2. Q w w1 \<longrightarrow> Q w1 w2 \<longrightarrow> Q w w2)
     \<and> (\<forall>fd d w r w'. k_write (sv_kernel S) fd d w = (r, w') \<longrightarrow> Q w w')
     \<and> (\<forall>c q w r w'. my_query (sv_mysql S) c q w = (r, w') \<longrightarrow> Q w w')
     \<and> (\<forall>c w r w'. my_store_result (sv_mysql S) c w = (r, w') \<longrightarrow> Q w w')
     \<and> (\<forall>h p w r w'. rd_connect (sv_redis S) h p w = (r, w') \<longrightarrow> Q w w')
     \<and> (\<forall>c w. Q w (rd_free (sv_redis S) c w))
     \<and> (\<forall>c cmd w r w'. rd_command (sv_redis S) c cmd w = (r, w') \<longrightarrow> Q w w')
     \<and> (\<forall>w r w'. sv_draw S w = (r, w') \<longrightarrow> Q w w')"

lemma thread_movesD:
  assumes "thread_moves S Q"
  shows "Q w w" and "Q w w1 \<Longrightarrow> Q w1 w2 \<Longrightarrow> Q w w2"
    and "k_write (sv_kernel S) fd d w = (n, w') \<Longrightarrow> Q w w'"
    and "my_query (sv_mysql S) c q w = (f, w') \<Longrightarrow> Q w w'"
    and "my_store_result (sv_mysql S) c w = (res, w') \<Longrightarrow> Q w w'"
    and "rd_connect (sv_redis S) h p w = (con, w') \<Longrightarrow> Q w w'"
    and "Q w (rd_free (sv_redis S) c w)"
    and "rd_command (sv_redis S) c cmd w = (rep, w') \<Longrightarrow> Q w w'"
    and "sv_draw S w = (i, w') \<Longrightarrow> Q w w'"
  using assms unfolding thread_moves_def by metis+

abbreviation world_moves_by :: "('w \<Rightarrow> 'w \<Rightarrow> bool) \<Rightarrow> ('w, 'r) db_proc \<Rightarrow> bool" where
  "world_moves_by Q \<equiv> moves (\<lambda>s s'. Q (world s) (world s'))"

lemma pools_move:
  assumes "\<And>w. Q w w"
  shows "world_moves_by Q (mysql_acquire i)" and "world_moves_by Q (mysql_giveback conn)"
    and "world_moves_by Q redis_acquire" and "world_moves_by Q (redis_giveback c)"
  using assms
  by (auto simp: mysql_acquire_def mysql_giveback_def redis_acquire_def redis_giveback_def moves_atomically split: prod.splits)

lemma world_call_moves: "(\<And>w r w'. f w = (r, w') \<Longrightarrow> Q w w') \<Longrightarrow> world_moves_by Q (world_call f)"
  by (auto simp: world_call_def moves_atomically split: prod.splits)

lemma reply_moves:
  assumes "thread_moves S Q"
  shows "world_moves_by Q (reply_proc S fd ka st b)"
proof -
  note Q = thread_movesD [OF assms]
  have "Q w w'" if "send_loop (sv_kernel S) fd d n w = Some (r, m, w')" for d n r m w w'
    using sendloop.run_rule [OF that, where I = "\<lambda>x v. Q w v"] Q(1,2,3) by blast
  then show ?thesis
    by (fastforce simp: reply_proc_def moves_atomically reply_def sendJson_def sendHttpResponse_def split: option.splits)
qed

lemma redis_op_moves:
  assumes "thread_moves S Q"
  shows "world_moves_by Q (redis_op_proc (sv_redis S) cmd broken ans)"
proof -
  note Q = thread_movesD [OF assms]
  have "Q w w'" if "redis_createConn (sv_redis S) p w = (r, w')" for p w r w'
    using that Q(6) Q(2) [OF Q(6) Q(7)] by (auto simp: redis_createConn_def split: prod.splits option.splits if_splits)
  then have "world_moves_by Q (redis_discard_proc (sv_redis S) c)" for c
    unfolding redis_discard_proc_def
    by (intro moves_and_then world_call_moves) (auto simp: moves_atomically pools_move Q(1,7) split: prod.splits option.splits)
  then show ?thesis
    unfolding redis_op_proc_def
    by (auto intro!: moves_and_then world_call_moves pools_move Q(1,8) split: option.splits)
qed

lemma draw_moves:
  assumes "thread_moves S Q"
  shows "world_moves_by Q (draw_token_proc S n tok)"
  by (induction n arbitrary: tok)
    (auto intro!: moves_and_then world_call_moves thread_movesD(9) [OF assms] split: option.splits)

lemma guard_moves:
  "(\<And>w. Q w w) \<Longrightarrow> (\<And>conn. world_moves_by Q (body conn)) \<Longrightarrow> world_moves_by Q (mysql_guard_proc i body)"
  by (simp add: mysql_guard_proc_def moves_and_then pools_move)

lemma task_moves:
  assumes "thread_moves S Q"
  shows "world_moves_by Q (task_proc S i t)"
proof -
  note Q = thread_movesD [OF assms] and ops = reply_moves [OF assms] redis_op_moves [OF assms] draw_moves [OF assms]
  note redis = redis_get_proc_def redis_setex_proc_def redis_del_proc_def
  have calls: "world_moves_by Q (world_call (my_query (sv_mysql S) c q))" "world_moves_by Q (world_call (my_store_result (sv_mysql S) c))" for c q
    by (rule world_call_moves, erule Q(4), rule world_call_moves, erule Q(5))
  have reg: "world_moves_by Q (register_body_proc S fd ka u q conn)" for fd ka u q conn
    by (auto simp: register_body_proc_def intro!: moves_and_then calls ops split: option.splits)
  have my: "world_moves_by Q (login_mysql_proc S fd ka u conn)" for fd ka u conn
    by (auto simp: login_mysql_proc_def redis intro!: moves_and_then calls ops split: option.splits list.splits)
  have fin: "world_moves_by Q (login_finish_proc S fd ka u q found)" for fd ka u q found
    by (auto simp: login_finish_proc_def redis intro!: moves_and_then ops split: option.splits)
  have "world_moves_by Q (work_proc S i t)"
    by (cases t) (auto simp: redis intro!: moves_and_then guard_moves reg my fin ops Q(1) split: sum.splits)
  then show ?thesis
    unfolding task_proc_def by (intro moves_and_then) (auto intro: ops split: db_result.splits)
qed

subsection \<open>Steps of the whole server\<close>

type_synonym 'w db_threads = "nat \<Rightarrow> (db_task \<times> ('w, db_result) db_proc) option"

definition with_pool :: "server \<Rightarrow> db_task thread_pool \<Rightarrow> server" where
  "with_pool s p = s\<lparr>serverShared := (serverShared s)\<lparr>dbPool := p\<rparr>\<rparr>"

text \<open>
  The main reactor accepts or runs its housekeeping, a sub reactor handles an event, a
  worker of the DB pool takes a task, acts, or finishes, and clients, clocks and other
  programs move the rest of the world.
\<close>

inductive system_step ::
    "'w net \<Rightarrow> 'w services \<Rightarrow> environ \<Rightarrow> ('w \<Rightarrow> bool) \<Rightarrow> ('w \<Rightarrow> 'w \<Rightarrow> bool)
     \<Rightarrow> server \<times> 'w db_shared \<times> 'w db_threads \<Rightarrow> server \<times> 'w db_shared \<times> 'w db_threads \<Rightarrow> bool"
  for N S getenv g_shutdown env where
  sys_accept: "accept_event N (sv_kernel S) (s, world d) = Some (s', w')
    \<Longrightarrow> system_step N S getenv g_shutdown env (s, d, ts) (s', d\<lparr>world := w'\<rparr>, ts)"
| sys_event: "connection_event N (sv_kernel S) getenv fd revents (s, world d) = Some (s', w')
    \<Longrightarrow> system_step N S getenv g_shutdown env (s, d, ts) (s', d\<lparr>world := w'\<rparr>, ts)"
| sys_tick: "loopCallback N (sv_kernel S) g_shutdown (s, world d) = (s', w')
    \<Longrightarrow> system_step N S getenv g_shutdown env (s, d, ts) (s', d\<lparr>world := w'\<rparr>, ts)"
| sys_wake: "worker_wake i (dbPool (serverShared s)) = Some (Some t, p)
    \<Longrightarrow> system_step N S getenv g_shutdown env (s, d, ts) (with_pool s p, d, ts(i \<mapsto> (t, task_proc S i t)))"
| sys_leave: "worker_wake i (dbPool (serverShared s)) = Some (None, p)
    \<Longrightarrow> system_step N S getenv g_shutdown env (s, d, ts) (with_pool s p, d, ts)"
| sys_act: "ts i = Some (t, Act f) \<Longrightarrow> f d = Some (d', q)
    \<Longrightarrow> system_step N S getenv g_shutdown env (s, d, ts) (s, d', ts(i \<mapsto> (t, q)))"
| sys_finish: "ts i = Some (t, Done r) \<Longrightarrow> worker_finish i (dbPool (serverShared s)) = Some p
    \<Longrightarrow> system_step N S getenv g_shutdown env (s, d, ts) (with_pool s p, d, ts(i := None))"
| sys_world: "env (world d) w' \<Longrightarrow> system_step N S getenv g_shutdown env (s, d, ts) (s, d\<lparr>world := w'\<rparr>, ts)"

definition system_start ::
    "'w net \<Rightarrow> 'w services \<Rightarrow> environ \<Rightarrow> ('w \<Rightarrow> bool) \<Rightarrow> ('w db_shared \<Rightarrow> bool) \<Rightarrow> server \<times> 'w db_shared \<times> 'w db_threads \<Rightarrow> bool" where
  "system_start N S getenv boots shares st \<longleftrightarrow>
     (case st of (s, d, ts) \<Rightarrow> ts = Map.empty \<and> shares d
        \<and> (\<exists>n w0. 0 < n \<and> boots w0 \<and> server_new N (sv_kernel S) getenv n w0 = (Inr s, world d)))"

subsection \<open>The work in progress\<close>

text \<open>
  Every queued or running task fits its escape buffers and names a user in bytes of \<open>A\<close>, and
  a worker runs its task exactly while it is marked as running.
\<close>

definition task_ok :: "char set \<Rightarrow> db_task \<Rightarrow> bool" where
  "task_ok A t \<longleftrightarrow> task_fits t \<and> set (task_name t) \<subseteq> A"

definition inputs_ok :: "char set \<Rightarrow> server \<Rightarrow> bool" where
  "inputs_ok A s \<longleftrightarrow> (\<forall>fd c. (fd, c) \<in> set (connections s) \<longrightarrow> set (inputBuffer c) \<subseteq> A)"

definition worker_ok ::
    "'w services \<Rightarrow> char set \<Rightarrow> db_task worker list \<Rightarrow> nat \<Rightarrow> (db_task \<times> ('w, db_result) db_proc) option \<Rightarrow> bool" where
  "worker_ok S A ws i slot \<longleftrightarrow>
     (case slot of
        None \<Rightarrow> True
      | Some (t, q) \<Rightarrow> i < length ws \<and> ws ! i = Running t \<and> task_ok A t \<and> residual (task_proc S i t) q)"

definition work_inv :: "'w services \<Rightarrow> char set \<Rightarrow> server \<times> 'w db_shared \<times> 'w db_threads \<Rightarrow> bool" where
  "work_inv S A st \<longleftrightarrow>
     (case st of (s, d, ts) \<Rightarrow>
        inputs_ok A s \<and> list_all (task_ok A) (tasks (dbPool (serverShared s)))
        \<and> (\<forall>i. worker_ok S A (threads (dbPool (serverShared s))) i (ts i)))"

lemma set_map_insert: "set (map_insert k v m) \<subseteq> insert (k, v) (set m)"
  by (induction m) (auto split: if_splits)

lemma inputs_ok_insert: "inputs_ok A s \<Longrightarrow> set (inputBuffer c) \<subseteq> A \<Longrightarrow> inputs_ok A (s\<lparr>connections := map_insert fd c (connections s)\<rparr>)"
  using set_map_insert [of fd c "connections s"] by (fastforce simp: inputs_ok_def)

lemma inputs_ok_cong [simp]:
  "inputs_ok A (s\<lparr>serverShared := sh\<rparr>) = inputs_ok A s" "inputs_ok A (s\<lparr>nextAddr := n\<rparr>) = inputs_ok A s"
  by (simp_all add: inputs_ok_def)

lemma newConnection_inputs:
  assumes "newConnection N K fd (s, w) = Some sw" and "inputs_ok A s"
  shows "inputs_ok A (fst sw) \<and> serverShared (fst sw) = serverShared s"
proof -
  obtain c w1 where c: "connection_new K (nextAddr s) (nat (fd mod int (length (subQuit s)))) fd w = (c, w1)" by fastforce
  then have "set (inputBuffer c) \<subseteq> A" by (auto simp: connection_new_def split: prod.splits)
  with inputs_ok_insert [OF assms(2), of c fd] assms c show ?thesis
    by (auto simp: newConnection_def split: if_splits)
qed

lemma deleteConnection_inputs:
  "deleteConnection N fd (s, w) = (s', w') \<Longrightarrow> inputs_ok A s \<Longrightarrow> inputs_ok A s' \<and> serverShared s' = serverShared s"
  using set_map_erase [of fd "connections s"] by (fastforce simp: deleteConnection_def inputs_ok_def split: if_splits)

lemma accept_event_inputs:
  assumes "accept_event N K (s, w) = Some (s', w')" and "inputs_ok A s"
  shows "inputs_ok A s' \<and> serverShared s' = serverShared s"
proof -
  let ?I = "\<lambda>x (v :: 'a). inputs_ok A x \<and> serverShared x = serverShared s"
  have "?I (fst (s', w')) (snd (s', w'))"
  proof (rule acceptConnection_rule [where I = ?I, THEN conjunct1])
    show "acceptConnection N (newConnection N K) (listenFd s) (s, w) = Some (s', w')"
      using assms(1) by (simp add: accept_event_def)
  next
    fix x and v v' :: 'a and fd xv
    assume "?I x v" and "newConnection N K fd (x, socket_setNoDelay N fd (socket_setnonblocking N fd v')) = Some xv"
    then show "?I (fst xv) (snd xv)" using newConnection_inputs by metis
  qed (use assms(2) in auto)
  then show ?thesis by simp
qed

lemma event_ran_from:
  assumes "reads_within K A" and "event_ran K getenv c sh w out sh' w'" and "set (inputBuffer c) \<subseteq> A"
  shows "pool_grows (task_ok A) (dbPool sh) (dbPool sh') \<and> read_from A out"
proof -
  have "pool_grows (task_from A (sock_fd c)) (dbPool sh) (dbPool sh') \<and> read_from A out"
    using assms(2) unfolding event_ran_def
  proof (elim disjE conjE)
    assume "handleMessage K getenv c sh w = Some (out, sh', w')"
    from handleMessage_grows [OF assms(1) this assms(3)] show ?thesis .
  next
    assume "handleWrite K c w = Some (out, w')" "sh' = sh"
    with handleWrite_from [OF _ assms(3)] show ?thesis by simp
  qed (use assms(3) in \<open>simp add: read_from_def\<close>)
  then show ?thesis by (auto intro: pool_grows_mono simp: task_from_def task_ok_def)
qed

lemma connection_event_work:
  assumes "reads_within K A" and "connection_event N K getenv fd ev (s, w) = Some (s', w')" and "inputs_ok A s"
  shows "inputs_ok A s' \<and> pool_grows (task_ok A) (dbPool (serverShared s)) (dbPool (serverShared s'))"
  using assms(2)
proof (cases rule: connection_event_cases)
  case gone
  with assms(3) show ?thesis by simp
next
  case (alive c c' sh)
  have "set (inputBuffer c) \<subseteq> A" using alive(1) assms(3) by (auto simp: inputs_ok_def dest: map_of_SomeD)
  with event_ran_from [OF assms(1) alive(2)] inputs_ok_insert [OF assms(3), of c'] alive(3) show ?thesis
    by (auto simp: read_from_def inputs_ok_def)
next
  case (destroyed c sh w1)
  have "set (inputBuffer c) \<subseteq> A" using destroyed(1) assms(3) by (auto simp: inputs_ok_def dest: map_of_SomeD)
  with event_ran_from [OF assms(1) destroyed(2)] deleteConnection_inputs [OF destroyed(3) [symmetric], of A] assms(3)
  show ?thesis by simp
qed

lemma system_start_work:
  assumes "system_start N S getenv boots shares st"
  shows "work_inv S A st"
proof -
  obtain s d ts where st: "st = (s, d, ts)" by (metis prod.exhaust)
  with assms obtain n w0 where n: "server_new N (sv_kernel S) getenv n w0 = (Inr s, world d)" "ts = Map.empty"
    by (auto simp: system_start_def)
  then have "connections s = []" "tasks (dbPool (serverShared s)) = []"
    by (auto simp: server_new_def pool_new_def split: prod.splits sum.splits)
  with st n(2) show ?thesis by (simp add: work_inv_def inputs_ok_def worker_ok_def)
qed

lemma worker_ok_other: "worker_ok S A ws i slot \<Longrightarrow> i \<noteq> j \<Longrightarrow> worker_ok S A (ws[j := x]) i slot"
  by (auto simp: worker_ok_def split: option.splits)

lemma system_step_work:
  assumes "reads_within (sv_kernel S) A" and "system_step N S getenv g env st st'" and "work_inv S A st"
  shows "work_inv S A st'"
  using assms(2)
proof cases
  case (sys_accept s d s' w' ts)
  have "inputs_ok A s" using assms(3) sys_accept(1) by (simp add: work_inv_def)
  with accept_event_inputs [OF sys_accept(3)] have "inputs_ok A s'" "serverShared s' = serverShared s" by blast+
  with assms(3) sys_accept(1,2) show ?thesis by (simp add: work_inv_def)
next
  case (sys_event fd revents s d s' w' ts)
  have "inputs_ok A s" using assms(3) sys_event(1) by (simp add: work_inv_def)
  from connection_event_work [OF assms(1) sys_event(3) this] assms(3) sys_event(1,2) show ?thesis
    by (auto simp: work_inv_def pool_grows_def)
next
  case (sys_tick s d s' w' ts)
  then have "connections s' = connections s" "serverShared s' = serverShared s"
    by (auto simp: loopCallback_def server_stop_def split: if_splits)
  with assms(3) sys_tick(1,2) show ?thesis by (simp add: work_inv_def inputs_ok_def)
next
  case (sys_wake i s t p d ts)
  let ?p = "dbPool (serverShared s)"
  have w: "i < length (threads ?p)" "threads ?p ! i = Waiting" "tasks ?p = t # tasks p" "threads p = (threads ?p)[i := Running t]"
    using sys_wake(3) by (auto simp: worker_wake_def split: if_splits)
  have "worker_ok S A (threads p) j ((ts(i \<mapsto> (t, task_proc S i t))) j)" for j
    using assms(3) sys_wake(1) w worker_ok_other [of S A "threads ?p" j "ts j" i "Running t"]
    by (cases "j = i") (auto simp: work_inv_def worker_ok_def residual_refl)
  with assms(3) sys_wake(1,2) w(3) show ?thesis by (simp add: work_inv_def with_pool_def)
next
  case (sys_leave i s p d ts)
  let ?p = "dbPool (serverShared s)"
  have w: "threads ?p ! i = Waiting" "tasks p = tasks ?p" "threads p = (threads ?p)[i := Exited]"
    using sys_leave(3) by (auto simp: worker_wake_def split: if_splits)
  have "worker_ok S A (threads p) j (ts j)" for j
    using assms(3) sys_leave(1) w worker_ok_other [of S A "threads ?p" j "ts j" i Exited]
    by (cases "j = i") (auto simp: work_inv_def worker_ok_def split: option.splits)
  with assms(3) sys_leave(1,2) w(2) show ?thesis by (simp add: work_inv_def with_pool_def)
next
  case (sys_act ts i t f d d' q s)
  have "worker_ok S A (threads (dbPool (serverShared s))) j ((ts(i \<mapsto> (t, q))) j)" for j
    using assms(3) sys_act(1) residual_act [where f = f, OF _ sys_act(4), of "task_proc S i t"] sys_act(3)
    by (cases "j = i") (auto simp: work_inv_def worker_ok_def dest!: spec [of _ i])
  with assms(3) sys_act(1,2) show ?thesis by (simp add: work_inv_def)
next
  case (sys_finish ts i t r s p d)
  let ?p = "dbPool (serverShared s)"
  have w: "tasks p = tasks ?p" "threads p = (threads ?p)[i := Waiting]"
    using sys_finish(4) by (auto simp: worker_finish_def split: if_splits worker.splits)
  have "worker_ok S A (threads p) j ((ts(i := None)) j)" for j
    using assms(3) sys_finish(1) w worker_ok_other [of S A "threads ?p" j "ts j" i Waiting]
    by (cases "j = i") (auto simp: work_inv_def worker_ok_def)
  with assms(3) sys_finish(1,2) w(1) show ?thesis by (simp add: work_inv_def with_pool_def)
next
  case (sys_world d w' s ts)
  with assms(3) show ?thesis by (simp add: work_inv_def)
qed

interpretation syswork: inductive_invariant "system_start N S getenv boots shares" "system_step N S getenv g env"
    "\<lambda>st. reads_within (sv_kernel S) A \<longrightarrow> work_inv S A st"
  for N :: "'w net" and S getenv boots shares g env A
  by unfold_locales (use system_start_work system_step_work in blast)+

subsection \<open>Buffers\<close>

definition sound_result :: "db_result \<Rightarrow> bool" where
  "sound_result r \<longleftrightarrow> r \<noteq> Overrun \<and> r \<noteq> Thrown"

lemma reply_ends: "(\<And>b. R (Answered st b)) \<Longrightarrow> ends R (reply_proc S fd ka st b)"
  by (auto simp: reply_proc_def ends_atomically reply_def split: option.splits)

lemma escape_fits:
  assumes "\<And>x. length (my_escape M x) \<le> 2 * length x"
  shows "length u \<le> kMaxUsernameLen \<Longrightarrow> \<exists>e. escape_into 129 (my_escape M u) = Some e"
    and "length u \<le> kMaxPasswordLen \<Longrightarrow> \<exists>e. escape_into 257 (my_escape M u) = Some e"
  using assms [of u] by (auto simp: escape_into_def kMaxUsernameLen_def kMaxPasswordLen_def)

lemma work_ends:
  assumes "\<And>x. length (my_escape (sv_mysql S) x) \<le> 2 * length x" and "task_fits t"
  shows "ends (\<lambda>r. r \<noteq> Overrun) (work_proc S i t)"
proof -
  note esc = escape_fits [of "sv_mysql S", OF assms(1)]
  have reg: "ends (\<lambda>r. r \<noteq> Overrun) (register_body_proc S fd ka u q conn)"
    if "length u \<le> kMaxUsernameLen" "length q \<le> kMaxPasswordLen" for fd ka u q conn
    using esc(1) [OF that(1)] esc(2) [OF that(2)]
    by (auto simp: register_body_proc_def intro!: ends_then reply_ends split: option.splits)
  have my: "ends (\<lambda>r. r \<noteq> Inl Overrun) (login_mysql_proc S fd ka u conn)" if "length u \<le> kMaxUsernameLen" for fd ka u conn
  proof -
    have "ends (\<lambda>r. r \<noteq> Inl Overrun) (and_then (reply_proc S fd ka st b) (\<lambda>r. Done (Inl r)))" for st b
      by (rule ends_and_then [OF reply_ends [of "\<lambda>r. r \<noteq> Overrun"]]) simp_all
    with esc(1) [OF that] show ?thesis
      by (auto simp: login_mysql_proc_def ends_then split: option.splits list.splits)
  qed
  have fin: "ends (\<lambda>r. r \<noteq> Overrun) (login_finish_proc S fd ka u q found)" for fd ka u q found
    by (auto simp: login_finish_proc_def intro!: ends_then reply_ends split: option.splits)
  have guard: "ends R (mysql_guard_proc i body)" if "\<And>conn. ends R (body conn)" for R :: "'r \<Rightarrow> bool" and body :: "nat option \<Rightarrow> ('a, 'r) db_proc"
    unfolding mysql_guard_proc_def
    by (intro ends_then ends_and_then [OF that]) simp
  show ?thesis
  proof (cases t)
    case (LoginTask fd ka u q)
    then have "ends (\<lambda>r. r \<noteq> Inl Overrun) (mysql_guard_proc i (login_mysql_proc S fd ka u))"
      using assms(2) by (intro guard my) simp
    then have "ends (\<lambda>r. r \<noteq> Overrun) (and_then (mysql_guard_proc i (login_mysql_proc S fd ka u))
        (\<lambda>res. case res of Inl r \<Rightarrow> Done r | Inr found \<Rightarrow> login_finish_proc S fd ka u q found))"
      by (rule ends_and_then) (use fin in \<open>auto split: sum.split\<close>)
    with LoginTask fin show ?thesis by (simp add: ends_then split: prod.split)
  qed (use assms(2) in \<open>auto intro!: ends_then reply_ends guard reg\<close>)
qed

lemma task_ends:
  assumes "\<And>x. length (my_escape (sv_mysql S) x) \<le> 2 * length x" and "task_fits t"
  shows "ends sound_result (task_proc S i t)"
  unfolding task_proc_def
  by (rule ends_and_then [OF work_ends [OF assms]]) (auto intro: reply_ends simp: sound_result_def split: db_result.split)

subsection \<open>The components in the whole\<close>

text \<open>
  The databases are not touched by the system calls of the reactors, nor the descriptors of
  the server by the calls of the database threads.
\<close>

definition apart ::
    "'w net \<Rightarrow> 'w services \<Rightarrow> ('w \<Rightarrow> int set) \<Rightarrow> ('w \<Rightarrow> interests) \<Rightarrow> ('w \<Rightarrow> (bytes \<times> bytes) list)
     \<Rightarrow> ('w \<Rightarrow> bytes \<Rightarrow> bytes option) \<Rightarrow> ('w \<Rightarrow> nat \<Rightarrow> bytes list) \<Rightarrow> ('w \<Rightarrow> 'w \<Rightarrow> bool) \<Rightarrow> bool" where
  "apart N S socks interest rows kv answer env \<longleftrightarrow>
     reactor_moves N (sv_kernel S) (settled rows kv answer) \<and> thread_moves S (same_fds socks interest)
     \<and> (\<forall>w w'. env w w' \<longrightarrow> settled rows kv answer w w' \<and> same_fds socks interest w w')"

text \<open>The whole server as each component sees it.\<close>

definition seen_apart ::
    "'w net \<Rightarrow> 'w services \<Rightarrow> environ \<Rightarrow> ('w \<Rightarrow> bool) \<Rightarrow> ('w \<Rightarrow> int set) \<Rightarrow> ('w \<Rightarrow> interests) \<Rightarrow> (bytes \<Rightarrow> bytes \<Rightarrow> bool)
     \<Rightarrow> ('w \<Rightarrow> (bytes \<times> bytes) list) \<Rightarrow> ('w \<Rightarrow> bytes \<Rightarrow> bytes option) \<Rightarrow> ('w \<Rightarrow> nat \<Rightarrow> bytes list) \<Rightarrow> nat set
     \<Rightarrow> server \<times> 'w db_shared \<times> 'w db_threads \<Rightarrow> bool" where
  "seen_apart N S getenv g socks interest same rows kv answer C st \<longleftrightarrow>
     (case st of (s, d, ts) \<Rightarrow>
        reach (server_start N (sv_kernel S) getenv socks interest) (server_step N (sv_kernel S) getenv g socks interest) (s, world d)
        \<and> reach (db_threads_start same rows kv C) (db_threads_step S rows kv answer) (d, ts))"

abbreviation "no_sockets socks interest w \<equiv> socks w = {} \<and> interest w = (\<lambda>ep fd. None)"

lemma system_start_seen:
  assumes "system_start N S getenv (no_sockets socks interest) (\<lambda>d. holder d = Map.empty \<and> db_inv same rows kv C d) st"
  shows "seen_apart N S getenv g socks interest same rows kv answer C st"
  using assms unfolding seen_apart_def system_start_def
  by (auto intro!: reach_init simp: server_start_def db_threads_start_def) blast

lemma reactor_step_seen:
  assumes "apart N S socks interest rows kv answer env" and "seen_apart N S getenv g socks interest same rows kv answer C (s, d, ts)"
    and "server_step N (sv_kernel S) getenv g socks interest (s, world d) (s', w')" and "settled rows kv answer (world d) w'"
  shows "seen_apart N S getenv g socks interest same rows kv answer C (s', d\<lparr>world := w'\<rparr>, ts)"
proof -
  have "db_threads_step S rows kv answer (d, ts) (d\<lparr>world := w'\<rparr>, ts)"
    using assms(4) by (intro world_moves) (auto simp: db_env_def)
  with assms(2,3) show ?thesis by (auto simp: seen_apart_def intro: reach_step)
qed

lemma thread_step_seen:
  assumes "seen_apart N S getenv g socks interest same rows kv answer C (s, d, ts)"
    and "db_threads_step S rows kv answer (d, ts) (d', ts')" and "same_fds socks interest (world d) (world d')"
  shows "seen_apart N S getenv g socks interest same rows kv answer C (with_pool s p, d', ts')"
proof -
  have "server_step N (sv_kernel S) getenv g socks interest (s, world d) (with_pool s p, world d')"
    unfolding with_pool_def by (rule step_world [OF assms(3)])
  with assms(1,2) show ?thesis by (auto simp: seen_apart_def intro: reach_step)
qed

lemma nul_free_ok: "task_ok A t \<Longrightarrow> CHR 0x00 \<notin> A \<Longrightarrow> nul_free_user t"
  by (cases t) (auto simp: task_ok_def)

lemma system_step_seen:
  assumes ap: "apart N S socks interest rows kv answer env" and "CHR 0x00 \<notin> A" and inv: "work_inv S A st"
    and "system_step N S getenv g env st st'" and seen: "seen_apart N S getenv g socks interest same rows kv answer C st"
  shows "seen_apart N S getenv g socks interest same rows kv answer C st'"
  using assms(4)
proof cases
  note rm = ap [unfolded apart_def, THEN conjunct1]
  {
    case (sys_accept s d s' w' ts)
    show ?thesis unfolding sys_accept(2)
      by (rule reactor_step_seen [OF ap seen [unfolded sys_accept(1)] step_accept [OF sys_accept(3)] accept_event_moves [OF rm sys_accept(3)]])
  next
    case (sys_event fd revents s d s' w' ts)
    show ?thesis unfolding sys_event(2)
      by (rule reactor_step_seen [OF ap seen [unfolded sys_event(1)] step_event [OF sys_event(3)] connection_event_moves [OF rm sys_event(3)]])
  next
    case (sys_tick s d s' w' ts)
    from step_tick [of N "sv_kernel S" getenv g socks interest s "world d"] sys_tick(3) loopCallback_moves [OF rm sys_tick(3)]
    show ?thesis unfolding sys_tick(2) by (intro reactor_step_seen [OF ap seen [unfolded sys_tick(1)]]) simp_all
  next
    case (sys_wake i s t p d ts)
    have w: "threads (dbPool (serverShared s)) ! i = Waiting" "tasks (dbPool (serverShared s)) = t # tasks p"
      using sys_wake(3) by (auto simp: worker_wake_def split: if_splits)
    have "worker_ok S A (threads (dbPool (serverShared s))) i (ts i)" "task_ok A t"
      using inv sys_wake(1) w(2) by (simp_all add: work_inv_def)
    with w(1) nul_free_ok assms(2) have "ts i = None" "nul_free_user t" by (auto simp: worker_ok_def split: option.splits)
    then have "db_threads_step S rows kv answer (d, ts) (d, ts(i \<mapsto> (t, task_proc S i t)))" by (rule thread_starts)
    then show ?thesis unfolding sys_wake(2) by (rule thread_step_seen [OF seen [unfolded sys_wake(1)]]) simp
  next
    case (sys_leave i s p d ts)
    have "db_threads_step S rows kv answer (d, ts) (d, ts)"
      by (rule world_moves) (simp add: db_env_def exI [of _ "world d"])
    then show ?thesis unfolding sys_leave(2) by (rule thread_step_seen [OF seen [unfolded sys_leave(1)]]) simp
  next
    case (sys_act ts i t f d d' q s)
    have "residual (task_proc S i t) (Act f)"
      using inv sys_act(1,3) by (auto simp: work_inv_def worker_ok_def dest!: spec [of _ i])
    from residual_moves [OF this task_moves] ap have "world_moves_by (same_fds socks interest) (Act f)" by (auto simp: apart_def)
    with sys_act(4) have "same_fds socks interest (world d) (world d')" by (simp add: moves_Act)
    with thread_step_seen [OF seen [unfolded sys_act(1)] thread_acts [where ts = ts, OF sys_act(3,4)],
        where p = "dbPool (serverShared s)"]
    show ?thesis unfolding sys_act(2) by (simp add: with_pool_def)
  next
    case (sys_finish ts i t r s p d)
    show ?thesis unfolding sys_finish(2)
      by (rule thread_step_seen [OF seen [unfolded sys_finish(1)] thread_finishes [where ts = ts, OF sys_finish(3)]]) simp
  next
    case (sys_world d w' s ts)
    then have "settled rows kv answer (world d) w'" "same_fds socks interest (world d) w'" using ap by (simp_all add: apart_def)
    with step_world [of socks interest "world d" w' N "sv_kernel S" getenv g s "serverShared s"] show ?thesis
      unfolding sys_world(2) by (intro reactor_step_seen [OF ap seen [unfolded sys_world(1)]]) simp_all
  }
qed

interpretation sysview: inductive_invariant
    "system_start N S getenv (no_sockets socks interest) (\<lambda>d. holder d = Map.empty \<and> db_inv same rows kv C d)"
    "system_step N S getenv g env"
    "\<lambda>st. apart N S socks interest rows kv answer env \<longrightarrow> reads_within (sv_kernel S) A \<longrightarrow> CHR 0x00 \<notin> A \<longrightarrow>
       work_inv S A st \<and> seen_apart N S getenv g socks interest same rows kv answer C st"
  for N :: "'w net" and S getenv socks interest same rows kv C g env answer A
proof (unfold_locales, goal_cases)
  case (1 st)
  then show ?case using system_start_work system_start_seen by blast
next
  case (2 st st')
  then show ?case
    using system_step_work [OF _ 2(2)] system_step_seen [OF _ _ _ 2(2), where A = A] by blast
qed

subsection \<open>Runs\<close>

text \<open>A database thread that is not interrupted finishes its task.\<close>

lemma system_runs:
  assumes "run p d = Some (r, d')" and "reach init (system_step N S getenv g env) (s, d, ts)" and "ts i = Some (t, p)"
  shows "reach init (system_step N S getenv g env) (s, d', ts(i \<mapsto> (t, Done r)))"
  using assms
proof (induction p arbitrary: d ts)
  case (Done x)
  then have "ts(i \<mapsto> (t, Done r)) = ts" "d' = d" by auto
  with Done show ?case by simp
next
  case (Act f)
  then obtain d1 p where f: "f d = Some (d1, p)" "run p d1 = Some (r, d')" by (cases "f d") auto
  have "Some (d1, p) \<in> range f" using f(1) rangeI [of f d] by simp
  moreover have "reach init (system_step N S getenv g env) (s, d1, ts(i \<mapsto> (t, p)))"
    by (rule reach_step [OF Act.prems(2) sys_act [where ts = ts, OF Act.prems(3) f(1)]])
  ultimately have "reach init (system_step N S getenv g env) (s, d', (ts(i \<mapsto> (t, p)))(i \<mapsto> (t, Done r)))"
    using Act.IH [OF _ _ _ f(2), of "Some (d1, p)" "(d1, p)" "ts(i \<mapsto> (t, p))"]
    by (simp only: option.set prod_set_simps fun_upd_same insert_iff simp_thms)
  then show ?case by (simp only: fun_upd_upd)
qed

end
