(* ===== verification/EndToEnd.thy ===== *)
theory EndToEnd
  imports ConnLoop
begin

section \<open>Requests over the wire\<close>

text \<open>
  The messages a browser sends for the database routes, and what the request loop makes of
  them: each is framed, routed to its handler and submitted as the task with the values the
  message carries. The round trips through the whole server rest on these lemmas.
\<close>

text \<open>A database request, alone in the buffer of a kept-alive connection.\<close>

lemma db_request_submitted:
  assumes "next_frame r = Framed h r []" and "wantKeepAlive r h"
    and "dbHandler (parseMethod r) (parseUrl r) = Some handle"
    and "handle K r (sock_fd c) True (dbPool sh) w = Some (Inr pool', w')" and "inputBuffer c = r"
  shows "processRequests K getenv c sh w = Some (Alive (c\<lparr>inputBuffer := []\<rparr>), sh\<lparr>dbPool := pool'\<rparr>, w')"
proof -
  have "serveRequest K getenv h r (c\<lparr>inputBuffer := []\<rparr>) sh w =
      Some (Alive (c\<lparr>inputBuffer := []\<rparr>), sh\<lparr>dbPool := pool'\<rparr>, w')"
    using assms(2-4) by (simp add: serveRequest_def admit_def kRateLimitQps_def)
  moreover have "next_frame [] = NeedMore" by (simp add: next_frame_def crlf2_def crlf_def)
  then have "processRequests K getenv (c\<lparr>inputBuffer := []\<rparr>) sh' v = Some (Alive (c\<lparr>inputBuffer := []\<rparr>), sh', v)" for sh' v
    by (subst processRequests_step) (simp add: end_of_input_def)
  ultimately show ?thesis
    using assms(1,2,5) by (subst processRequests_step) simp
qed

text \<open>The request line decides the method and the path, whatever follows.\<close>

lemma request_line:
  assumes "CHR '' '' \<notin> set m" and "CHR '' '' \<notin> set p"
  shows "parseMethod (m @ '' '' @ p @ '' HTTP/1.1'' @ rest) = m"
    and "parseUrl (m @ '' '' @ p @ '' HTTP/1.1'' @ rest) = p"
proof -
  have f: "str_find '' '' (m @ '' '' @ t) = Some (length m)" for t
    using str_find_char_append [of "CHR '' ''" m t] assms(1) by simp
  have g: "str_find '' '' (p @ '' '' @ t) = Some (length p)" for t
    using str_find_char_append [of "CHR '' ''" p t] assms(2) by simp
  show "parseMethod (m @ '' '' @ p @ '' HTTP/1.1'' @ rest) = m"
    using f [of "p @ '' HTTP/1.1'' @ rest"] by (simp add: parseMethod_def substr_def)
  show "parseUrl (m @ '' '' @ p @ '' HTTP/1.1'' @ rest) = p"
    using f [of "p @ '' HTTP/1.1'' @ rest"] g [of "''HTTP/1.1'' @ rest"]
    by (simp add: parseUrl_def str_find_from_def substr_def)
qed

lemma keep_alive_by_default:
  assumes "list_all good_line ((x @ ''HTTP/1.1'') # ls)" and "header_lookup ((x @ ''HTTP/1.1'') # ls) ''connection'' = []"
  shows "wantKeepAlive (http_message ((x @ ''HTTP/1.1'') # ls) body) (join_crlf ((x @ ''HTTP/1.1'') # ls))"
proof -
  obtain rest where e: "http_message ((x @ ''HTTP/1.1'') # ls) body = x @ ''HTTP/1.1'' @ rest"
    by (cases ls) (auto simp: http_message_def)
  have "str_find ''HTTP/1.1'' (http_message ((x @ ''HTTP/1.1'') # ls) body) \<noteq> None"
    unfolding e str_find_None_iff by (auto intro!: exI [of _ "length x"])
  with assms show ?thesis by (simp add: wantKeepAlive_def findHeader_lookup lines_of_join)
qed

text \<open>The messages, as a browser sends them.\<close>

definition post_message :: "bytes \<Rightarrow> bytes \<Rightarrow> bytes" where
  "post_message path body =
     http_message [''POST '' @ path @ '' HTTP/1.1'', ''Content-Length: '' @ to_string (length body)] body"

definition token_message :: "bytes \<Rightarrow> bytes \<Rightarrow> bytes \<Rightarrow> bytes" where
  "token_message m path tok = http_message [m @ '' '' @ path @ '' HTTP/1.1'', ''Authorization: Bearer '' @ tok] []"

lemma request_head: "http_message ((m @ '' '' @ p @ '' HTTP/1.1'') # ls) body = m @ '' '' @ p @ '' HTTP/1.1'' @
    (if ls = [] then crlf2 @ body else crlf @ join_crlf ls @ crlf2 @ body)"
  by (cases ls) (simp_all add: http_message_def)

lemma post_message_parsed:
  assumes "path \<in> {''/register'', ''/login'', ''/logout''}" and "length body \<le> kMaxBodyBytes"
  shows "\<exists>h. next_frame (post_message path body) = Framed h (post_message path body) []
      \<and> wantKeepAlive (post_message path body) h"
    and "parseMethod (post_message path body) = ''POST''" and "parseUrl (post_message path body) = path"
    and "parseBody (post_message path body) = body"
proof -
  let ?ls = "[''POST '' @ path @ '' HTTP/1.1'', ''Content-Length: '' @ to_string (length body)]"
  have g: "list_all good_line ?ls"
    using assms(1) to_string_no_CR by (auto simp: good_line_def)
  have look: "header_lookup ?ls ''content-length'' = '' '' @ to_string (length body)" "header_lookup ?ls ''connection'' = []"
    using assms(1) by (auto simp: str_simps)
  have cl: "requestContentLength (join_crlf ?ls) = length body"
    by (rule requestContentLength_lines [OF g look(1)]) (use assms(2) in \<open>simp add: kMaxBodyBytes_def long_max_def\<close>)
  have len: "length (to_string n) \<le> Suc n" for n
  proof (induction n rule: less_induct)
    case (less n)
    show ?case using less [of "n div 10"] by (subst to_string.simps) auto
  qed
  have "length (join_crlf ?ls) < 2 ^ 63"
    using assms len [of "length body"] by (auto simp: crlf_def kMaxBodyBytes_def)
  then have "next_frame (post_message path body) = Framed (join_crlf ?ls) (post_message path body) []"
    using next_frame_message [of ?ls body "[]"] g cl assms(2) by (simp add: post_message_def)
  moreover have "wantKeepAlive (post_message path body) (join_crlf ?ls)"
    using keep_alive_by_default [of "''POST '' @ path @ '' ''" "[''Content-Length: '' @ to_string (length body)]" body] g look(2)
    by (simp add: post_message_def)
  ultimately show "\<exists>h. next_frame (post_message path body) = Framed h (post_message path body) []
      \<and> wantKeepAlive (post_message path body) h" by blast
  have line: "post_message path body = ''POST'' @ '' '' @ path @ '' HTTP/1.1'' @
      (crlf @ join_crlf [''Content-Length: '' @ to_string (length body)] @ crlf2 @ body)"
    using request_head [of "''POST''" path "[''Content-Length: '' @ to_string (length body)]" body] by (simp add: post_message_def)
  have "CHR '' '' \<notin> set path" using assms(1) by auto
  then show "parseUrl (post_message path body) = path" unfolding line by (intro request_line(2)) simp_all
  show "parseMethod (post_message path body) = ''POST''"
    unfolding line by (rule request_line(1)) (use \<open>CHR '' '' \<notin> set path\<close> in simp_all)
  show "parseBody (post_message path body) = body"
    unfolding post_message_def by (rule parseBody_message) (use g in simp_all)
qed

lemma token_message_parsed:
  assumes "(m, path) \<in> {(''GET'', ''/profile''), (''POST'', ''/logout'')}" and "set tok \<subseteq> set token_charset" and "length tok = kTokenLen"
  shows "\<exists>h. next_frame (token_message m path tok) = Framed h (token_message m path tok) [] \<and> wantKeepAlive (token_message m path tok) h"
    and "parseMethod (token_message m path tok) = m" and "parseUrl (token_message m path tok) = path"
    and "parseBearerToken (token_message m path tok) = tok"
proof -
  let ?ls = "[m @ '' '' @ path @ '' HTTP/1.1'', ''Authorization: Bearer '' @ tok]"
  have clean: "CHR 0x0D \<notin> set tok" using assms(2) by (auto simp: token_charset_def)
  have g: "list_all good_line ?ls" using assms(1) clean by (auto simp: good_line_def)
  have look: "header_lookup ?ls ''content-length'' = []" "header_lookup ?ls ''connection'' = []"
    "header_lookup ?ls ''authorization'' = '' '' @ ''Bearer '' @ tok @ []"
    using assms(1) by (auto simp: str_simps)
  have "length (join_crlf ?ls) < 2 ^ 63" using assms(1,3) by (auto simp: crlf_def kTokenLen_def)
  then have "next_frame (token_message m path tok) = Framed (join_crlf ?ls) (token_message m path tok) []"
    using next_frame_message [of ?ls "[]" "[]"] g requestContentLength_absent [OF g look(1)] by (simp add: token_message_def)
  moreover have "wantKeepAlive (token_message m path tok) (join_crlf ?ls)"
    using keep_alive_by_default [of "m @ '' '' @ path @ '' ''" "[''Authorization: Bearer '' @ tok]" "[]"] g look(2)
    by (simp add: token_message_def)
  ultimately show "\<exists>h. next_frame (token_message m path tok) = Framed h (token_message m path tok) []
      \<and> wantKeepAlive (token_message m path tok) h" by blast
  have line: "token_message m path tok = m @ '' '' @ path @ '' HTTP/1.1'' @
      (crlf @ join_crlf [''Authorization: Bearer '' @ tok] @ crlf2 @ [])"
    using request_head [of m path "[''Authorization: Bearer '' @ tok]" "[]"] by (simp add: token_message_def)
  have sp: "CHR '' '' \<notin> set path" "CHR '' '' \<notin> set m" using assms(1) by auto
  show "parseUrl (token_message m path tok) = path" unfolding line by (rule request_line(2)) (use sp in simp_all)
  show "parseMethod (token_message m path tok) = m" unfolding line by (rule request_line(1)) (use sp in simp_all)
  have ne: "tok \<noteq> []" using assms(3) by (auto simp: kTokenLen_def)
  then have "last tok \<in> set token_charset" using assms(2) by (metis last_in_set subsetD)
  then have "\<not> is_blank (last tok)" by (auto simp: token_charset_def is_blank_def)
  then show "parseBearerToken (token_message m path tok) = tok"
    unfolding token_message_def
    by (intro parseBearerToken_value [OF _ g look(3)])
      (use ne assms(3) in \<open>simp_all add: is_blank_def char_tolower_def kTokenLen_def str_simps\<close>)
qed

text \<open>What the four routes submit.\<close>

lemma credentials_submitted:
  assumes "CHR 0x22 \<notin> set u" and "CHR 0x22 \<notin> set q" and "u \<noteq> []" and "q \<noteq> []"
    and "length u \<le> kMaxUsernameLen" and "length q \<le> kMaxPasswordLen" and "\<not> stop (dbPool sh)"
    and "(path, task) \<in> {(''/register'', RegisterTask), (''/login'', LoginTask)}"
  shows "processRequests K getenv (c\<lparr>inputBuffer := post_message path (credentials_json u q)\<rparr>) sh w =
    Some (Alive (c\<lparr>inputBuffer := []\<rparr>),
          sh\<lparr>dbPool := (dbPool sh)\<lparr>tasks := tasks (dbPool sh) @ [task (sock_fd c) True u q]\<rparr>\<rparr>, w)"
proof -
  let ?r = "post_message path (credentials_json u q)"
  let ?c = "c\<lparr>inputBuffer := ?r\<rparr>" and ?p = "(dbPool sh)\<lparr>tasks := tasks (dbPool sh) @ [task (sock_fd c) True u q]\<rparr>"
  have len: "length (credentials_json u q) \<le> kMaxBodyBytes"
    using assms(5,6) by (simp add: credentials_json_def json_search_def kMaxBodyBytes_def kMaxUsernameLen_def kMaxPasswordLen_def)
  have "path \<in> {''/register'', ''/login'', ''/logout''}" using assms(8) by auto
  note r = post_message_parsed [OF this len]
  from r(1) obtain h where h: "next_frame ?r = Framed h ?r []" "wantKeepAlive ?r h" by blast
  have ok: "refuse_credentials ?r = None"
    using assms(1-6) by (simp add: refuse_credentials_def r(4) getJsonValue_username getJsonValue_password Let_def)
  note vals = r(4) getJsonValue_username [OF assms(1)] getJsonValue_password [OF assms(1,2)]
  have "handleRegister K ?r (sock_fd ?c) True (dbPool sh) w = Some (Inr ?p, w)" if "task = RegisterTask"
    using ok assms(7) that by (subst registerh.handle_submit) (simp_all add: vals pool_add_def)
  moreover have "handleLogin K ?r (sock_fd ?c) True (dbPool sh) w = Some (Inr ?p, w)" if "task = LoginTask"
    using ok assms(7) that by (subst loginh.handle_submit) (simp_all add: vals pool_add_def)
  ultimately obtain handle where "dbHandler (parseMethod ?r) (parseUrl ?r) = Some handle"
    "handle K ?r (sock_fd ?c) True (dbPool sh) w = Some (Inr ?p, w)"
    using assms(8) by (auto simp: r(2,3) dbHandler_def)
  from db_request_submitted [where handle = handle, OF h this] show ?thesis by simp
qed

lemma token_submitted:
  assumes "set tok \<subseteq> set token_charset" and "length tok = kTokenLen" and "\<not> stop (dbPool sh)"
    and "(m, path, task) \<in> {(''GET'', ''/profile'', ProfileTask), (''POST'', ''/logout'', LogoutTask)}"
  shows "processRequests K getenv (c\<lparr>inputBuffer := token_message m path tok\<rparr>) sh w =
    Some (Alive (c\<lparr>inputBuffer := []\<rparr>),
          sh\<lparr>dbPool := (dbPool sh)\<lparr>tasks := tasks (dbPool sh) @ [task (sock_fd c) True tok]\<rparr>\<rparr>, w)"
proof -
  let ?r = "token_message m path tok"
  let ?c = "c\<lparr>inputBuffer := ?r\<rparr>" and ?p = "(dbPool sh)\<lparr>tasks := tasks (dbPool sh) @ [task (sock_fd c) True tok]\<rparr>"
  have "(m, path) \<in> {(''GET'', ''/profile''), (''POST'', ''/logout'')}" using assms(4) by auto
  note r = token_message_parsed [OF this assms(1,2)]
  from r(1) obtain h where h: "next_frame ?r = Framed h ?r []" "wantKeepAlive ?r h" by blast
  have "tok \<noteq> []" using assms(2) by (auto simp: kTokenLen_def)
  then have ok: "refuse_token ?r = None" by (simp add: refuse_token_def r(4))
  have "handleProfile K ?r (sock_fd ?c) True (dbPool sh) w = Some (Inr ?p, w)" if "task = ProfileTask"
    using ok assms(3) that by (subst profileh.handle_submit) (simp_all add: r(4) pool_add_def)
  moreover have "handleLogout K ?r (sock_fd ?c) True (dbPool sh) w = Some (Inr ?p, w)" if "task = LogoutTask"
    using ok assms(3) that by (subst logouth.handle_submit) (simp_all add: r(4) pool_add_def)
  ultimately obtain handle where "dbHandler (parseMethod ?r) (parseUrl ?r) = Some handle"
    "handle K ?r (sock_fd ?c) True (dbPool sh) w = Some (Inr ?p, w)"
    using assms(4) by (auto simp: r(2,3) dbHandler_def)
  from db_request_submitted [where handle = handle, OF h this] show ?thesis by simp
qed

subsection \<open>One request through the reactor and a database thread\<close>

text \<open>
  The reactor processes the message it has read, database thread \<open>i\<close> wakes up, runs the task
  it takes from the queue and goes back to waiting.
\<close>

definition exchange ::
    "'w services \<Rightarrow> environ \<Rightarrow> nat \<Rightarrow> connection \<Rightarrow> bytes \<Rightarrow> reactor_shared \<Rightarrow> 'w db_state
     \<Rightarrow> (db_result \<times> reactor_shared \<times> 'w db_state) option" where
  "exchange S getenv i c message sh s =
     (case processRequests (sv_kernel S) getenv (c\<lparr>inputBuffer := message\<rparr>) sh (world s) of
        Some (Alive c', sh1, w1) \<Rightarrow>
          (case worker_wake i (dbPool sh1) of
             Some (Some t, p) \<Rightarrow>
               (case runDbTask S t (s\<lparr>world := w1\<rparr>) of
                  Some (r, s') \<Rightarrow> map_option (\<lambda>p'. (r, sh1\<lparr>dbPool := p'\<rparr>, s')) (worker_finish i p)
                | None \<Rightarrow> None)
           | _ \<Rightarrow> None)
      | _ \<Rightarrow> None)"

definition idle_worker :: "nat \<Rightarrow> 't thread_pool \<Rightarrow> bool" where
  "idle_worker i p \<longleftrightarrow> tasks p = [] \<and> \<not> stop p \<and> i < length (threads p) \<and> threads p ! i = Waiting"

lemma exchange_runs:
  assumes "processRequests (sv_kernel S) getenv (c\<lparr>inputBuffer := message\<rparr>) sh (world s) =
      Some (Alive c', sh\<lparr>dbPool := (dbPool sh)\<lparr>tasks := tasks (dbPool sh) @ [t]\<rparr>\<rparr>, world s)"
    and "idle_worker i (dbPool sh)" and "runDbTask S t s = Some (r, s')"
  shows "exchange S getenv i c message sh s = Some (r, sh, s')"
proof -
  have "(threads (dbPool sh))[i := Waiting] = threads (dbPool sh)"
    using assms(2) by (simp add: idle_worker_def) (metis list_update_id)
  with assms show ?thesis by (simp add: exchange_def idle_worker_def worker_wake_def worker_finish_def)
qed

end
