(* ===== verification/SystemSite.thy ===== *)
theory SystemSite
  imports SystemWork EndToEnd
begin

section \<open>A site for concrete runs of the whole server\<close>

text \<open>
  The network of \<open>ServerProperties\<close> and the databases of \<open>DbProperties\<close> side by side, and what
  clients have sent: chunks by descriptor, an empty chunk being the end of the stream. The
  contracts of both carry over.
\<close>

record site =
  st_net :: netw
  st_db :: toy
  st_inbox :: "int \<Rightarrow> bytes list"

definition on_net :: "(netw \<Rightarrow> 'r \<times> netw) \<Rightarrow> site \<Rightarrow> 'r \<times> site" where
  "on_net f w = (case f (st_net w) of (r, n) \<Rightarrow> (r, w\<lparr>st_net := n\<rparr>))"

definition on_db :: "(toy \<Rightarrow> 'r \<times> toy) \<Rightarrow> site \<Rightarrow> 'r \<times> site" where
  "on_db f w = (case f (st_db w) of (r, n) \<Rightarrow> (r, w\<lparr>st_db := n\<rparr>))"

definition site_read :: "int \<Rightarrow> nat \<Rightarrow> site \<Rightarrow> bytes sysret \<times> site" where
  "site_read fd n w =
     (case st_inbox w fd of
        [] \<Rightarrow> (Err EAGAIN, w)
      | d # ds \<Rightarrow> (Ret (filter (\<lambda>c. c \<noteq> CHR 0x00) d), w\<lparr>st_inbox := (st_inbox w)(fd := ds)\<rparr>))"

definition site_kernel :: "site kernel" where
  "site_kernel =
     \<lparr>k_write = (\<lambda>fd d. on_db (k_write toy_kernel fd d)), k_read = site_read,
      k_sendfile = (\<lambda>fd f off cnt. on_net (k_sendfile toy_epoll fd f off cnt)),
      k_epoll_ctl = (\<lambda>ep op fd ev. on_net (k_epoll_ctl toy_epoll ep op fd ev)),
      k_time = on_net (k_time toy_epoll), k_open = (\<lambda>p. on_net (k_open toy_epoll p)),
      k_fstat = (\<lambda>fd. on_net (k_fstat toy_epoll fd)),
      k_close = (\<lambda>fd w. w\<lparr>st_net := nw_close fd (st_net w)\<rparr>)\<rparr>"

definition site_net :: "site net" where
  "site_net =
     \<lparr>n_socket = on_net nw_fresh, n_setsockopt = (\<lambda>fd opt w. w), n_bind = (\<lambda>fd a w. (Ret (), w)),
      n_listen = (\<lambda>fd b w. (Ret (), w)), n_getfl = (\<lambda>fd w. (0, w)), n_setfl = (\<lambda>fd f w. w),
      n_accept = (\<lambda>lfd. on_net (n_accept toy_net lfd)),
      n_connect = (\<lambda>fd a w. (Ret (), w)), n_shutdown = (\<lambda>fd w. w\<lparr>st_net := n_shutdown toy_net fd (st_net w)\<rparr>),
      n_close = (\<lambda>fd w. w\<lparr>st_net := nw_close fd (st_net w)\<rparr>), n_inet_addr = (\<lambda>ip. 0), n_epoll_create = (\<lambda>w. (Ret (), w))\<rparr>"

definition site_mysql :: "site mysql" where
  "site_mysql =
     \<lparr>my_init = on_db (my_init toy_mysql), my_real_connect = (\<lambda>c prm. on_db (my_real_connect toy_mysql c prm)),
      my_close = (\<lambda>c w. w), my_set_charset = (\<lambda>c s w. w), my_escape = sql_esc,
      my_query = (\<lambda>c q. on_db (my_query toy_mysql c q)), my_store_result = (\<lambda>c. on_db (my_store_result toy_mysql c))\<rparr>"

definition site_redis :: "site redis" where
  "site_redis =
     \<lparr>rd_connect = (\<lambda>h p. on_db (rd_connect toy_redis h p)),
      rd_free = (\<lambda>c w. w\<lparr>st_db := rd_free toy_redis c (st_db w)\<rparr>),
      rd_command = (\<lambda>c cmd. on_db (rd_command toy_redis c cmd))\<rparr>"

definition site_services :: "site services" where
  "site_services = \<lparr>sv_kernel = site_kernel, sv_mysql = site_mysql, sv_redis = site_redis, sv_draw = on_db (sv_draw toy_services)\<rparr>"

lemma site_parts [simp]:
  "sv_kernel site_services = site_kernel" "sv_mysql site_services = site_mysql" "sv_redis site_services = site_redis"
  "sv_draw site_services = on_db (sv_draw toy_services)"
  by (simp_all add: site_services_def)

lemma on_net_iff: "on_net f w = (r, w') \<longleftrightarrow> (\<exists>n. f (st_net w) = (r, n) \<and> w' = w\<lparr>st_net := n\<rparr>)"
  by (auto simp: on_net_def split: prod.splits)

lemma on_db_iff: "on_db f w = (r, w') \<longleftrightarrow> (\<exists>x. f (st_db w) = (r, x) \<and> w' = w\<lparr>st_db := x\<rparr>)"
  by (auto simp: on_db_def split: prod.splits)

abbreviation "site_socks w \<equiv> toy_socks (st_net w)"
abbreviation "site_list w \<equiv> nw_list (st_net w)"
abbreviation "site_rows w \<equiv> toy_rows (st_db w)"
abbreviation "site_kv w \<equiv> toy_kv (st_db w)"
abbreviation "site_result w \<equiv> toy_result (st_db w)"

lemma site_read_net: "site_read fd n w = (r, w') \<Longrightarrow> st_net w' = st_net w \<and> st_db w' = st_db w"
  by (auto simp: site_read_def split: list.splits)

subsection \<open>Contracts\<close>

lemma on_net_same:
  "on_net f w = (r, w') \<Longrightarrow> (\<And>n r n'. f n = (r, n') \<Longrightarrow> same_fds toy_socks nw_list n n') \<Longrightarrow> same_fds site_socks site_list w w'"
  by (auto simp: on_net_iff same_fds_def)

lemma on_db_same: "on_db f w = (r, w') \<Longrightarrow> same_fds site_socks site_list w w'"
  by (auto simp: on_db_iff same_fds_def)

lemma site_fd_kernel: "fd_kernel site_kernel site_socks site_list"
proof -
  note K = fd_kernelD [OF toy_epoll_fds [where 'a = unit]]
  have "epoll_contract site_kernel site_list" using K(1)
    by (auto simp: epoll_contract_def site_kernel_def on_net_iff)
  moreover have "no_ctl_failure site_kernel site_list site_socks" using K(2)
    by (auto simp: no_ctl_failure_def site_kernel_def on_net_iff)
  moreover have "same_fds site_socks site_list w w'" if "site_read fd n w = (r, w')" for fd n w r w'
    using site_read_net [OF that] by (simp add: same_fds_def)
  moreover have "unused site_socks site_list fd w \<longleftrightarrow> unused toy_socks nw_list fd (st_net w)" for fd w by (simp add: unused_def)
  moreover have "closes (k_close site_kernel) site_socks site_list"
    using nw_close_closes [where 'a = unit] by (simp add: closes_def site_kernel_def)
  moreover have "k_write site_kernel fd d = on_db (k_write toy_kernel fd d)" "k_read site_kernel = site_read"
    "k_sendfile site_kernel fd f off cnt = on_net (k_sendfile toy_epoll fd f off cnt)" "k_time site_kernel = on_net (k_time toy_epoll)"
    "k_fstat site_kernel fd = on_net (k_fstat toy_epoll fd)" "k_open site_kernel path = on_net (k_open toy_epoll path)"
    for fd d f off cnt path by (simp_all add: site_kernel_def)
  moreover have "on_net (k_open toy_epoll path) w = (r, w') \<Longrightarrow> \<not> r \<ge> 0" for path w r w'
    by (auto simp: on_net_iff toy_epoll_def)
  ultimately show ?thesis
    unfolding fd_kernel_def by (auto intro: on_db_same on_net_same [OF _ K(6)] on_net_same [OF _ K(7)] on_net_same [OF _ K(8)]
        on_net_same [OF _ K(9) [THEN conjunct1]])
qed

lemma site_fd_net: "fd_net site_net site_socks site_list"
proof -
  have new: "new_socket site_socks site_list r w (w\<lparr>st_net := n\<rparr>)" if "new_socket toy_socks nw_list r (st_net w) n" for r w n
    using that by (simp add: new_socket_def unused_def same_fds_def split: sysret.splits)
  have "on_net (n_accept toy_net fd) w = (r, w') \<Longrightarrow> new_socket site_socks site_list r w w'" for fd w r w'
    using fd_netD(8) [OF toy_net_fds, THEN new] by (auto simp: on_net_iff)
  moreover have "on_net nw_fresh w = (r, w') \<Longrightarrow> new_socket site_socks site_list r w w'" for w r w'
    using nw_fresh_new [THEN new] by (auto simp: on_net_iff)
  moreover have "closes (n_close site_net) site_socks site_list"
    using nw_close_closes [where 'a = unit] by (simp add: closes_def site_net_def)
  moreover have "same_fds site_socks site_list w (w\<lparr>st_net := n_shutdown toy_net fd (st_net w)\<rparr>)" for fd w
    using fd_netD(7) [OF toy_net_fds, of "st_net w" fd] by (simp add: same_fds_def)
  ultimately show ?thesis unfolding fd_net_def by (auto simp: site_net_def)
qed

lemma site_calls: "db_calls site_services (=) site_rows site_kv site_result"
proof -
  note toy = toy_calls [unfolded db_calls_def, simplified]
  have q: "my_query site_mysql c q w = (f, w') \<Longrightarrow> \<exists>x. my_query toy_mysql c q (st_db w) = (f, x) \<and> w' = w\<lparr>st_db := x\<rparr>"
    "my_store_result site_mysql c w = (r, w') \<Longrightarrow> \<exists>x. my_store_result toy_mysql c (st_db w) = (r, x) \<and> w' = w\<lparr>st_db := x\<rparr>"
    for c q w f w' r by (simp_all add: site_mysql_def on_db_iff)
  have e: "my_escape site_mysql = sql_esc" by (simp add: site_mysql_def)
  note M0 = toy [THEN conjunct1, unfolded mysql_calls_def toy_parts(3)]
  note M = M0 [THEN conjunct1] M0 [THEN conjunct2, THEN conjunct1] M0 [THEN conjunct2, THEN conjunct2, THEN conjunct1]
    M0 [THEN conjunct2, THEN conjunct2, THEN conjunct2, THEN conjunct1]
    M0 [THEN conjunct2, THEN conjunct2, THEN conjunct2, THEN conjunct2, THEN conjunct1]
    M0 [THEN conjunct2, THEN conjunct2, THEN conjunct2, THEN conjunct2, THEN conjunct2]
  have "mysql_calls site_mysql (=) site_rows site_kv site_result"
    unfolding mysql_calls_def e
    by (intro conjI allI impI; (drule q, elim exE conjE)?) (auto simp: M(1) dest: M(2-6) [rule_format])
  moreover have "redis_contract site_redis site_kv"
  proof -
    note R = redis_contractD [OF toy [THEN conjunct2, THEN conjunct1]]
    have c: "rd_command site_redis c cmd w = (r, w') \<Longrightarrow> \<exists>x. rd_command toy_redis c cmd (st_db w) = (r, x) \<and> w' = w\<lparr>st_db := x\<rparr>"
      for c cmd w r w' by (simp add: site_redis_def on_db_iff)
    have o: "site_kv (snd (rd_connect site_redis h port w)) \<subseteq>\<^sub>m site_kv w" "site_kv (rd_free site_redis fd w) \<subseteq>\<^sub>m site_kv w" for h port w fd
      using R(1) [of h port "st_db w"] R(2) by (simp_all add: site_redis_def on_db_def split: prod.split)
    show ?thesis
      unfolding redis_contract_def
      by (intro conjI allI impI; (drule c, elim exE conjE)?) (auto simp: o dest: R(3-5))
  qed
  moreover have "quiet_calls site_services site_rows site_kv site_result"
    using toy unfolding quiet_calls_def settled_def by (simp add: site_kernel_def site_redis_def on_db_iff) (intro conjI allI impI; clarsimp; blast)
  ultimately show ?thesis by (simp add: db_calls_def)
qed

lemma site_reads: "reads_within site_kernel (- {CHR 0x00})"
  by (auto simp: reads_within_def site_kernel_def site_read_def split: list.splits)

text \<open>Clients send, hang up and wait to be accepted, and a closed descriptor may be given out again.\<close>

definition site_env :: "site \<Rightarrow> site \<Rightarrow> bool" where
  "site_env w w' \<longleftrightarrow> st_db w' = st_db w \<and> nw_socks (st_net w') = nw_socks (st_net w) \<and> nw_interest (st_net w') = nw_interest (st_net w)"

lemma site_apart: "apart site_net site_services site_socks site_list site_rows site_kv site_result site_env"
proof -
  have "open_static site_kernel path sc w = (sc', w') \<Longrightarrow> st_db w' = st_db w" for path sc w sc' w'
    by (auto simp: open_static_def site_kernel_def on_net_def split: prod.splits option.splits if_splits)
  moreover have "n_accept toy_net fd n = (r, n') \<Longrightarrow> True" for fd n r n' by simp
  ultimately have "reactor_moves site_net site_kernel (settled site_rows site_kv site_result)"
    using site_read_net unfolding reactor_moves_def kernel_moves_def
    by (auto simp: settled_def site_kernel_def site_net_def on_net_iff on_db_iff toy_kernel_def intro: map_le_trans)
  moreover have "thread_moves site_services (same_fds site_socks site_list)"
    unfolding thread_moves_def by (auto simp: same_fds_def site_kernel_def site_mysql_def site_redis_def on_db_iff)
  moreover have "site_env w w' \<Longrightarrow> settled site_rows site_kv site_result w w' \<and> same_fds site_socks site_list w w'" for w w'
    by (simp add: site_env_def settled_def same_fds_def nw_list_def fun_eq_iff)
  ultimately show ?thesis by (simp add: apart_def)
qed

subsection \<open>A run\<close>

text \<open>
  The server starts and accepts two clients, on descriptors 4 and 5. The first asks for its
  profile with a token that is not known.
\<close>

definition site_at :: "netw \<Rightarrow> site" where
  "site_at n = \<lparr>st_net = n, st_db = world toy_start, st_inbox = (\<lambda>_. [])\<rparr>"

definition site_shared :: "site \<Rightarrow> site db_shared" where
  "site_shared w = \<lparr>mysqlPool = mysqlPool toy_start, redisPool = redisPool toy_start, world = w, holder = Map.empty\<rparr>"

abbreviation "site_reach \<equiv>
  reach (system_start site_net site_services (\<lambda>_. None) (no_sockets site_socks site_list)
      (\<lambda>d. holder d = Map.empty \<and> db_inv (=) site_rows site_kv {1, 2} d))
    (system_step site_net site_services (\<lambda>_. None) (\<lambda>_. False) site_env)"

lemma site_start:
  "system_start site_net site_services (\<lambda>_. None) (no_sockets site_socks site_list)
     (\<lambda>d. holder d = Map.empty \<and> db_inv (=) site_rows site_kv {1, 2} d) (toy_server, site_shared (site_at toy_listening), Map.empty)"
proof -
  have "server_new site_net site_kernel (\<lambda>_. None) 2 (site_at toy_boot) = (Inr toy_server, site_at toy_listening)"
    by (simp add: server_new_def acceptor_new_def socket_new_def socket_bind_def socket_listen_def errif_def failed_def
      socket_setnonblocking_def enableReading_def updateChannel_def setCallback_def channel_new_def toy_run_defs
      epoll_flags upt_rec numeral_2_eq_2 epoll_new_def pool_add_def pool_new_def site_net_def site_kernel_def on_net_def site_at_def)
  moreover have "db_inv (=) site_rows site_kv {1, 2} (site_shared (site_at toy_listening))"
    using toy_threads_start by (simp add: db_threads_start_def db_inv_def site_shared_def site_at_def toy_shared_def)
  moreover have "no_sockets site_socks site_list (site_at toy_boot)"
    by (simp add: site_at_def toy_boot_def nw_list_def fun_eq_iff)
  ultimately show ?thesis
    unfolding system_start_def prod.case
    by (intro conjI exI [of _ 2] exI [of _ "site_at toy_boot"]) (simp_all add: site_shared_def)
qed

lemma site_accepts:
  assumes "listenFd s = 3" and "length (subQuit s) = 2" and "map_of (connections s) 4 = None"
    and "nw_next (st_net w) = 4" and "nw_waiting (st_net w) = 1" and "nw_time (st_net w) = 100"
    and "4 \<notin> set (nw_socks (st_net w))" and "4 \<notin> (snd \<circ> fst) ` set (nw_interest (st_net w))"
  shows "accept_event site_net site_kernel (s, w) =
    Some (s\<lparr>connections := map_insert 4 (toy_connection (nextAddr s) 0 4) (connections s), nextAddr := nextAddr s + 1\<rparr>,
      w\<lparr>st_net := (st_net w)\<lparr>nw_socks := 4 # nw_socks (st_net w), nw_next := 5, nw_waiting := 0,
        nw_interest := ((0, 4), \<lparr>ev_events = 0x80002003, ev_ptr = nextAddr s\<rparr>) # nw_interest (st_net w)\<rparr>\<rparr>)"
proof -
  have "map_of (nw_interest (st_net w)) (0, 4) = None" "subQuit s \<noteq> []"
    using assms(2,8) by (force simp: map_of_eq_None_iff)+
  moreover have "\<forall>e \<in> set (nw_interest (st_net w)). snd (fst e) \<noteq> 4" using assms(8) by force
  ultimately have "newConnection site_net site_kernel 4 (s, w\<lparr>st_net := (st_net w)\<lparr>nw_socks := 4 # nw_socks (st_net w), nw_next := 5, nw_waiting := 0\<rparr>\<rparr>) =
      Some (s\<lparr>connections := map_insert 4 (toy_connection (nextAddr s) 0 4) (connections s), nextAddr := nextAddr s + 1\<rparr>,
      w\<lparr>st_net := (st_net w)\<lparr>nw_socks := 4 # nw_socks (st_net w), nw_next := 5, nw_waiting := 0,
        nw_interest := ((0, 4), \<lparr>ev_events = 0x80002003, ev_ptr = nextAddr s\<rparr>) # nw_interest (st_net w)\<rparr>\<rparr>)"
    using assms(2,3,6)
    by (simp add: newConnection_def connection_new_def enableReadingET_def updateChannel_def setCallback_def setWriteCallback_def
        channel_new_def toy_connection_def toy_channel_def site_kernel_def on_net_def toy_epoll_def nw_list_def epoll_flags)
  moreover have "acceptConnection site_net (newConnection site_net site_kernel) 3 (s', v) = Some (s', v)" if "nw_waiting (st_net v) = 0" for s' v
    using that by (subst acceptConnection.simps) (simp add: site_net_def on_net_def toy_net_def)
  moreover have "n_accept site_net 3 w = (Ret 4, w\<lparr>st_net := (st_net w)\<lparr>nw_socks := 4 # nw_socks (st_net w), nw_next := 5, nw_waiting := 0\<rparr>\<rparr>)"
    using assms(4,5,7) \<open>\<forall>e \<in> set (nw_interest (st_net w)). snd (fst e) \<noteq> 4\<close>
    by (simp add: site_net_def on_net_def toy_net_def nw_fresh_def)
  moreover have "socket_setNoDelay site_net fd (socket_setnonblocking site_net fd v) = v" for fd v
    by (simp add: socket_setNoDelay_def socket_setnonblocking_def site_net_def)
  ultimately show ?thesis
    using assms(1) by (simp add: accept_event_def, subst acceptConnection.simps) simp
qed

definition a_token :: bytes where
  "a_token = replicate 32 (CHR ''a'')"

definition profile_message :: bytes where
  "profile_message = token_message ''GET'' ''/profile'' a_token"

lemma profile_message_bytes: "filter (\<lambda>c. c \<noteq> CHR 0x00) profile_message = profile_message" "profile_message \<noteq> []"
proof -
  have "CHR 0x00 \<notin> set profile_message"
    by (simp add: profile_message_def token_message_def http_message_def a_token_def crlf_def crlf2_def)
  then show "filter (\<lambda>c. c \<noteq> CHR 0x00) profile_message = profile_message" by (simp add: filter_id_conv) metis
  show "profile_message \<noteq> []" by (simp add: profile_message_def token_message_def http_message_def crlf_def crlf2_def)
qed

lemma site_reads_message:
  assumes "sock_fd c = 4" and "inputBuffer c = []" and "st_inbox w 4 = [profile_message]"
  shows "read_loop site_kernel c w = Some (True, c\<lparr>inputBuffer := profile_message\<rparr>, w\<lparr>st_inbox := (st_inbox w)(4 := [])\<rparr>)"
proof -
  let ?w = "w\<lparr>st_inbox := (st_inbox w)(4 := [])\<rparr>"
  have "read_loop site_kernel c w = read_loop site_kernel (c\<lparr>inputBuffer := profile_message\<rparr>) ?w"
    using assms profile_message_bytes by (subst read_loop.simps) (simp add: site_kernel_def site_read_def)
  also have "\<dots> = Some (True, c\<lparr>inputBuffer := profile_message\<rparr>, ?w)"
    using assms(1) by (subst read_loop.simps) (simp add: site_kernel_def site_read_def)
  finally show ?thesis .
qed

text \<open>The event of a client on descriptor 4 that sent the message.\<close>

lemma site_submits:
  assumes "map_of (connections s) 4 = Some (toy_connection a 0 4)" and "st_inbox w 4 = [profile_message]"
    and "nw_time (st_net w) = 100" and "\<not> stop (dbPool (serverShared s))"
  shows "connection_event site_net site_kernel (\<lambda>_. None) 4 EPOLLIN (s, w) =
    Some (with_pool (s\<lparr>connections := map_insert 4 ((toy_connection a 0 4)\<lparr>conn_channel := setRevents (toy_channel a 0 4) EPOLLIN\<rparr>) (connections s)\<rparr>)
        ((dbPool (serverShared s))\<lparr>tasks := tasks (dbPool (serverShared s)) @ [ProfileTask 4 True a_token]\<rparr>),
      w\<lparr>st_inbox := (st_inbox w)(4 := [])\<rparr>)"
proof -
  let ?c = "(toy_connection a 0 4)\<lparr>conn_channel := setRevents (toy_channel a 0 4) EPOLLIN\<rparr>"
  let ?w = "w\<lparr>st_inbox := (st_inbox w)(4 := [])\<rparr>"
  have r: "read_loop site_kernel ?c w = Some (True, ?c\<lparr>inputBuffer := profile_message\<rparr>, ?w)"
    using assms(2) by (intro site_reads_message) (simp_all add: toy_connection_def)
  have "set a_token \<subseteq> set token_charset" "length a_token = kTokenLen"
    by (simp_all add: a_token_def token_charset_def kTokenLen_def)
  from token_submitted [OF this, of "serverShared s" "''GET''" "''/profile''" ProfileTask site_kernel "\<lambda>_. None" ?c ?w] assms(4)
  have p: "processRequests site_kernel (\<lambda>_. None) (?c\<lparr>inputBuffer := profile_message\<rparr>) (serverShared s) ?w =
      Some (Alive ?c, (serverShared s)\<lparr>dbPool := (dbPool (serverShared s))\<lparr>tasks := tasks (dbPool (serverShared s)) @ [ProfileTask 4 True a_token]\<rparr>\<rparr>, ?w)"
    by (simp add: profile_message_def toy_connection_def)
  have t: "k_time site_kernel w = (100, w)" using assms(3) by (simp add: site_kernel_def on_net_def toy_epoll_def)
  have "?c\<lparr>lastActiveSec := 100\<rparr> = ?c" by (simp add: toy_connection_def)
  with t r p have h: "handleMessage site_kernel (\<lambda>_. None) ?c (serverShared s) w =
      Some (Alive ?c, (serverShared s)\<lparr>dbPool := (dbPool (serverShared s))\<lparr>tasks := tasks (dbPool (serverShared s)) @ [ProfileTask 4 True a_token]\<rparr>\<rparr>, ?w)"
    by (simp add: handleMessage_def)
  have "conn_channel (toy_connection a 0 4) = toy_channel a 0 4"
    "handleEvent (setRevents (toy_channel a 0 4) EPOLLIN) = Some HandleMessage"
    by (simp_all add: toy_connection_def handleEvent_def setRevents_def toy_channel_def epoll_flags)
  with assms(1) h show ?thesis by (simp add: connection_event_def Let_def with_pool_def)
qed

text \<open>The client hangs up.\<close>

lemma site_hangs_up:
  assumes "map_of (connections s) 4 = Some c" and "sock_fd c = 4" and "read_callback (conn_channel c) = Some HandleMessage"
    and "st_inbox w 4 = [[]]"
  shows "connection_event site_net site_kernel (\<lambda>_. None) 4 EPOLLIN (s, w) =
    Some (s\<lparr>connections := map_erase 4 (connections s)\<rparr>, w\<lparr>st_net := nw_close 4 (st_net w), st_inbox := (st_inbox w)(4 := [])\<rparr>)"
proof -
  have "handleEvent (setRevents (conn_channel c) EPOLLIN) = Some HandleMessage"
    using assms(3) by (simp add: handleEvent_def setRevents_def epoll_flags)
  moreover obtain now where "k_time site_kernel w = (now, w)" by (simp add: site_kernel_def on_net_def toy_epoll_def)
  moreover have "read_loop site_kernel x w = Some (False, x, w\<lparr>st_inbox := (st_inbox w)(4 := [])\<rparr>)" if "sock_fd x = 4" for x
    using assms(4) that by (subst read_loop.simps) (simp add: site_kernel_def site_read_def)
  ultimately have "handleEvent (setRevents (conn_channel c) EPOLLIN) = Some HandleMessage"
    "handleMessage site_kernel (\<lambda>_. None) (c\<lparr>conn_channel := setRevents (conn_channel c) EPOLLIN\<rparr>) (serverShared s) w =
      Some (Destroyed, serverShared s, w\<lparr>st_inbox := (st_inbox w)(4 := [])\<rparr>)"
    using assms(2) by (simp_all add: handleMessage_def)
  with assms(1) show ?thesis
    by (simp add: connection_event_def Let_def deleteConnection_def socket_delete_def site_net_def)
qed

text \<open>The answer to an unknown token.\<close>

lemma site_refuses:
  assumes "redis_idle (redisPool d) = [c]" and "site_kv (world d) = Map.empty"
  shows "\<exists>d'. run (task_proc site_services i (ProfileTask 4 True a_token)) d = Some (Answered 401 (json_error ''invalid or expired token''), d')
    \<and> toy_sent (st_db (world d')) 4 = toy_sent (st_db (world d)) 4
        @ buildHttpResponse 401 ''application/json'' (json_error ''invalid or expired token'') True"
proof -
  let ?b = "json_error ''invalid or expired token''"
  let ?d = "buildHttpResponse 401 ''application/json'' ?b True"
  have "?d \<noteq> []" by (simp add: buildHttpResponse_def)
  then have "send_loop site_kernel 4 ?d 0 w = Some (Drained, length ?d, w\<lparr>st_db := (st_db w)\<lparr>toy_sent := (toy_sent (st_db w))(4 := toy_sent (st_db w) 4 @ ?d)\<rparr>\<rparr>)" for w
    by (subst send_loop.simps, subst send_loop.simps) (simp add: site_kernel_def on_db_def toy_kernel_def)
  then have "reply site_services 4 True 401 ?b w =
      Some (Answered 401 ?b, w\<lparr>st_db := (st_db w)\<lparr>toy_sent := (toy_sent (st_db w))(4 := toy_sent (st_db w) 4 @ ?d)\<rparr>\<rparr>)" for w
    by (simp add: reply_def sendJson_def sendHttpResponse_def)
  with assms have "\<exists>s'. runDbTask site_services (ProfileTask 4 True a_token) (erase d) = Some (Answered 401 ?b, s')
      \<and> toy_sent (st_db (world s')) 4 = toy_sent (st_db (world d)) 4 @ ?d"
    by (simp add: runDbTask_def profileWork_def redis_get_def redis_getConn_def redis_releaseConn_def site_redis_def on_db_def toy_redis_def)
  with run_task_proc [of site_services i "ProfileTask 4 True a_token" d] show ?thesis
    by (cases "run (task_proc site_services i (ProfileTask 4 True a_token)) d") auto
qed

end
