(* ===== verification/System.thy ===== *)
theory System
  imports SystemSite
begin

section \<open>Properties of the whole server\<close>

text \<open>
  What holds of reactors and database threads together, from the bytes on the network to the
  rows of the users table, and where their interleaving goes wrong.
\<close>

subsection \<open>A client that leaves before it is answered\<close>

text \<open>
  A client on descriptor 4 asks for its profile and a database thread takes the task
  (\<open>left_server\<close>). It hangs up before the answer, the next client gets its descriptor
  (\<open>next_server\<close>).
\<close>

abbreviation "profile_task \<equiv> ProfileTask 4 True a_token"

definition asked_pool :: "db_task thread_pool" where
  "asked_pool = (pool_new kDbThreads)\<lparr>threads := (replicate kDbThreads Waiting)[0 := Running profile_task]\<rparr>"

definition left_server :: server where
  "left_server = with_pool (toy_server\<lparr>connections := [(4, (toy_connection 1 0 4)\<lparr>conn_channel := setRevents (toy_channel 1 0 4) EPOLLIN\<rparr>)],
     nextAddr := 2\<rparr>) asked_pool"

definition left_net :: netw where
  "left_net = toy_listening\<lparr>nw_socks := [4, 3], nw_next := 5, nw_waiting := 0,
     nw_interest := ((0, 4), \<lparr>ev_events = 0x80002003, ev_ptr = 1\<rparr>) # nw_interest toy_listening\<rparr>"

definition next_server :: server where
  "next_server = left_server\<lparr>connections := [(4, toy_connection 2 0 4)], nextAddr := 3\<rparr>"

definition next_net :: netw where
  "next_net = left_net\<lparr>nw_interest := ((0, 4), \<lparr>ev_events = 0x80002003, ev_ptr = 2\<rparr>) # nw_interest toy_listening\<rparr>"

abbreviation "asking \<equiv> [0 \<mapsto> (profile_task, task_proc site_services 0 profile_task)]"

lemma shared_world [simp]: "(site_shared w)\<lparr>world := w'\<rparr> = site_shared w'" "world (site_shared w) = w"
  by (simp_all add: site_shared_def)

lemma site_env_steps:
  assumes "site_reach (s, site_shared w, ts)" and "st_db w' = st_db w" and "nw_socks (st_net w') = nw_socks (st_net w)"
    and "nw_interest (st_net w') = nw_interest (st_net w)"
  shows "site_reach (s, site_shared w', ts)"
proof -
  have "system_step site_net site_services (\<lambda>_. None) (\<lambda>_. False) site_env (s, site_shared w, ts) (s, (site_shared w)\<lparr>world := w'\<rparr>, ts)"
    using assms(2-4) by (intro sys_world) (simp add: site_env_def)
  with assms(1) show ?thesis by (auto intro: reach_step)
qed

lemma site_accept_steps:
  assumes "site_reach (s, site_shared w, ts)" and "accept_event site_net site_kernel (s, w) = Some (s', w')"
  shows "site_reach (s', site_shared w', ts)"
  using reach_step [OF assms(1) sys_accept [where d = "site_shared w"]] assms(2) by simp

lemma site_event_steps:
  assumes "site_reach (s, site_shared w, ts)" and "connection_event site_net site_kernel (\<lambda>_. None) fd ev (s, w) = Some (s', w')"
  shows "site_reach (s', site_shared w', ts)"
  using reach_step [OF assms(1) sys_event [where d = "site_shared w"]] assms(2) by simp

lemma client_asked: "site_reach (left_server, site_shared (site_at left_net), asking)"
proof -
  let ?n0 = "toy_listening\<lparr>nw_waiting := 1\<rparr>" and ?s1 = "toy_server\<lparr>connections := [(4, toy_connection 1 0 4)], nextAddr := 2\<rparr>"
  let ?s2 = "with_pool (toy_server\<lparr>connections := [(4, (toy_connection 1 0 4)\<lparr>conn_channel := setRevents (toy_channel 1 0 4) EPOLLIN\<rparr>)],
     nextAddr := 2\<rparr>) ((pool_new kDbThreads)\<lparr>tasks := [profile_task]\<rparr>)"
  have "site_reach (toy_server, site_shared (site_at toy_listening), Map.empty)" by (rule reach_init) (rule site_start)
  then have r0: "site_reach (toy_server, site_shared (site_at ?n0), Map.empty)" by (rule site_env_steps) (simp_all add: site_at_def)
  have "accept_event site_net site_kernel (toy_server, site_at ?n0) = Some (?s1, site_at left_net)"
    by (subst site_accepts) (simp_all add: site_at_def toy_run_defs left_net_def)
  from site_env_steps [OF site_accept_steps [OF r0 this], of "(site_at left_net)\<lparr>st_inbox := (\<lambda>_. [])(4 := [profile_message])\<rparr>"]
  have r1: "site_reach (?s1, site_shared ((site_at left_net)\<lparr>st_inbox := (\<lambda>_. [])(4 := [profile_message])\<rparr>), Map.empty)" by simp
  have "connection_event site_net site_kernel (\<lambda>_. None) 4 EPOLLIN (?s1, (site_at left_net)\<lparr>st_inbox := (\<lambda>_. [])(4 := [profile_message])\<rparr>) =
      Some (?s2, site_at left_net)"
    by (subst site_submits [where a = 1]) (simp_all add: site_at_def left_net_def toy_listening_def toy_boot_def toy_server_def pool_new_def with_pool_def fun_eq_iff)
  from site_event_steps [OF r1 this] have r2: "site_reach (?s2, site_shared (site_at left_net), Map.empty)" .
  have "worker_wake 0 (dbPool (serverShared ?s2)) = Some (Some profile_task, asked_pool)"
    by (simp add: worker_wake_def with_pool_def asked_pool_def pool_new_def kDbThreads_def)
  then have "system_step site_net site_services (\<lambda>_. None) (\<lambda>_. False) site_env
      (?s2, site_shared (site_at left_net), Map.empty) (with_pool ?s2 asked_pool, site_shared (site_at left_net), asking)" by (rule sys_wake)
  with r2 have "site_reach (with_pool ?s2 asked_pool, site_shared (site_at left_net), asking)" by (rule reach_step)
  then show ?thesis by (simp add: left_server_def with_pool_def)
qed

lemma next_client: "site_reach (next_server, site_shared (site_at next_net), asking)"
proof -
  let ?w = "(site_at left_net)\<lparr>st_inbox := (\<lambda>_. [])(4 := [[]])\<rparr>"
  let ?s = "left_server\<lparr>connections := []\<rparr>" and ?n = "left_net\<lparr>nw_socks := [3], nw_interest := nw_interest toy_listening\<rparr>"
  have "site_reach (left_server, site_shared ?w, asking)" by (rule site_env_steps [OF client_asked]) simp_all
  moreover have "connection_event site_net site_kernel (\<lambda>_. None) 4 EPOLLIN (left_server, ?w) = Some (?s, site_at ?n)"
    by (subst site_hangs_up [where c = "(toy_connection 1 0 4)\<lparr>conn_channel := setRevents (toy_channel 1 0 4) EPOLLIN\<rparr>"]) (simp_all add: left_server_def with_pool_def toy_connection_def toy_channel_def setRevents_def
        site_at_def nw_close_def left_net_def toy_listening_def fun_eq_iff)
  ultimately have "site_reach (?s, site_shared (site_at ?n), asking)" by (rule site_event_steps)
  then have "site_reach (?s, site_shared (site_at (?n\<lparr>nw_next := 4, nw_waiting := 1\<rparr>)), asking)"
    by (rule site_env_steps) (simp_all add: site_at_def)
  moreover have "accept_event site_net site_kernel (?s, site_at (?n\<lparr>nw_next := 4, nw_waiting := 1\<rparr>)) = Some (next_server, site_at next_net)"
    by (subst site_accepts) (simp_all add: site_at_def left_server_def next_server_def next_net_def left_net_def with_pool_def toy_run_defs)
  ultimately show ?thesis by (rule site_accept_steps)
qed

text \<open>
  The answer goes to the descriptor that the task captured: the second client, which has sent
  nothing, is sent the answer to the first.
\<close>

lemma next_client_answered:
  "\<exists>d. site_reach (next_server, d, [0 \<mapsto> (profile_task, Done (Answered 401 (json_error ''invalid or expired token'')))])
    \<and> toy_sent (st_db (world d)) 4 = buildHttpResponse 401 ''application/json'' (json_error ''invalid or expired token'') True"
proof -
  have "redis_idle (redisPool (site_shared (site_at next_net))) = [7]" "site_kv (world (site_shared (site_at next_net))) = Map.empty"
    by (simp_all add: site_shared_def site_at_def toy_start_def)
  from site_refuses [OF this, of 0] obtain d where d:
    "run (task_proc site_services 0 profile_task) (site_shared (site_at next_net)) = Some (Answered 401 (json_error ''invalid or expired token''), d)"
    "toy_sent (st_db (world d)) 4 = buildHttpResponse 401 ''application/json'' (json_error ''invalid or expired token'') True"
    by (auto simp: site_at_def toy_start_def)
  from system_runs [OF d(1) next_client, of 0 profile_task] d(2) show ?thesis by auto
qed

lemma answer_reaches_other_client:
  "\<exists>d ts. site_reach (next_server, site_shared (site_at next_net), asking) \<and> site_reach (next_server, d, ts)
    \<and> connections next_server = [(4, toy_connection 2 0 4)] \<and> inputBuffer (toy_connection 2 0 4) = []
    \<and> toy_sent (st_db (site_at next_net)) 4 = []
    \<and> toy_sent (st_db (world d)) 4 = buildHttpResponse 401 ''application/json'' (json_error ''invalid or expired token'') True"
  using next_client_answered next_client by (auto simp: next_server_def toy_connection_def site_at_def toy_start_def)

text \<open>
  \<^verbatim>\<open>dbPool_\<close> is the last member of \<^verbatim>\<open>Server\<close>, so it is destroyed first, while the sub reactors
  still run their last turn: a database request that arrives then is submitted to a stopped
  pool, and the exception leaves the loop of the sub reactor.
\<close>

lemma request_during_shutdown_throws:
  "\<exists>c' sh w'. handleMessage site_kernel (\<lambda>_. None) (toy_connection 1 0 4) (serverShared (server_stop_pools left_server))
     ((site_at left_net)\<lparr>st_inbox := (\<lambda>_. [])(4 := [profile_message])\<rparr>) = Some (Threw c', sh, w')"
proof -
  let ?c = "toy_connection 1 0 4" and ?sh = "serverShared (server_stop_pools left_server)" and ?w = "site_at left_net"
  have r: "read_loop site_kernel ?c (?w\<lparr>st_inbox := (\<lambda>_. [])(4 := [profile_message])\<rparr>) =
      Some (True, ?c\<lparr>inputBuffer := profile_message\<rparr>, ?w\<lparr>st_inbox := ((\<lambda>_. [])(4 := [profile_message]))(4 := [])\<rparr>)"
    by (subst site_reads_message) (simp_all add: toy_connection_def)
  have tok: "set a_token \<subseteq> set token_charset" "length a_token = kTokenLen" "a_token \<noteq> []"
    by (simp_all add: a_token_def token_charset_def kTokenLen_def)
  note m = token_message_parsed [OF _ tok(1,2), of "''GET''" "''/profile''", folded profile_message_def, simplified]
  from m(1) obtain h where h: "next_frame profile_message = Framed h profile_message []" by blast
  have "handleProfile site_kernel profile_message 4 ka (dbPool ?sh) w = Some (Inl EnqueueOnStopped, w)" for ka w
    using tok(3) by (simp add: handleProfile_def m(4) pool_add_def server_stop_pools_def pool_stop_def)
  then have s: "serveRequest site_kernel (\<lambda>_. None) h profile_message (?c\<lparr>inputBuffer := []\<rparr>) ?sh w = Some (Threw (?c\<lparr>inputBuffer := []\<rparr>), ?sh, w)" for w
    by (simp add: serveRequest_def admit_def kRateLimitQps_def m(2,3) dbHandler_def toy_connection_def)
  have "processRequests site_kernel (\<lambda>_. None) (?c\<lparr>inputBuffer := profile_message\<rparr>) ?sh w = Some (Threw (?c\<lparr>inputBuffer := []\<rparr>), ?sh, w)" for w
    by (subst processRequests_step) (simp add: h s [unfolded One_nat_def])
  moreover have "?c\<lparr>lastActiveSec := 100\<rparr> = ?c" by (simp add: toy_connection_def)
  moreover have "k_time site_kernel (?w\<lparr>st_inbox := b\<rparr>) = (100, ?w\<lparr>st_inbox := b\<rparr>)" for b
    by (simp add: site_kernel_def on_net_def toy_epoll_def site_at_def left_net_def toy_listening_def toy_boot_def)
  ultimately show ?thesis using r by (auto simp: handleMessage_def)
qed

subsection \<open>An event before the connection is in the table\<close>

text \<open>
  \<open>newConnection\<close> in the two parts between which a sub reactor may run: the constructor
  registers the channel with epoll, the insertion into the table takes the lock afterwards.
\<close>

definition construct_connection :: "'w kernel \<Rightarrow> int \<Rightarrow> server \<times> 'w \<Rightarrow> connection \<times> server \<times> 'w" where
  "construct_connection K fd sw =
     (case sw of (s, w) \<Rightarrow>
        (case connection_new K (nextAddr s) (nat (fd mod int (length (subQuit s)))) fd w of
           (conn, w1) \<Rightarrow> (conn, s\<lparr>nextAddr := nextAddr s + 1\<rparr>, w1)))"

definition insert_connection :: "'w net \<Rightarrow> int \<Rightarrow> connection \<Rightarrow> server \<times> 'w \<Rightarrow> server \<times> 'w" where
  "insert_connection N fd conn sw =
     (case sw of (s, w) \<Rightarrow>
        (s\<lparr>connections := map_insert fd conn (connections s)\<rparr>,
         if map_of (connections s) fd = None then w else socket_delete N fd w))"

lemma newConnection_parts:
  assumes "fd \<noteq> -1" and "subQuit s \<noteq> []"
  shows "newConnection N K fd (s, w) = (case construct_connection K fd (s, w) of (conn, sw) \<Rightarrow> Some (insert_connection N fd conn sw))"
  using assms by (cases "connection_new K (nextAddr s) (nat (fd mod int (length (subQuit s)))) fd w")
    (simp add: newConnection_def construct_connection_def insert_connection_def)

text \<open>
  A client that connects and hangs up at once: its end of stream is read between the two
  parts, \<open>deleteConnection\<close> finds nothing to erase, and the connection is then put into the
  table, its socket open and its last event consumed.
\<close>

lemma early_end_of_stream_lost:
  assumes "fd \<noteq> -1" and "map_of (connections s) fd = None" and "construct_connection K fd (s, w) = (conn, s1, w1)"
    and "handleMessage K getenv conn (serverShared s1) w1 = Some (Destroyed, sh, w2)"
    and "deleteConnection N fd (s1\<lparr>serverShared := sh\<rparr>, w2) = (s3, w3)" and "insert_connection N fd conn (s3, w3) = (s4, w4)"
  shows "map_of (connections s4) fd = Some conn \<and> w4 = w2"
proof -
  have "map_of (connections s1) fd = None" using assms(2,3) by (auto simp: construct_connection_def split: prod.splits)
  with assms(1,5) have "s3 = s1\<lparr>serverShared := sh\<rparr>" "w3 = w2" by (simp_all add: deleteConnection_def)
  with assms(6) \<open>map_of (connections s1) fd = None\<close> show ?thesis by (auto simp: insert_connection_def)
qed

subsection \<open>Properties\<close>

text \<open>
  C18: no input from the network overruns a buffer. Whatever bytes clients send, in whatever
  pieces and on however many connections, and however reactors and database threads
  interleave: every task a database thread runs passed the length checks, it is the task its
  worker took from the queue, and it never writes past the buffers it escapes its strings
  into, nor does an exception leave it.
\<close>

theorem network_input_never_overruns:
  assumes "\<forall>x. length (my_escape (sv_mysql S) x) \<le> 2 * length x"
    and "reach (system_start N S getenv boots shares) (system_step N S getenv g env) (s, d, ts)"
    and "ts i = Some (t, p)"
  shows "task_fits t \<and> threads (dbPool (serverShared s)) ! i = Running t \<and> p \<noteq> Done Overrun \<and> p \<noteq> Done Thrown"
proof -
  have "reads_within (sv_kernel S) UNIV" by (simp add: reads_within_def)
  with syswork.reach_inv [OF assms(2)] have "work_inv S UNIV (s, d, ts)" by blast
  then have "worker_ok S UNIV (threads (dbPool (serverShared s))) i (ts i)" by (simp add: work_inv_def)
  with assms(3) have w: "threads (dbPool (serverShared s)) ! i = Running t" "task_fits t" "residual (task_proc S i t) p"
    by (simp_all add: worker_ok_def task_ok_def)
  have "ends sound_result p" using residual_ends [OF w(3)] task_ends [OF _ w(2)] assms(1) by blast
  with w show ?thesis by (auto simp: sound_result_def)
qed

theorem network_input_never_overruns_witness:
  "task_fits profile_task \<and> threads (dbPool (serverShared left_server)) ! 0 = Running profile_task"
proof -
  have "\<forall>x. length (my_escape (sv_mysql site_services) x) \<le> 2 * length x" using sql_esc_props by (simp add: site_mysql_def)
  from network_input_never_overruns [OF this client_asked, of 0] show ?thesis by simp
qed

text \<open>
  C2: the whole server is sound. With reactors and database threads interleaved in any way
  and clients that send no NUL bytes: the connection table holds exactly the open sockets of
  the server; every MySQL connection is idle or held by one thread; names are unique and
  every session names a registered user; and every finished task is right: a login answered
  200 presented the password of its user, a registration answered 200 is in the table, a
  profile names a registered user.
\<close>

theorem system_sound:
  assumes "fd_kernel (sv_kernel S) socks interest" and "fd_net N socks interest" and "db_calls S same rows kv answer"
    and "apart N S socks interest rows kv answer env" and "reads_within (sv_kernel S) A" and "CHR 0x00 \<notin> A"
    and "reach (system_start N S getenv (no_sockets socks interest) (\<lambda>d. holder d = Map.empty \<and> db_inv same rows kv C d))
      (system_step N S getenv g env) (s, d, ts)"
  shows "map_sorted (connections s) \<and> socks (world d) = insert (listenFd s) (fst ` set (connections s))
    \<and> distinct (mysql_idle (mysqlPool d)) \<and> set (mysql_idle (mysqlPool d)) \<union> dom (holder d) = C
    \<and> set (mysql_idle (mysqlPool d)) \<inter> dom (holder d) = {}
    \<and> unique_names same (rows (world d)) \<and> sessions_named same (rows (world d)) (kv (world d))
    \<and> (\<forall>i t r. ts i = Some (t, Done r) \<longrightarrow> task_post same t (rows (world d)) r \<and> r \<noteq> Overrun \<and> r \<noteq> Thrown)"
proof -
  have v: "work_inv S A (s, d, ts)" "seen_apart N S getenv g socks interest same rows kv answer C (s, d, ts)"
    using sysview.reach_inv [OF assms(7)] assms(4,5,6) by blast+
  then have srv: "server_inv socks interest (s, world d)" and ok: "db_threads_ok S same rows kv answer C (d, ts)"
    using reachable_inv [OF assms(1,2)] dbcs.reach_inv assms(3) unfolding seen_apart_def by fast+
  have "task_post same t (rows (world d)) r \<and> r \<noteq> Overrun \<and> r \<noteq> Thrown" if r: "ts i = Some (t, Done r)" for i t r
  proof -
    have "worker_ok S A (threads (dbPool (serverShared s))) i (ts i)" using v(1) by (simp add: work_inv_def)
    with r have "task_fits t" by (simp add: worker_ok_def task_ok_def)
    with dbts.finished [OF ok r] show ?thesis by (simp add: task_done_def)
  qed
  moreover have "map_sorted (connections s)" "socks (world d) = insert (listenFd s) (fst ` set (connections s))"
    using srv by (simp_all add: server_rel_def table_okD(1) dom_live)
  ultimately show ?thesis using threads_okD(1) [OF ok] by (simp add: db_inv_def)
qed

theorem system_sound_witness:
  "map_sorted (connections next_server) \<and> toy_socks next_net = {3, 4}
    \<and> set (mysql_idle (mysqlPool (site_shared (site_at next_net)))) \<union> dom (holder (site_shared (site_at next_net))) = {1, 2}"
proof -
  have "CHR 0x00 \<notin> - {CHR 0x00}" by simp
  from system_sound [OF _ site_fd_net site_calls site_apart _ this next_client] show ?thesis
    using site_fd_kernel site_reads by (simp add: next_server_def left_server_def with_pool_def toy_server_def site_at_def)
qed

end
