(* ===== verification/Answers.thy ===== *)
theory Answers
  imports System
begin

section \<open>The shape of the answers\<close>

text \<open>
  A reader of JSON objects with string members, and what it makes of the bodies that the
  database tasks answer with: every answer is an object with the members its status promises.
\<close>

subsection \<open>JSON objects\<close>

definition expect :: "char \<Rightarrow> bytes \<Rightarrow> bytes option" where
  "expect c s = (case s of [] \<Rightarrow> None | x # r \<Rightarrow> if x = c then Some r else None)"

text \<open>A member: a name, a colon and a string.\<close>

definition json_member :: "bytes \<Rightarrow> ((bytes \<times> bytes) \<times> bytes) option" where
  "json_member s =
     Option.bind (expect (CHR 0x22) s) (\<lambda>s1.
     Option.bind (json_read s1) (\<lambda>(name, s2).
     Option.bind (expect (CHR '':'') s2) (\<lambda>s3.
     Option.bind (expect (CHR 0x22) s3) (\<lambda>s4.
     Option.bind (json_read s4) (\<lambda>(v, s5). Some ((name, v), s5))))))"

text \<open>Every member takes at least one character, so the length of the text bounds their number.\<close>

primrec json_members :: "nat \<Rightarrow> bytes \<Rightarrow> (bytes \<times> bytes) list option" where
  "json_members 0 s = None"
| "json_members (Suc n) s =
     Option.bind (json_member s) (\<lambda>(m, r).
       if r = ''}'' then Some [m]
       else Option.bind (expect (CHR '','') r) (\<lambda>r1. map_option ((#) m) (json_members n r1)))"

definition json_object :: "bytes \<Rightarrow> (bytes \<times> bytes) list option" where
  "json_object s = Option.bind (expect (CHR ''{'') s) (json_members (length s))"

text \<open>Text without quotes, backslashes and control characters stands for itself.\<close>

definition plain :: "bytes \<Rightarrow> bool" where
  "plain s \<longleftrightarrow> list_all (\<lambda>c. c \<noteq> CHR 0x22 \<and> c \<noteq> CHR 0x5C \<and> (of_char c :: nat) \<ge> 0x20) s"

lemma json_read_plain: "plain s \<Longrightarrow> json_read (s @ CHR 0x22 # r) = Some (s, r)"
  by (induction s) (auto simp: plain_def)

lemma json_member_read:
  assumes "plain name" and "json_read (text @ CHR 0x22 # r) = Some (v, r)"
  shows "json_member (CHR 0x22 # name @ CHR 0x22 # CHR '':'' # CHR 0x22 # text @ CHR 0x22 # r) = Some ((name, v), r)"
  using json_read_plain [OF assms(1)] assms(2) by (simp add: json_member_def expect_def)

lemma json_object_one:
  assumes "plain name" and "json_read (text @ CHR 0x22 # ''}'') = Some (v, ''}'')"
  shows "json_object (CHR ''{'' # CHR 0x22 # name @ CHR 0x22 # CHR '':'' # CHR 0x22 # text @ CHR 0x22 # ''}'') = Some [(name, v)]"
  using json_member_read [OF assms] by (simp add: json_object_def expect_def)

subsection \<open>Bodies\<close>

lemma plain_names: "plain ''error''" "plain ''message''" "plain ''token''" "plain ''username''" "plain ''login success''"
  by (simp_all add: plain_def)

lemma json_bodies:
  "plain msg \<Longrightarrow> json_object (json_error msg) = Some [(''error'', msg)]"
  "plain msg \<Longrightarrow> json_object (json_message msg) = Some [(''message'', msg)]"
  "json_object (json_username u) = Some [(''username'', u)]"
  using json_object_one [OF plain_names(1) json_read_plain, of msg] json_object_one [OF plain_names(2) json_read_plain, of msg]
    json_object_one [OF plain_names(4) json_read_jsonEscape, of u]
  by (simp_all add: json_error_def json_message_def json_username_def)

lemma json_token_body:
  assumes "plain tok"
  shows "json_object (json_token tok) = Some [(''message'', ''login success''), (''token'', tok)]"
proof -
  let ?t = "CHR 0x22 # ''token'' @ CHR 0x22 # CHR '':'' # CHR 0x22 # tok @ CHR 0x22 # ''}''"
  have "json_member ?t = Some ((''token'', tok), ''}'')"
    by (rule json_member_read [OF plain_names(3) json_read_plain [OF assms]])
  moreover have "json_member (CHR 0x22 # ''message'' @ CHR 0x22 # CHR '':'' # CHR 0x22 # ''login success'' @ CHR 0x22 # CHR '','' # ?t) =
      Some ((''message'', ''login success''), CHR '','' # ?t)"
    by (rule json_member_read [OF plain_names(2) json_read_plain [OF plain_names(5)]])
  ultimately show ?thesis by (simp add: json_object_def json_token_def expect_def)
qed

subsection \<open>What a task may answer\<close>

definition answer_type :: "nat \<Rightarrow> bytes list \<Rightarrow> bool" where
  "answer_type st names \<longleftrightarrow>
     (st = 200 \<and> names \<in> {[''message''], [''message'', ''token''], [''username'']})
     \<or> (st \<in> {401, 409, 500, 503} \<and> names = [''error''])"

definition well_typed :: "db_result \<Rightarrow> bool" where
  "well_typed r \<longleftrightarrow>
     (case r of
        Answered st body \<Rightarrow> (case json_object body of None \<Rightarrow> False | Some ms \<Rightarrow> answer_type st (map fst ms))
      | _ \<Rightarrow> False)"

lemma reply_typed: "R (Answered st b) \<Longrightarrow> ends R (reply_proc S fd ka st b)"
  by (auto simp: reply_proc_def ends_atomically reply_def split: option.splits)

lemma typed_errors:
  "st \<in> {401, 409, 500, 503} \<Longrightarrow> plain msg \<Longrightarrow> well_typed (Answered st (json_error msg))"
  "plain msg \<Longrightarrow> well_typed (Answered 200 (json_message msg))"
  "well_typed (Answered 200 (json_username u))" "plain tok \<Longrightarrow> well_typed (Answered 200 (json_token tok))"
  by (auto simp: well_typed_def json_bodies json_token_body answer_type_def)

lemma draw_plain:
  assumes "\<forall>w i w'. sv_draw S w = (Some i, w') \<longrightarrow> i < length token_charset" and "plain tok"
  shows "ends (\<lambda>r. case r of None \<Rightarrow> True | Some t \<Rightarrow> plain t) (draw_token_proc S n tok)"
  using assms(2)
proof (induction n arbitrary: tok)
  case (Suc n)
  have cs: "plain token_charset" by (simp add: plain_def token_charset_def)
  have "ends (\<lambda>r. case r of None \<Rightarrow> True | Some i \<Rightarrow> i < length token_charset) (world_call (sv_draw S))"
    using assms(1) by (auto simp: world_call_def ends_atomically split: prod.splits option.splits)
  then show ?case
    unfolding draw_token_proc.simps
  proof (rule ends_and_then)
    fix r assume r: "case r of None \<Rightarrow> True | Some i \<Rightarrow> i < length token_charset"
    have "plain (tok @ [token_charset ! i])" if "i < length token_charset" for i
      using Suc.prems cs that by (auto simp: plain_def list_all_iff)
    with r Suc.IH show "ends (\<lambda>r. case r of None \<Rightarrow> True | Some t \<Rightarrow> plain t)
        (case r of None \<Rightarrow> Done None | Some i \<Rightarrow> draw_token_proc S n (tok @ [token_charset ! i]))"
      by (auto split: option.splits)
  qed
qed simp

definition typed_or_thrown :: "db_result \<Rightarrow> bool" where
  "typed_or_thrown r \<longleftrightarrow> well_typed r \<or> r = Thrown"

lemma plain_messages:
  "plain ''service unavailable''" "plain ''database error''" "plain ''user already exists''" "plain ''register success''"
  "plain ''user not found''" "plain ''wrong password''" "plain ''invalid or expired token''" "plain ''logout success''"
  "plain ''internal error''"
  by (simp_all add: plain_def)

lemma typed_replies:
  "st \<in> {401, 409, 500, 503} \<Longrightarrow> plain msg \<Longrightarrow> ends typed_or_thrown (reply_proc S fd ka st (json_error msg))"
  "plain msg \<Longrightarrow> ends typed_or_thrown (reply_proc S fd ka 200 (json_message msg))"
  "ends typed_or_thrown (reply_proc S fd ka 200 (json_username u))"
  "plain tok \<Longrightarrow> ends typed_or_thrown (reply_proc S fd ka 200 (json_token tok))"
  by (simp_all add: reply_typed typed_or_thrown_def typed_errors)

lemma guard_ends: "(\<And>conn. ends R (body conn)) \<Longrightarrow> ends R (mysql_guard_proc i body)"
  unfolding mysql_guard_proc_def by (intro ends_then ends_and_then [where M = R]) simp_all

lemma finish_typed:
  assumes "\<forall>w i w'. sv_draw S w = (Some i, w') \<longrightarrow> i < length token_charset"
  shows "ends typed_or_thrown (login_finish_proc S fd ka u q found)"
proof -
  have "plain []" by (simp add: plain_def)
  note d = draw_plain [OF assms this, of kTokenLen]
  have "ends typed_or_thrown (and_then (draw_token_proc S kTokenLen []) (\<lambda>token.
      (case token of
         None \<Rightarrow> Done Thrown
       | Some tok \<Rightarrow>
           and_then (redis_setex_proc (sv_redis S) (session_key tok) kSessionTtlSec u) (\<lambda>ok.
             if \<not> ok then reply_proc S fd ka 503 (json_error ''service unavailable'')
             else reply_proc S fd ka 200 (json_token tok)))))"
    by (rule ends_and_then [OF d]) (auto simp: typed_replies plain_messages typed_or_thrown_def [of Thrown] intro!: ends_then split: option.splits)
  then show ?thesis by (simp add: login_finish_proc_def typed_replies plain_messages split: option.split)
qed

fun early_typed :: "db_result + bytes option \<Rightarrow> bool" where
  "early_typed (Inl r) \<longleftrightarrow> typed_or_thrown r"
| "early_typed (Inr _) \<longleftrightarrow> True"

lemma work_typed:
  assumes "\<forall>w i w'. sv_draw S w = (Some i, w') \<longrightarrow> i < length token_charset"
    and "\<And>x. length (my_escape (sv_mysql S) x) \<le> 2 * length x" and "task_fits t"
  shows "ends typed_or_thrown (work_proc S i t)"
proof -
  note esc = escape_fits [of "sv_mysql S", OF assms(2)] and rep = typed_replies plain_messages
  show ?thesis
  proof (cases t)
    case (RegisterTask fd ka u q)
    have "ends typed_or_thrown (register_body_proc S fd ka u q conn)" for conn
      using esc(1) [of u] esc(2) [of q] assms(3) RegisterTask by (auto simp: register_body_proc_def rep intro!: ends_then split: option.splits)
    with RegisterTask show ?thesis by (simp add: guard_ends)
  next
    case (LoginTask fd ka u q)
    have "ends early_typed (and_then (reply_proc S fd ka st (json_error msg)) (\<lambda>r. Done (Inl r)))"
      if "st = 500 \<or> st = 503" "plain msg" for st msg
      by (rule ends_and_then [OF typed_replies(1)]) (use that in auto)
    then have "ends early_typed (login_mysql_proc S fd ka u conn)" for conn
      using esc(1) [of u] assms(3) LoginTask
      by (auto simp: login_mysql_proc_def plain_messages ends_then split: option.splits list.splits)
    then have "ends early_typed (mysql_guard_proc i (login_mysql_proc S fd ka u))" by (rule guard_ends)
    then have "ends typed_or_thrown (and_then (mysql_guard_proc i (login_mysql_proc S fd ka u))
        (\<lambda>res. case res of Inl r \<Rightarrow> Done r | Inr found \<Rightarrow> login_finish_proc S fd ka u q found))"
      by (rule ends_and_then) (auto simp: finish_typed [OF assms(1)] split: sum.split)
    with LoginTask finish_typed [OF assms(1)] show ?thesis by (simp add: ends_then split: prod.split)
  qed (auto simp: rep intro!: ends_then)
qed

lemma task_typed:
  assumes "\<forall>w i w'. sv_draw S w = (Some i, w') \<longrightarrow> i < length token_charset"
    and "\<And>x. length (my_escape (sv_mysql S) x) \<le> 2 * length x" and "task_fits t"
  shows "ends well_typed (task_proc S i t)"
proof -
  have e: "ends well_typed (reply_proc S fd ka 500 (json_error ''internal error''))" for fd ka
    by (simp add: reply_typed typed_errors plain_messages)
  show ?thesis
    unfolding task_proc_def
    by (rule ends_and_then [OF work_typed [OF assms]]) (auto simp: e typed_or_thrown_def split: db_result.split)
qed

text \<open>
  C19: every answer of a database thread is well typed. Whatever the clients send, however
  the threads interleave and whatever MySQL and Redis return: a finished task has sent a
  status with a body that a JSON reader accepts as an object, with the members that belong
  to the status: a message, a message and a token, or a user name for 200, an error for 401,
  409, 500 and 503.
\<close>

theorem answers_well_typed:
  assumes "\<forall>w i w'. sv_draw S w = (Some i, w') \<longrightarrow> i < length token_charset"
    and "\<forall>x. length (my_escape (sv_mysql S) x) \<le> 2 * length x"
    and "reach (system_start N S getenv boots shares) (system_step N S getenv g env) (s, d, ts)"
    and "ts i = Some (t, Done r)"
  shows "\<exists>st body members. r = Answered st body \<and> json_object body = Some members \<and> answer_type st (map fst members)"
proof -
  have "reads_within (sv_kernel S) UNIV" by (simp add: reads_within_def)
  with syswork.reach_inv [OF assms(3)] have "work_inv S UNIV (s, d, ts)" by blast
  then have "worker_ok S UNIV (threads (dbPool (serverShared s))) i (ts i)" by (simp add: work_inv_def)
  with assms(4) have "task_fits t" "residual (task_proc S i t) (Done r)" by (simp_all add: worker_ok_def task_ok_def)
  with residual_ends [OF _ task_typed] assms(1,2) have "well_typed r" by fastforce
  then show ?thesis by (auto simp: well_typed_def split: db_result.splits option.splits)
qed

theorem answers_well_typed_witness:
  "\<exists>d members. site_reach (next_server, d, [0 \<mapsto> (profile_task, Done (Answered 401 (json_error ''invalid or expired token'')))])
     \<and> json_object (json_error ''invalid or expired token'') = Some members \<and> answer_type 401 (map fst members)"
proof -
  obtain d where r: "site_reach (next_server, d, [0 \<mapsto> (profile_task, Done (Answered 401 (json_error ''invalid or expired token'')))])"
    using next_client_answered by blast
  have "\<forall>w i w'. sv_draw site_services w = (Some i, w') \<longrightarrow> i < length token_charset"
    by (simp add: on_db_iff toy_services_def token_charset_def)
  moreover have "\<forall>x. length (my_escape (sv_mysql site_services) x) \<le> 2 * length x" using sql_esc_props by (simp add: site_mysql_def)
  ultimately show ?thesis
    using answers_well_typed [OF _ _ r, of 0] r by auto
qed

end
