(* ===== verification/Buffer.thy ===== *)
theory Buffer
  imports Prelude
begin

section \<open>The byte buffer of the command-line client\<close>

text \<open>
  \<^verbatim>\<open>src/Buffer.cpp\<close>: a \<^verbatim>\<open>std::vector<char>\<close> whose \<open>c_str\<close> terminates the contents in
  place. A \<^verbatim>\<open>const char *\<close> argument is an optional byte string (\<^const>\<open>None\<close> is
  \<^verbatim>\<open>nullptr\<close>); \<open>append\<close> reads \<open>size\<close> bytes at it, the others read a C string. The input
  of \<open>getline\<close> is the unread part of standard input, which it returns advanced.
\<close>

record buffer =
  buf :: bytes

definition buffer_new :: buffer where
  "buffer_new = \<lparr>buf = []\<rparr>"

definition buffer_append :: "buffer \<Rightarrow> bytes option \<Rightarrow> int \<Rightarrow> buffer" where
  "buffer_append b str sz =
     (case str of
        None \<Rightarrow> b
      | Some s \<Rightarrow> if sz \<le> 0 then b else b\<lparr>buf := buf b @ take (nat sz) s\<rparr>)"

definition buffer_size :: "buffer \<Rightarrow> int" where
  "buffer_size b =
     (if buf b \<noteq> [] \<and> last (buf b) = CHR 0x00 then int (length (buf b) - 1)
      else int (length (buf b)))"

text \<open>\<open>c_str\<close> returns the memory the pointer designates and the buffer it may have extended.\<close>

definition buffer_c_str :: "buffer \<Rightarrow> bytes \<times> buffer" where
  "buffer_c_str b =
     (if buf b = [] then ([CHR 0x00], b)
      else let b' = (if last (buf b) \<noteq> CHR 0x00 then b\<lparr>buf := buf b @ [CHR 0x00]\<rparr> else b)
           in (buf b', b'))"

definition buffer_clear :: "buffer \<Rightarrow> buffer" where
  "buffer_clear b = b\<lparr>buf := []\<rparr>"

definition buffer_getline :: "buffer \<Rightarrow> bytes \<Rightarrow> buffer \<times> bytes" where
  "buffer_getline b input =
     (let line = takeWhile (\<lambda>c. c \<noteq> CHR 0x0A) input
      in (b\<lparr>buf := line\<rparr>, drop (Suc (length line)) input))"

definition buffer_setBuf :: "buffer \<Rightarrow> bytes option \<Rightarrow> buffer" where
  "buffer_setBuf b str =
     (case str of None \<Rightarrow> b\<lparr>buf := []\<rparr> | Some s \<Rightarrow> b\<lparr>buf := c_str s\<rparr>)"

subsection \<open>Properties\<close>

lemmas buffer_defs = buffer_new_def buffer_append_def buffer_size_def buffer_c_str_def
  buffer_clear_def buffer_getline_def buffer_setBuf_def

lemma buffer_c_str_terminated: "fst (buffer_c_str b) \<noteq> [] \<and> last (fst (buffer_c_str b)) = CHR 0x00"
  by (simp add: buffer_c_str_def Let_def)

text \<open>
  \<open>c_str\<close> terminates the buffer in place without changing what the buffer reports:
  the memory it returns ends in NUL, the size before and after is the same, a second call
  changes nothing more, and the first \<open>size\<close> bytes of the memory (what the client passes
  to \<^verbatim>\<open>write\<close>) are the contents less one trailing NUL.
\<close>

lemma buffer_c_str_transparent:
  "last (fst (buffer_c_str b)) = CHR 0x00
   \<and> buffer_size (snd (buffer_c_str b)) = buffer_size b
   \<and> snd (buffer_c_str (snd (buffer_c_str b))) = snd (buffer_c_str b)
   \<and> take (nat (buffer_size b)) (fst (buffer_c_str b)) =
       (if buf b \<noteq> [] \<and> last (buf b) = CHR 0x00 then butlast (buf b) else buf b)"
  by (simp add: buffer_c_str_def buffer_size_def Let_def butlast_conv_take)

text \<open>
  A C string stored with \<open>setBuf\<close> is read back by \<open>c_str\<close>, and a line read by
  \<open>getline\<close> holds no newline and is the part of the input it consumed.
\<close>

lemma buffer_setBuf_getline_roundtrip:
  "c_str (fst (buffer_c_str (buffer_setBuf b (Some s)))) = c_str s
   \<and> CHR 0x0A \<notin> set (buf (fst (buffer_getline b input)))
   \<and> (let (b', rest) = buffer_getline b input
      in input = buf b' @ CHR 0x0A # rest \<or> (input = buf b' \<and> rest = []))"
proof -
  have c: "c_str (fst (buffer_c_str (buffer_setBuf b (Some s)))) = c_str s"
  proof (cases "c_str s = []")
    case True
    then show ?thesis by (simp add: buffer_defs c_str_def)
  next
    case False
    then have "last (c_str s) \<noteq> CHR 0x00"
      using c_str_NUL_free [of s] by (metis last_in_set)
    with False show ?thesis
      by (simp add: buffer_defs c_str_append c_str_NUL_free) (simp add: c_str_def)
  qed
  have nl: "CHR 0x0A \<notin> set (buf (fst (buffer_getline b input)))"
    by (auto simp: buffer_getline_def Let_def dest: set_takeWhileD)
  have "input = takeWhile (\<lambda>c. c \<noteq> CHR 0x0A) input @ CHR 0x0A #
          drop (Suc (length (takeWhile (\<lambda>c. c \<noteq> CHR 0x0A) input))) input
        \<or> input = takeWhile (\<lambda>c. c \<noteq> CHR 0x0A) input
          \<and> drop (Suc (length (takeWhile (\<lambda>c. c \<noteq> CHR 0x0A) input))) input = []"
    by (induction input) auto
  with c nl show ?thesis
    by (simp add: buffer_getline_def Let_def)
qed

end
