(* ===== verification/Client.thy ===== *)
theory Client
  imports Buffer Net
begin

section \<open>The command-line client\<close>

text \<open>
  \<^verbatim>\<open>test/client.cpp\<close>: connect, then for every line of standard input send it and read until as
  many bytes came back, and print them. \<open>input\<close> is the unread standard input, \<open>printed\<close> the
  messages printed so far. A turn ends the process (\<open>Inl\<close>) or leaves the client for the next;
  \<^const>\<open>None\<close> is a turn that never ends.
\<close>

record client =
  readBuffer :: buffer
  sendBuffer :: buffer
  input :: bytes
  printed :: "bytes list"

datatype client_exit = ServerDisconnected | ClientError bytes

text \<open>The inner loop; \<^const>\<open>False\<close> when the server closed the connection.\<close>

partial_function (option) read_reply ::
    "'w kernel \<Rightarrow> int \<Rightarrow> int \<Rightarrow> int \<Rightarrow> buffer \<Rightarrow> 'w \<Rightarrow> (bool \<times> buffer \<times> 'w) option" where
  "read_reply K sockfd already_read send_size rb w =
     (case k_read K sockfd 1024 w of
        (r, w1) \<Rightarrow>
          (case r of
             Ret d \<Rightarrow>
               if d = [] then Some (False, rb, w1)
               else
                 (let rb1 = buffer_append rb (Some d) (int (length d)); n = already_read + int (length d)
                  in if n \<ge> send_size then Some (True, rb1, w1) else read_reply K sockfd n send_size rb1 w1)
           | Err e \<Rightarrow>
               if already_read \<ge> send_size then Some (True, rb, w1)
               else read_reply K sockfd already_read send_size rb w1))"

definition client_turn :: "'w kernel \<Rightarrow> int \<Rightarrow> client \<Rightarrow> 'w \<Rightarrow> ((client_exit + client) \<times> 'w) option" where
  "client_turn K sockfd c w =
     (case buffer_getline (sendBuffer c) (input c) of
        (sb, rest) \<Rightarrow>
          (case buffer_c_str sb of
             (mem, sb1) \<Rightarrow>
               (case k_write K sockfd (take (nat (buffer_size sb)) mem) w of
                  (Err e, w1) \<Rightarrow> Some (Inl (ClientError ''server socket disconnect''), w1)
                | (Ret n, w1) \<Rightarrow>
                    (case read_reply K sockfd 0 (buffer_size sb1) (readBuffer c) w1 of
                       None \<Rightarrow> None
                     | Some (False, rb, w2) \<Rightarrow> Some (Inl ServerDisconnected, w2)
                     | Some (True, rb, w2) \<Rightarrow>
                         (case buffer_c_str rb of
                            (text, rb1) \<Rightarrow>
                              Some (Inr \<lparr>readBuffer = buffer_clear rb1, sendBuffer = sb1, input = rest,
                                         printed = printed c @ [c_str text]\<rparr>, w2))))))"

primrec client_turns :: "nat \<Rightarrow> 'w kernel \<Rightarrow> int \<Rightarrow> client \<Rightarrow> 'w \<Rightarrow> ((client_exit + client) \<times> 'w) option" where
  "client_turns 0 K sockfd c w = Some (Inr c, w)"
| "client_turns (Suc n) K sockfd c w =
     (case client_turn K sockfd c w of
        Some (Inr c1, w1) \<Rightarrow> client_turns n K sockfd c1 w1
      | r \<Rightarrow> r)"

definition client_new :: "bytes \<Rightarrow> client" where
  "client_new stdin = \<lparr>readBuffer = buffer_new, sendBuffer = buffer_new, input = stdin, printed = []\<rparr>"

text \<open>The main program up to its loop, and \<open>n\<close> turns of the loop.\<close>

definition client_main :: "'w net \<Rightarrow> 'w kernel \<Rightarrow> bytes \<Rightarrow> nat \<Rightarrow> 'w \<Rightarrow> ((client_exit + client) \<times> 'w) option" where
  "client_main N K stdin n w =
     (case socket_new N w of
        (Inl m, w1) \<Rightarrow> Some (Inl (ClientError m), w1)
      | (Inr sockfd, w1) \<Rightarrow>
          (case socket_connect N sockfd (inet_address N ''127.0.0.1'' 8888) w1 of
             (Inl m, w2) \<Rightarrow> Some (Inl (ClientError m), w2)
           | (Inr _, w2) \<Rightarrow> client_turns n K sockfd (client_new stdin) w2))"

subsection \<open>Against an echo server\<close>

text \<open>
  What the client is written for: a server that returns every byte. \<open>pending w\<close> are the bytes
  on their way back; a read returns some of them, in pieces of any size.
\<close>

definition echo_server :: "'w kernel \<Rightarrow> int \<Rightarrow> ('w \<Rightarrow> bytes) \<Rightarrow> bool" where
  "echo_server K fd pending \<longleftrightarrow>
     (\<forall>d w. \<exists>w'. k_write K fd d w = (Ret (length d), w') \<and> pending w' = pending w @ d)
     \<and> (\<forall>n w. pending w \<noteq> [] \<longrightarrow> 0 < n \<longrightarrow>
          (\<exists>k w'. k_read K fd n w = (Ret (take k (pending w)), w') \<and> 0 < k \<and> pending w' = drop k (pending w)))"

lemma append_all: "d \<noteq> [] \<Longrightarrow> buffer_append rb (Some d) (int (length d)) = rb\<lparr>buf := buf rb @ d\<rparr>"
  by (simp add: buffer_append_def)

lemma read_reply_echo:
  assumes "echo_server K fd pending" and "pending w \<noteq> []"
  shows "\<exists>w'. read_reply K fd a (a + int (length (pending w))) rb w = Some (True, rb\<lparr>buf := buf rb @ pending w\<rparr>, w') \<and> pending w' = []"
  using assms(2)
proof (induction "length (pending w)" arbitrary: a rb w rule: less_induct)
  case less
  have "(0 :: nat) < 1024" by simp
  with assms(1) less.prems obtain k w1 where k: "k_read K fd 1024 w = (Ret (take k (pending w)), w1)" "0 < k"
    "pending w1 = drop k (pending w)"
    unfolding echo_server_def by blast
  let ?rb = "rb\<lparr>buf := buf rb @ take k (pending w)\<rparr>" and ?d = "take k (pending w)"
  have d: "?d \<noteq> []" using k(2) less.prems by simp
  have app: "buffer_append rb (Some ?d) (int (length ?d)) = ?rb" by (rule append_all [OF d])
  show ?case
  proof (cases "k < length (pending w)")
    case False
    with k d app show ?thesis by (subst read_reply.simps) (simp add: Let_def)
  next
    case True
    then have l: "length ?d = k" "pending w1 \<noteq> []" "length (pending w1) < length (pending w)" "length (pending w1) = length (pending w) - k"
      using k(2,3) less.prems by auto
    have "a + int k + int (length (pending w1)) = a + int (length (pending w))" using True l(4) by simp
    with less.hyps [OF l(3,2), of "a + int k" ?rb] obtain w2 where
      "read_reply K fd (a + int k) (a + int (length (pending w))) ?rb w1 = Some (True, ?rb\<lparr>buf := buf ?rb @ pending w1\<rparr>, w2)" "pending w2 = []"
      by auto
    with k d app l True show ?thesis by (subst read_reply.simps) (simp add: Let_def)
  qed
qed

lemma client_turn_echo:
  assumes "echo_server K fd pending" and "pending w = []" and "buf (readBuffer c) = []"
    and "input c = line @ CHR 0x0A # rest" and "line \<noteq> []" and "CHR 0x0A \<notin> set line" and "CHR 0x00 \<notin> set line"
  shows "\<exists>c' w'. client_turn K fd c w = Some (Inr c', w') \<and> printed c' = printed c @ [line] \<and> input c' = rest
    \<and> buf (readBuffer c') = [] \<and> pending w' = []"
proof -
  have tw: "takeWhile (\<lambda>x. x \<noteq> CHR 0x0A) (line @ CHR 0x0A # rest) = line"
    using assms(6) by (simp add: takeWhile_tail) (metis takeWhile_eq_all_conv)
  have last: "last line \<noteq> CHR 0x00" using assms(5,7) by (metis last_in_set)
  let ?sb = "(sendBuffer c)\<lparr>buf := line\<rparr>" and ?sb1 = "(sendBuffer c)\<lparr>buf := line @ [CHR 0x00]\<rparr>"
  have g: "buffer_getline (sendBuffer c) (input c) = (?sb, rest)" using assms(4) tw by (simp add: buffer_getline_def)
  have s: "buffer_c_str ?sb = (line @ [CHR 0x00], ?sb1)" "buffer_size ?sb = int (length line)" "buffer_size ?sb1 = int (length line)"
    using assms(5) last by (simp_all add: buffer_c_str_def buffer_size_def Let_def)
  from assms(1,2) obtain w1 where w1: "k_write K fd line w = (Ret (length line), w1)" "pending w1 = line"
    unfolding echo_server_def by (metis append_Nil)
  from read_reply_echo [OF assms(1), of w1 0 "readBuffer c"] w1(2) assms(3,5) obtain w2 where
    w2: "read_reply K fd 0 (int (length line)) (readBuffer c) w1 = Some (True, (readBuffer c)\<lparr>buf := line\<rparr>, w2)" "pending w2 = []"
    by auto
  have "buffer_c_str ((readBuffer c)\<lparr>buf := line\<rparr>) = (line @ [CHR 0x00], (readBuffer c)\<lparr>buf := line @ [CHR 0x00]\<rparr>)"
    using assms(5) last by (simp add: buffer_c_str_def Let_def)
  moreover have "c_str (line @ [CHR 0x00]) = line" using assms(7) by (simp add: c_str_append) (simp add: c_str_def)
  ultimately show ?thesis using g s w1(1) w2 by (simp add: client_turn_def buffer_clear_def)
qed

lemma turns_echo:
  assumes "echo_server K fd pending" and "pending w = []" and "buf (readBuffer c) = []"
    and "input c = concat (map (\<lambda>l. l @ [CHR 0x0A]) ls) @ rest"
    and "list_all (\<lambda>l. l \<noteq> [] \<and> CHR 0x0A \<notin> set l \<and> CHR 0x00 \<notin> set l) ls"
  shows "\<exists>c' w'. client_turns (length ls) K fd c w = Some (Inr c', w') \<and> printed c' = printed c @ ls \<and> input c' = rest"
  using assms
proof (induction ls arbitrary: c w)
  case (Cons l ls)
  have "input c = l @ CHR 0x0A # (concat (map (\<lambda>l. l @ [CHR 0x0A]) ls) @ rest)" using Cons.prems(4) by simp
  from client_turn_echo [OF Cons.prems(1-3) this] Cons.prems(5) obtain c1 w1 where
    c1: "client_turn K fd c w = Some (Inr c1, w1)" "printed c1 = printed c @ [l]" "buf (readBuffer c1) = []" "pending w1 = []"
      "input c1 = concat (map (\<lambda>l. l @ [CHR 0x0A]) ls) @ rest" by auto
  from Cons.IH [OF Cons.prems(1) c1(4,3,5)] Cons.prems(5) c1(1,2) show ?case by auto
qed simp

text \<open>
  C38: the client echoes. Once it is connected to a server that returns every byte, in pieces
  of any size, and its input starts with lines that are not empty and hold no NUL byte, the
  client prints these lines, in order, one per turn. (For an empty line it would write
  nothing and wait in \<^verbatim>\<open>read\<close> for an answer that never comes; a line with a NUL byte is
  printed only up to that byte.)
\<close>

theorem client_echoes:
  assumes "socket_new N w = (Inr fd, w1)" and "socket_connect N fd (inet_address N ''127.0.0.1'' 8888) w1 = (Inr u, w2)"
    and "echo_server K fd pending" and "pending w2 = []"
    and "list_all (\<lambda>l. l \<noteq> [] \<and> CHR 0x0A \<notin> set l \<and> CHR 0x00 \<notin> set l) ls"
  shows "\<exists>c w'. client_main N K (concat (map (\<lambda>l. l @ [CHR 0x0A]) ls) @ rest) (length ls) w = Some (Inr c, w')
    \<and> printed c = ls \<and> input c = rest"
  using turns_echo [OF assms(3,4) _ _ assms(5), of "client_new (concat (map (\<lambda>l. l @ [CHR 0x0A]) ls) @ rest)" rest] assms(1,2)
  by (simp add: client_main_def client_new_def buffer_new_def)

text \<open>A server that returns one byte per read.\<close>

definition slow_echo :: "bytes kernel" where
  "slow_echo =
     \<lparr>k_write = (\<lambda>fd d w. (Ret (length d), w @ d)),
      k_read = (\<lambda>fd n w. if w = [] then (Err EAGAIN, w) else (Ret (take 1 w), drop 1 w)),
      k_sendfile = (\<lambda>fd f off cnt w. (Ret 0, w)), k_epoll_ctl = (\<lambda>ep op fd ev w. (Ret (), w)), k_time = (\<lambda>w. (0, w)),
      k_open = (\<lambda>p w. (-1, w)), k_fstat = (\<lambda>fd w. (None, w)), k_close = (\<lambda>fd w. w)\<rparr>"

definition slow_net :: "bytes net" where
  "slow_net =
     \<lparr>n_socket = (\<lambda>w. (Ret 3, w)), n_setsockopt = (\<lambda>fd opt w. w), n_bind = (\<lambda>fd a w. (Ret (), w)),
      n_listen = (\<lambda>fd b w. (Ret (), w)), n_getfl = (\<lambda>fd w. (0, w)), n_setfl = (\<lambda>fd f w. w),
      n_accept = (\<lambda>lfd w. (Err EAGAIN, w)), n_connect = (\<lambda>fd a w. (Ret (), w)), n_shutdown = (\<lambda>fd w. w),
      n_close = (\<lambda>fd w. w), n_inet_addr = (\<lambda>ip. 0), n_epoll_create = (\<lambda>w. (Ret (), w))\<rparr>"

theorem client_echoes_witness:
  "\<exists>c w'. client_main slow_net slow_echo (''ping'' @ [CHR 0x0A] @ ''pong'' @ [CHR 0x0A]) 2 [] = Some (Inr c, w') \<and> printed c = [''ping'', ''pong'']"
proof -
  have "echo_server slow_echo 3 (\<lambda>w. w)"
    unfolding echo_server_def slow_echo_def by (auto intro: exI [of _ 1])
  moreover have "socket_new slow_net [] = (Inr 3, [])" by (simp add: socket_new_def slow_net_def)
  moreover have "socket_connect slow_net 3 (inet_address slow_net ''127.0.0.1'' 8888) [] = (Inr (), [])"
    by (simp add: socket_connect_def slow_net_def failed_def errif_def)
  ultimately show ?thesis
    using client_echoes [of slow_net "[]" 3 "[]" "()" "[]" slow_echo "\<lambda>w. w" "[''ping'', ''pong'']" "[]"]
    by (auto simp: numeral_2_eq_2)
qed

text \<open>A read that fails is not noticed: the client asks again, for ever if the error stays.\<close>

lemma read_error_spins:
  assumes "\<And>w. \<exists>e w'. k_read K fd 1024 w = (Err e, w')" and "already < sz"
  shows "read_reply K fd already sz rb w = None"
proof -
  let ?P = "\<lambda>K' fd' already' sz' rb' w' r. K' = K \<longrightarrow> fd' = fd \<longrightarrow> \<not> already' < sz'"
  have "\<not> already < sz" if "read_reply K fd already sz rb w = Some r" for r
  proof -
    have "?P K fd already sz rb w r"
    proof (rule read_reply.raw_induct [where P = ?P, OF _ that], intro impI notI, goal_cases)
      case (1 f K' fd' already' sz' rb' w' r)
      obtain e w1 where "k_read K fd 1024 w' = (Err e, w1)" using assms(1) by blast
      with 1 have "f K fd already' sz' rb' w1 = Some r" by simp
      from 1(1) [OF this] 1(5) show False by simp
    qed
    then show ?thesis by simp
  qed
  with assms(2) show ?thesis by (cases "read_reply K fd already sz rb w") auto
qed

end
