(* ===== verification/Dispatch.thy ===== *)
theory Dispatch
  imports SystemWork
begin

section \<open>The batches of events of the sub reactors\<close>

text \<open>
  \<^verbatim>\<open>EventLoop::loop\<close> of a sub reactor fetches a batch of channel pointers from \<^verbatim>\<open>epoll_wait\<close> and
  then runs their handlers one by one. A handler may destroy its connection, other reactors
  destroy theirs and the main reactor adds new ones while the rest of the batch is still to
  be handled: the pointers that are left must not dangle. A batch is kept here as addresses
  and event masks, \<open>pend l\<close> is what reactor \<open>l\<close> still has to handle.
\<close>

subsection \<open>The loop of a sub reactor\<close>

definition conn_at :: "server \<Rightarrow> nat \<Rightarrow> int option" where
  "conn_at s a = map_option fst (find (\<lambda>(fd, c). ch_addr (conn_channel c) = a) (connections s))"

text \<open>Handling an event through a channel pointer; \<^const>\<open>None\<close> when it points to no connection.\<close>

definition sub_dispatch ::
    "'w net \<Rightarrow> 'w kernel \<Rightarrow> environ \<Rightarrow> nat \<Rightarrow> evmask \<Rightarrow> server \<times> 'w \<Rightarrow> (server \<times> 'w) option" where
  "sub_dispatch N K getenv a revents sw =
     (case conn_at (fst sw) a of None \<Rightarrow> None | Some fd \<Rightarrow> connection_event N K getenv fd revents sw)"

definition sub_loop ::
    "'w net \<Rightarrow> 'w kernel \<Rightarrow> environ \<Rightarrow> nat \<Rightarrow> ('w \<Rightarrow> epoll_event list sysret \<times> 'w) \<Rightarrow> server \<times> 'w \<Rightarrow> (server \<times> 'w) option" where
  "sub_loop N K getenv l wait sw =
     event_loop (\<lambda>sw. subQuit (fst sw) ! l) (main_wait wait) (sub_dispatch N K getenv) None sw"

text \<open>
  What \<^verbatim>\<open>epoll_wait\<close> reports: at most \<^verbatim>\<open>kMaxEvents\<close> events, each of another registered descriptor,
  with the pointer it was registered with.
\<close>

definition waits :: "('w \<Rightarrow> int set) \<Rightarrow> ('w \<Rightarrow> interests) \<Rightarrow> nat \<Rightarrow> 'w \<Rightarrow> epoll_event list sysret \<Rightarrow> 'w \<Rightarrow> bool" where
  "waits socks interest l w r w' \<longleftrightarrow>
     same_fds socks interest w w'
     \<and> (\<forall>evs. r = Ret evs \<longrightarrow> length evs \<le> 4096
          \<and> (\<exists>fds. distinct fds \<and> list_all2 (\<lambda>fd ev. map_option ev_ptr (interest w l fd) = Some (ev_ptr ev)) fds evs))"

type_synonym batches = "nat \<Rightarrow> (nat \<times> evmask) list"

inductive dispatch_step ::
    "'w net \<Rightarrow> 'w kernel \<Rightarrow> environ \<Rightarrow> ('w \<Rightarrow> bool) \<Rightarrow> ('w \<Rightarrow> int set) \<Rightarrow> ('w \<Rightarrow> interests)
     \<Rightarrow> server \<times> 'w \<times> batches \<Rightarrow> server \<times> 'w \<times> batches \<Rightarrow> bool"
  for N K getenv g_shutdown socks interest where
  d_wait: "pend l = [] \<Longrightarrow> l < length (subQuit s) \<Longrightarrow> waits socks interest l w r w'
    \<Longrightarrow> dispatch_step N K getenv g_shutdown socks interest (s, w, pend) (s, w', pend(l := activeChannels r))"
| d_event: "pend l = (a, ev) # rest \<Longrightarrow> sub_dispatch N K getenv a ev (s, w) = Some (s', w')
    \<Longrightarrow> dispatch_step N K getenv g_shutdown socks interest (s, w, pend) (s', w', pend(l := rest))"
| d_accept: "accept_event N K (s, w) = Some (s', w')
    \<Longrightarrow> dispatch_step N K getenv g_shutdown socks interest (s, w, pend) (s', w', pend)"
| d_tick: "loopCallback N K g_shutdown (s, w) = (s', w')
    \<Longrightarrow> dispatch_step N K getenv g_shutdown socks interest (s, w, pend) (s', w', pend)"
| d_world: "same_fds socks interest w w'
    \<Longrightarrow> dispatch_step N K getenv g_shutdown socks interest (s, w, pend) (s\<lparr>serverShared := sh\<rparr>, w', pend)"

definition dispatch_start ::
    "'w net \<Rightarrow> 'w kernel \<Rightarrow> environ \<Rightarrow> ('w \<Rightarrow> int set) \<Rightarrow> ('w \<Rightarrow> interests) \<Rightarrow> server \<times> 'w \<times> batches \<Rightarrow> bool" where
  "dispatch_start N K getenv socks interest st \<longleftrightarrow>
     (case st of (s, w, pend) \<Rightarrow> server_start N K getenv socks interest (s, w) \<and> pend = (\<lambda>_. []))"

subsection \<open>Who is alive\<close>

text \<open>The connection of a reactor with an address.\<close>

definition lives_on :: "server \<Rightarrow> nat \<Rightarrow> nat \<Rightarrow> int \<Rightarrow> bool" where
  "lives_on s l a fd \<longleftrightarrow> (\<exists>f rest. live s fd = Some (f, a, l, rest))"

lemma event_ran_id:
  assumes "event_ran K getenv c sh w (Alive c') sh' w'"
  shows "conn_id c' = conn_id c"
proof -
  have "keeps K (\<lambda>_ _. True) c" by (simp add: keeps_def kernel_moves_def)
  with assms handleMessage_kept [of K "\<lambda>_ _. True" c] handleWrite_kept [of K "\<lambda>_ _. True" c] show ?thesis
    by (auto simp: event_ran_def kept_def)
qed

lemma connection_event_live:
  assumes "connection_event N K getenv fd ev (s, w) = Some (s', w')" and "map_sorted (connections s)"
  shows "live s' = live s \<or> live s' = (live s)(fd := None)"
  using assms(1)
proof (cases rule: connection_event_cases)
  case (alive c c' sh)
  have "conn_id c' = conn_id c" using event_ran_id [OF alive(2)] by (simp add: conn_id_def setRevents_def)
  then show ?thesis
    using conn_map.view_update [where f = conn_id, OF alive(1)] alive(3) by (simp add: live_def)
next
  case (destroyed c sh w1)
  then show ?thesis
    using conn_map.view_del [OF assms(2), of conn_id fd] by (auto simp: deleteConnection_def live_def split: if_splits)
qed simp

lemma conn_at_live:
  assumes "server_inv socks interest (s, w)" and "lives_on s l a fd"
  shows "conn_at s a = Some fd"
proof -
  have tab: "table_ok s" using assms(1) by (simp add: server_rel_def)
  from assms(2) obtain c where c: "map_of (connections s) fd = Some c" "ch_addr (conn_channel c) = a"
    by (auto simp: lives_on_def live_def conn_id_def)
  then have "find (\<lambda>(fd, c). ch_addr (conn_channel c) = a) (connections s) \<noteq> None"
    unfolding find_None_iff by (auto dest: map_of_SomeD)
  then obtain fd' c' where f: "find (\<lambda>(fd, c). ch_addr (conn_channel c) = a) (connections s) = Some (fd', c')" by auto
  then have "(fd', c') \<in> set (connections s)" "ch_addr (conn_channel c') = a"
    by (auto simp: find_Some_iff in_set_conv_nth)
  then have "map_of (connections s) fd' = Some c'" "ch_addr (conn_channel c') = ch_addr (conn_channel c)"
    using map_of_entry [OF table_okD(1) [OF tab]] c(2) by simp_all
  then have "live s fd' = Some (conn_id c')" "ch_addr (conn_channel c') = ch_addr (conn_channel c)" by (simp_all add: live_def)
  moreover have "live s fd = Some (conn_id c)" using c(1) by (simp add: live_def)
  ultimately have "fd' = fd"
    using inj_onD [OF table_okD(4) [OF tab], of fd' fd] by (simp add: domIff conn_id_def)
  with f show ?thesis by (simp add: conn_at_def)
qed

lemma lives_on_unique:
  assumes "server_inv socks interest (s, w)" and "lives_on s l a fd" and "lives_on s l' a fd'"
  shows "fd = fd' \<and> l = l'"
proof -
  have "fd = fd'" using conn_at_live [OF assms(1,2)] conn_at_live [OF assms(1,3)] by simp
  with assms(2,3) show ?thesis by (auto simp: lives_on_def)
qed

subsection \<open>The invariant\<close>

definition batches_live :: "server \<Rightarrow> batches \<Rightarrow> bool" where
  "batches_live s pend \<longleftrightarrow>
     (\<forall>l. distinct (map fst (pend l)) \<and> (\<forall>a \<in> fst ` set (pend l). \<exists>fd. lives_on s l a fd))"

lemma batches_live_mono:
  "batches_live s pend \<Longrightarrow> (\<And>l a fd. lives_on s l a fd \<Longrightarrow> lives_on s' l a fd) \<Longrightarrow> batches_live s' pend"
  unfolding batches_live_def by blast

lemma registered_lives:
  assumes "server_inv socks interest (s, w)" and "l < length (subQuit s)" and "map_option ev_ptr (interest w l fd) = Some a"
  shows "lives_on s l a fd"
proof -
  from assms(3) obtain e where "interest w l fd = Some e" "ev_ptr e = a" by auto
  with registered_live [OF assms(1,2)] obtain c where
    "(fd, c) \<in> set (connections s)" "ch_loop (conn_channel c) = l" "ch_addr (conn_channel c) = a" by blast
  moreover have "map_sorted (connections s)" using assms(1) by (simp add: server_rel_def table_okD(1))
  ultimately show ?thesis by (auto simp: lives_on_def live_def conn_id_def map_of_entry [symmetric])
qed

lemma fetched_live:
  assumes "server_inv socks interest (s, w)" and "l < length (subQuit s)" and "waits socks interest l w r w'"
  shows "distinct (map fst (activeChannels r)) \<and> (\<forall>a \<in> fst ` set (activeChannels r). \<exists>fd. lives_on s l a fd)"
proof (cases r)
  case (Ret evs)
  with assms(3) obtain fds where f: "distinct fds"
    "list_all2 (\<lambda>fd ev. map_option ev_ptr (interest w l fd) = Some (ev_ptr ev)) fds evs"
    by (auto simp: waits_def)
  note on = registered_lives [OF assms(1,2)]
  have "distinct (map ev_ptr evs)"
    unfolding distinct_conv_nth
  proof (intro allI impI)
    fix i j assume ij: "i < length (map ev_ptr evs)" "j < length (map ev_ptr evs)" "i \<noteq> j"
    then have "lives_on s l (map ev_ptr evs ! i) (fds ! i)" "lives_on s l (map ev_ptr evs ! j) (fds ! j)"
      using f(2) on by (simp_all add: list_all2_conv_all_nth)
    moreover have "fds ! i \<noteq> fds ! j" using f ij by (simp add: nth_eq_iff_index_eq list_all2_lengthD)
    ultimately show "map ev_ptr evs ! i \<noteq> map ev_ptr evs ! j" using lives_on_unique [OF assms(1)] by metis
  qed
  moreover have "\<exists>fd. lives_on s l (ev_ptr ev) fd" if "ev \<in> set evs" for ev
  proof -
    from that obtain i where "i < length evs" "evs ! i = ev" by (auto simp: in_set_conv_nth)
    with f(2) on [of "fds ! i" "ev_ptr ev"] show ?thesis by (auto simp: list_all2_conv_all_nth)
  qed
  ultimately show ?thesis using Ret by (simp add: activeChannels_def comp_def)
qed (simp add: activeChannels_def)

lemma handled_live:
  assumes "server_inv socks interest (s, w)" and "batches_live s pend" and "pend l = (a, ev) # rest"
    and "sub_dispatch N K getenv a ev (s, w) = Some (s', w')"
  shows "batches_live s' (pend(l := rest))"
proof -
  have "a \<in> fst ` set (pend l)" using assms(3) by simp
  with assms(2) obtain fd where fd: "lives_on s l a fd" unfolding batches_live_def by blast
  with conn_at_live [OF assms(1)] assms(4) have e: "connection_event N K getenv fd ev (s, w) = Some (s', w')"
    by (simp add: sub_dispatch_def)
  have "map_sorted (connections s)" using assms(1) by (simp add: server_rel_def table_okD(1))
  from connection_event_live [OF e this] have keep: "lives_on s' k b x" if "lives_on s k b x" "x \<noteq> fd" for k b x
    using that by (auto simp: lives_on_def)
  have other: "\<exists>x. lives_on s' k b x" if "lives_on s k b x" "b \<noteq> a \<or> k \<noteq> l" for k b x
  proof -
    have "x \<noteq> fd" using that fd by (auto simp: lives_on_def)
    with keep [OF that(1)] show ?thesis by blast
  qed
  have dist: "distinct (map fst (pend k))" for k using assms(2) by (simp add: batches_live_def)
  have "a \<notin> fst ` set rest" "distinct (map fst rest)" using dist [of l] assms(3) by auto
  moreover have "\<exists>x. lives_on s' l b x" if "b \<in> fst ` set rest" for b
  proof -
    have "b \<in> fst ` set (pend l)" "b \<noteq> a" using that assms(3) \<open>a \<notin> fst ` set rest\<close> by auto
    with assms(2) other [of l b] show ?thesis unfolding batches_live_def by blast
  qed
  moreover have "\<exists>x. lives_on s' k b x" if "k \<noteq> l" "b \<in> fst ` set (pend k)" for k b
    using assms(2) that other [of k b] unfolding batches_live_def by blast
  ultimately show ?thesis using dist unfolding batches_live_def by simp
qed

lemma accept_event_live:
  assumes "fd_kernel K socks interest" and "fd_net N socks interest" and "server_inv socks interest (s, w)"
    and "accept_event N K (s, w) = Some (s', w')"
  shows "map_of (connections s) \<subseteq>\<^sub>m map_of (connections s')"
proof -
  have "grown socks interest s (fst (s', w')) (snd (s', w'))"
  proof (rule acceptConnection_rule [where I = "grown socks interest s", THEN conjunct1])
    show "acceptConnection N (newConnection N K) (listenFd s) (s, w) = Some (s', w')"
      using assms(4) by (simp add: accept_event_def)
    show "grown socks interest s (fst xv) (snd xv)" if "grown socks interest s x v" "n_accept N (listenFd s) v = (Ret fd, v')"
      "newConnection N K fd (x, socket_setNoDelay N fd (socket_setnonblocking N fd v')) = Some xv" for x v fd v' xv
      using grown_ok [OF assms(1,2) that(1,2), of "\<lambda>_. 0"] that(3) by auto
  qed (use assms(3) grown_err [OF assms(2)] in \<open>auto simp: grown_def\<close>)
  then show ?thesis by (simp add: grown_def)
qed

lemma lives_on_le: "map_of (connections s) \<subseteq>\<^sub>m map_of (connections s') \<Longrightarrow> lives_on s l a fd \<Longrightarrow> lives_on s' l a fd"
  unfolding lives_on_def live_def comp_def map_le_def dom_def by force

definition dispatch_inv :: "('w \<Rightarrow> int set) \<Rightarrow> ('w \<Rightarrow> interests) \<Rightarrow> server \<times> 'w \<times> batches \<Rightarrow> bool" where
  "dispatch_inv socks interest st \<longleftrightarrow> (case st of (s, w, pend) \<Rightarrow> server_inv socks interest (s, w) \<and> batches_live s pend)"

lemma dispatch_step_inv:
  assumes "fd_kernel K socks interest" and "fd_net N socks interest"
    and "dispatch_step N K getenv g socks interest st st'" and "dispatch_inv socks interest st"
  shows "dispatch_inv socks interest st'"
  using assms(3)
proof cases
  case (d_wait pend l s w r w')
  have inv: "server_inv socks interest (s, w)" and b: "batches_live s pend" using assms(4) d_wait(1) by (simp_all add: dispatch_inv_def)
  have "server_inv socks interest (s, w')"
    using server_step_inv [OF assms(1,2) step_world [of socks interest w w' N K getenv g s "serverShared s"]] inv d_wait(5)
    by (simp add: waits_def)
  with fetched_live [OF inv d_wait(4,5)] b d_wait(2) show ?thesis by (simp add: dispatch_inv_def batches_live_def)
next
  case (d_event pend l a ev rest s w s' w')
  have inv: "server_inv socks interest (s, w)" and b: "batches_live s pend" using assms(4) d_event(1) by (simp_all add: dispatch_inv_def)
  from d_event(4) obtain fd where "connection_event N K getenv fd ev (s, w) = Some (s', w')"
    by (auto simp: sub_dispatch_def split: option.splits)
  with connection_event_inv [OF assms(1,2) inv] handled_live [OF inv b d_event(3,4)] d_event(2) show ?thesis
    by (simp add: dispatch_inv_def)
next
  case (d_accept s w s' w' pend)
  have inv: "server_inv socks interest (s, w)" and b: "batches_live s pend" using assms(4) d_accept(1) by (simp_all add: dispatch_inv_def)
  with accept_event_inv [OF assms(1,2) inv d_accept(3)] accept_event_live [OF assms(1,2) inv d_accept(3)] d_accept(2)
  show ?thesis by (auto simp: dispatch_inv_def intro: batches_live_mono lives_on_le)
next
  case (d_tick s w s' w' pend)
  then have "connections s' = connections s" by (auto simp: loopCallback_def server_stop_def split: if_splits)
  with loopCallback_inv [OF assms(1,2), of s w g] assms(4) d_tick show ?thesis
    by (auto simp: dispatch_inv_def batches_live_def lives_on_def live_def)
next
  case (d_world w w' s pend sh)
  then show ?thesis
    using server_step_inv [OF assms(1,2) step_world [OF d_world(3), of N K getenv g s sh]] assms(4)
    by (simp add: dispatch_inv_def batches_live_def lives_on_def live_def)
qed

interpretation dispatching: inductive_invariant "dispatch_start N K getenv socks interest" "dispatch_step N K getenv g socks interest"
    "\<lambda>st. fd_kernel K socks interest \<longrightarrow> fd_net N socks interest \<longrightarrow> dispatch_inv socks interest st"
  for N :: "'w net" and K getenv socks interest g
proof (unfold_locales, goal_cases)
  case (1 st)
  then show ?case using server_start_inv
    by (auto simp: dispatch_start_def dispatch_inv_def batches_live_def)
next
  case (2 st st')
  then show ?case using dispatch_step_inv by blast
qed

subsection \<open>The loop takes these steps\<close>

text \<open>
  A reactor that is not interrupted works its batch off by steps of the relation, so that
  what holds of all reachable states holds along \<^const>\<open>sub_loop\<close>.
\<close>

lemma dispatch_all_reach:
  assumes "dispatch_all (sub_dispatch N K getenv) (pend l) (s, w) = Some (s', w')"
    and "reach (dispatch_start N K getenv socks interest) (dispatch_step N K getenv g socks interest) (s, w, pend)"
  shows "reach (dispatch_start N K getenv socks interest) (dispatch_step N K getenv g socks interest) (s', w', pend(l := []))"
  using assms
proof (induction "pend l" arbitrary: pend s w)
  case Nil
  have "pend(l := []) = pend" by (rule fun_upd_idem) (simp add: Nil.hyps)
  moreover have "(s', w') = (s, w)" using Nil.prems(1) by (simp flip: Nil.hyps)
  ultimately show ?case using Nil.prems(2) by simp
next
  case (Cons e rest)
  obtain a ev where e: "e = (a, ev)" by (cases e)
  with Cons.prems(1) Cons.hyps(2) [symmetric] obtain s1 w1 where
    d: "sub_dispatch N K getenv a ev (s, w) = Some (s1, w1)"
    "dispatch_all (sub_dispatch N K getenv) rest (s1, w1) = Some (s', w')"
    by (auto split: option.splits)
  have "dispatch_step N K getenv g socks interest (s, w, pend) (s1, w1, pend(l := rest))"
    using Cons.hyps(2) e d(1) by (intro d_event) simp_all
  with Cons.prems(2)
  have "reach (dispatch_start N K getenv socks interest) (dispatch_step N K getenv g socks interest) (s1, w1, pend(l := rest))"
    by (rule reach_step)
  with Cons.hyps(1) [of "pend(l := rest)" s1 w1] d(2) show ?case by simp
qed

lemma sub_loop_reach:
  assumes "sub_loop N K getenv l wait (s, w) = Some (s', w')"
    and "reach (dispatch_start N K getenv socks interest) (dispatch_step N K getenv g socks interest) (s, w, \<lambda>_. [])"
    and "\<And>s v. reach (dispatch_start N K getenv socks interest) (dispatch_step N K getenv g socks interest) (s, v, \<lambda>_. [])
       \<Longrightarrow> l < length (subQuit s) \<and> waits socks interest l v (fst (wait v)) (snd (wait v))"
  shows "reach (dispatch_start N K getenv socks interest) (dispatch_step N K getenv g socks interest) (s', w', \<lambda>_. [])
    \<and> subQuit s' ! l"
proof -
  let ?reach = "reach (dispatch_start N K getenv socks interest) (dispatch_step N K getenv g socks interest)"
  let ?J = "\<lambda>sw. ?reach (fst sw, snd sw, \<lambda>_. [])"
  have turn: "?J t" if J: "?J x" and it: "loop_iteration (main_wait wait) (sub_dispatch N K getenv) None x = Some t" for x t
  proof -
    obtain y v where x: "x = (y, v)" by (cases x)
    obtain r v1 where wt: "wait v = (r, v1)" by (cases "wait v")
    from assms(3) [of y v] J x wt have "l < length (subQuit y)" "waits socks interest l v r v1" by simp_all
    then have "dispatch_step N K getenv g socks interest (y, v, \<lambda>_. []) (y, v1, (\<lambda>_. [])(l := activeChannels r))"
      by (intro d_wait) simp_all
    moreover have "?reach (y, v, \<lambda>_. [])" using J x by simp
    ultimately have fetched: "?reach (y, v1, (\<lambda>_. [])(l := activeChannels r))" by (rule reach_step [rotated])
    obtain t1 t2 where t: "t = (t1, t2)" by (cases t)
    with it x wt have "dispatch_all (sub_dispatch N K getenv) (activeChannels r) (y, v1) = Some (t1, t2)"
      by (auto simp: loop_iteration_def main_wait_def split: option.splits)
    moreover have "(\<lambda>_. [])(l := []) = ((\<lambda>_. []) :: batches)" by (simp add: fun_eq_iff)
    ultimately show ?thesis using dispatch_all_reach [OF _ fetched, of l t1 t2] t by simp
  qed
  have "?J (s', w') \<and> subQuit (fst (s', w')) ! l"
    by (rule event_loop_rule [where J = ?J, OF assms(1) [unfolded sub_loop_def]]) (simp only: fst_conv snd_conv assms(2), rule turn)
  then show ?thesis by simp
qed

subsection \<open>Property\<close>

text \<open>
  C8: a batch of events never dangles. However the sub reactors work through their batches,
  while connections of the same batch, of other reactors and of the main reactor come and
  go: every pointer that a reactor still has to handle points to a live connection of that
  reactor, none occurs twice, and handling it runs the callback of that connection.
\<close>

theorem batches_never_dangle:
  assumes "fd_kernel K socks interest" and "fd_net N socks interest"
    and "reach (dispatch_start N K getenv socks interest) (dispatch_step N K getenv g socks interest) (s, w, pend)"
    and "(a, ev) \<in> set (pend l)"
  shows "distinct (map fst (pend l))
    \<and> (\<exists>fd c. map_of (connections s) fd = Some c \<and> ch_addr (conn_channel c) = a \<and> ch_loop (conn_channel c) = l
         \<and> sub_dispatch N K getenv a ev (s, w) = connection_event N K getenv fd ev (s, w))"
proof -
  have inv: "server_inv socks interest (s, w)" "batches_live s pend"
    using dispatching.reach_inv [OF assms(3)] assms(1,2) by (simp_all add: dispatch_inv_def)
  have "a \<in> fst ` set (pend l)" using assms(4) by force
  with inv(2) obtain fd where fd: "lives_on s l a fd" unfolding batches_live_def by blast
  then have "sub_dispatch N K getenv a ev (s, w) = connection_event N K getenv fd ev (s, w)"
    using conn_at_live [OF inv(1)] by (simp add: sub_dispatch_def)
  moreover have "\<exists>c. map_of (connections s) fd = Some c \<and> ch_addr (conn_channel c) = a \<and> ch_loop (conn_channel c) = l"
    using fd by (auto simp: lives_on_def live_def conn_id_def)
  ultimately show ?thesis using inv(2) by (auto simp: batches_live_def)
qed

theorem batches_never_dangle_witness:
  "\<exists>pend fd c. reach (dispatch_start toy_net toy_epoll (\<lambda>_. None) toy_socks nw_list)
      (dispatch_step toy_net toy_epoll (\<lambda>_. None) (\<lambda>_. False) toy_socks nw_list) (toy_busy, toy_crowd, pend)
    \<and> pend 1 = [(2, EPOLLIN)] \<and> map_of (connections toy_busy) fd = Some c \<and> ch_addr (conn_channel c) = 2
    \<and> sub_dispatch toy_net toy_epoll (\<lambda>_. None) 2 EPOLLIN (toy_busy, toy_crowd) =
        connection_event toy_net toy_epoll (\<lambda>_. None) fd EPOLLIN (toy_busy, toy_crowd)"
proof -
  let ?reach = "reach (dispatch_start toy_net toy_epoll (\<lambda>_. None) toy_socks nw_list)
      (dispatch_step toy_net toy_epoll (\<lambda>_. None) (\<lambda>_. False) toy_socks nw_list)"
  let ?pend = "(\<lambda>_. [])(1 := [(2, EPOLLIN)])"
  have "?reach (toy_server, toy_listening, \<lambda>_. [])" by (rule reach_init) (simp add: dispatch_start_def toy_start)
  then have r: "?reach (toy_busy, toy_crowd, \<lambda>_. [])" by (rule reach_step) (rule d_accept [OF toy_accepts])
  have "waits toy_socks nw_list 1 toy_crowd (Ret [\<lparr>ev_events = EPOLLIN, ev_ptr = 2\<rparr>]) toy_crowd"
    unfolding waits_def by (auto simp: toy_crowd_def nw_list_def intro!: exI [of _ "[5]"])
  with r have "?reach (toy_busy, toy_crowd, (\<lambda>_. [])(1 := activeChannels (Ret [\<lparr>ev_events = EPOLLIN, ev_ptr = 2\<rparr>])))"
    by (intro reach_step [OF r d_wait]) (simp_all add: toy_busy_def toy_server_def)
  then have p: "?reach (toy_busy, toy_crowd, ?pend)" by (simp add: activeChannels_def)
  from batches_never_dangle [OF toy_epoll_fds toy_net_fds p, of 2 EPOLLIN 1] p show ?thesis
    by (intro exI [of _ ?pend]) auto
qed

end
