(* ===== verification/Log.thy ===== *)
theory Log
  imports Config
begin

section \<open>The logging adapter\<close>

text \<open>
  \<^verbatim>\<open>src/Log.cpp\<close>: the line that \<open>logf\<close> hands to spdlog. The expansion of the printf
  format is the parameter \<open>formatted\<close> (\<^const>\<open>None\<close> when \<^verbatim>\<open>vsnprintf\<close> reports an error);
  \<open>logf\<close> keeps what fits into its 1024-byte buffer. The asynchronous logger is spdlog's; what
  the program asks of it (its sink, its filter and flush levels) is a record.
\<close>

datatype level = Info | Warn | Error

definition level_rank :: "level \<Rightarrow> nat" where
  "level_rank l = (case l of Info \<Rightarrow> 0 | Warn \<Rightarrow> 1 | Error \<Rightarrow> 2)"

instantiation level :: linorder
begin

definition less_eq_level :: "level \<Rightarrow> level \<Rightarrow> bool" where
  "less_eq_level a b \<longleftrightarrow> level_rank a \<le> level_rank b"

definition less_level :: "level \<Rightarrow> level \<Rightarrow> bool" where
  "less_level a b \<longleftrightarrow> level_rank a < level_rank b"

instance
  by standard
    (auto simp: less_eq_level_def less_level_def level_rank_def split: level.splits)

end

subsection \<open>The logger\<close>

datatype sink = RotatingFile bytes nat nat | StderrColor

record logger =
  lg_name :: bytes
  lg_queue :: nat
  lg_workers :: nat
  lg_sinks :: "sink list"
  lg_pattern :: bytes
  lg_level :: level
  lg_flush :: level
  lg_flush_every :: nat

definition makeLogger :: "environ \<Rightarrow> logger" where
  "makeLogger getenv =
     (let file = envOr getenv ''MYSERVER_LOG_FILE'' []
      in \<lparr>lg_name = ''server'', lg_queue = 8192, lg_workers = 1,
          lg_sinks = (if file \<noteq> [] then [RotatingFile file (10 * 1024 * 1024) 5] else [StderrColor]),
          lg_pattern = ''%H:%M:%S.%f [%^%L%$] %t %v'', lg_level = Info, lg_flush = Warn, lg_flush_every = 1\<rparr>)"

subsection \<open>The adapter\<close>

definition baseName :: "bytes \<Rightarrow> bytes" where
  "baseName path =
     (if CHR ''/'' \<in> set path then rev (takeWhile (\<lambda>c. c \<noteq> CHR ''/'') (rev path)) else path)"

definition logf :: "level \<Rightarrow> bytes \<Rightarrow> nat \<Rightarrow> bytes option \<Rightarrow> (level \<times> bytes) option" where
  "logf lvl file line formatted =
     (case formatted of
        None \<Rightarrow> None
      | Some s \<Rightarrow>
          (let msg = c_str (take 1023 s)
           in Some (lvl, baseName file @ '':'' @ to_string line @ '': '' @ msg)))"

subsection \<open>Properties\<close>

text \<open>
  Every call of the logging macros passes the filter, the warnings and errors are the lines
  flushed at once, and there is exactly one sink.
\<close>

lemma makeLogger_levels:
  "lg_level (makeLogger getenv) \<le> l" and "lg_flush (makeLogger getenv) \<le> l \<longleftrightarrow> l \<noteq> Info"
  and "length (lg_sinks (makeLogger getenv)) = 1"
  by (cases l; simp add: makeLogger_def Let_def less_eq_level_def level_rank_def)+

lemma logf_line:
  assumes "logf lvl file line formatted = Some (l, msg)"
  shows "l = lvl" and "CHR 0x00 \<notin> set file \<Longrightarrow> CHR 0x00 \<notin> set msg"
    and "length msg \<le> length (baseName file) + length (to_string line) + 1026"
proof -
  obtain s where s: "formatted = Some s" "msg = baseName file @ '':'' @ to_string line @ '': '' @ c_str (take 1023 s)" "l = lvl"
    using assms by (auto simp: logf_def Let_def split: option.splits)
  show "l = lvl" by (rule s(3))
  have "length (c_str (take 1023 s)) \<le> 1023"
    by (metis c_str_def length_takeWhile_le length_take min.bounded_iff order_trans)
  then show "length msg \<le> length (baseName file) + length (to_string line) + 1026" by (simp add: s(2))
  have "set (baseName file) \<subseteq> set file" by (auto simp: baseName_def dest: set_takeWhileD)
  moreover have "CHR 0x00 \<notin> set (to_string line)"
    using to_string_digits [of line] by (auto simp: isdigit_c_def list_all_iff)
  ultimately show "CHR 0x00 \<notin> set file \<Longrightarrow> CHR 0x00 \<notin> set msg"
    using c_str_NUL_free [of "take 1023 s"] by (auto simp: s(2))
qed

lemma baseName_suffix: "suffix (baseName path) path"
proof -
  have "prefix (takeWhile (\<lambda>c. c \<noteq> CHR ''/'') (rev path)) (rev path)"
    by (metis prefixI takeWhile_dropWhile_id)
  then have "suffix (rev (takeWhile (\<lambda>c. c \<noteq> CHR ''/'') (rev path))) path"
    by (simp add: suffix_to_prefix)
  then show ?thesis
    by (simp add: baseName_def)
qed

lemma baseName_no_slash: "CHR ''/'' \<notin> set (baseName path)"
  by (auto simp: baseName_def dest: set_takeWhileD)

end
