(* ===== verification/MainProgram.thy ===== *)
theory MainProgram
  imports Dispatch Log
begin

section \<open>The main program\<close>

text \<open>
  \<^verbatim>\<open>main\<close> of \<^verbatim>\<open>test/server.cpp\<close>: the lines it logs at the start, the dispositions of the signals,
  the scope in which the event loop and the server live, and its exit. The other threads run
  while the main reactor waits and while the destructor of the server joins them: \<open>wait\<close> and
  \<open>join\<close> are functions on the server and the world, about which only \<open>server_step\<close> is known.
  A step of \<open>server_step\<close> is a callback that returned: a sub reactor that throws (a request for
  the stopped DB pool, see \<open>request_during_shutdown_throws\<close>) ends the process, and one that
  touches a freed connection is undefined, so neither is among the runs considered here.
\<close>

subsection \<open>Signals\<close>

text \<open>
  The signals the program names, and the others by number that end a process with the default
  disposition (\<^verbatim>\<open>SIGQUIT\<close>, \<^verbatim>\<open>SIGUSR1\<close> and so on); a process that has not changed the disposition of
  a signal is ended by it. The only handler is \<^verbatim>\<open>onSignal\<close>, which stays installed when it ran.
\<close>

datatype signum = SIGHUP | SIGINT | SIGPIPE | SIGTERM | OtherSignal nat

datatype disposition = SIG_DFL | SIG_IGN | OnSignal

record process =
  disposition_of :: "signum \<Rightarrow> disposition"
  g_shutdown :: "32 word"
  logged :: "(level \<times> bytes) list"

definition onSignal :: "process \<Rightarrow> process" where
  "onSignal p = p\<lparr>g_shutdown := 1\<rparr>"

definition set_signal :: "signum \<Rightarrow> disposition \<Rightarrow> process \<Rightarrow> process" where
  "set_signal sig d p = p\<lparr>disposition_of := (disposition_of p)(sig := d)\<rparr>"

definition deliver :: "signum \<Rightarrow> process \<Rightarrow> process option" where
  "deliver sig p = (case disposition_of p sig of SIG_DFL \<Rightarrow> None | SIG_IGN \<Rightarrow> Some p | OnSignal \<Rightarrow> Some (onSignal p))"

fun deliver_all :: "signum list \<Rightarrow> process \<Rightarrow> process option" where
  "deliver_all [] p = Some p"
| "deliver_all (sig # sigs) p = (case deliver sig p of None \<Rightarrow> None | Some p' \<Rightarrow> deliver_all sigs p')"

definition main_signals :: "process \<Rightarrow> process" where
  "main_signals p =
     set_signal SIGPIPE SIG_IGN (set_signal SIGHUP SIG_IGN (set_signal SIGTERM OnSignal (set_signal SIGINT OnSignal p)))"

subsection \<open>The lines of the start\<close>

text \<open>\<^verbatim>\<open>%d\<close> and \<^verbatim>\<open>%u\<close> of \<^verbatim>\<open>printf\<close>.\<close>

definition percent_d :: "int \<Rightarrow> bytes" where
  "percent_d n = (if n < 0 then ''-'' @ to_string (nat (- n)) else to_string (nat n))"

definition percent_u :: "32 word \<Rightarrow> bytes" where
  "percent_u n = to_string (unat n)"

definition log_info :: "nat \<Rightarrow> bytes \<Rightarrow> process \<Rightarrow> process" where
  "log_info line msg p =
     (case logf Info ''test/server.cpp'' line (Some msg) of
        None \<Rightarrow> p | Some entry \<Rightarrow> p\<lparr>logged := logged p @ [entry]\<rparr>)"

definition startup_lines :: "environ \<Rightarrow> (nat \<times> bytes) list" where
  "startup_lines getenv =
     [(21, ''MyFirstCPPServer starting''),
      (22, ''HTTP listen : '' @ c_str (serverHost getenv) @ '':'' @ percent_d (serverPort getenv)),
      (23, ''MySQL       : '' @ c_str (dbHost getenv) @ '':'' @ percent_u (dbPort getenv) @ '' db='' @ c_str (dbName getenv)
           @ '' user='' @ c_str (dbUser getenv)),
      (26, ''Redis       : '' @ c_str (redisHost getenv) @ '':'' @ percent_u (redisPort getenv)),
      (27, ''static dir  : '' @ c_str (staticDir getenv))]"

definition main_init :: "environ \<Rightarrow> process \<Rightarrow> process" where
  "main_init getenv p = main_signals (fold (\<lambda>(line, msg). log_info line msg) (startup_lines getenv) p)"

subsection \<open>The scope of the server\<close>

definition main_reactor ::
    "'w net \<Rightarrow> 'w kernel \<Rightarrow> ('w \<Rightarrow> bool) \<Rightarrow> (server \<times> 'w \<Rightarrow> epoll_event list sysret \<times> server \<times> 'w) \<Rightarrow> server \<times> 'w
     \<Rightarrow> (server \<times> 'w) option" where
  "main_reactor N K g wait sw =
     event_loop (\<lambda>sw. mainQuit (fst sw)) wait (main_dispatch N K) (Some (loopCallback N K g)) sw"

text \<open>
  \<open>Inr 0\<close> is the exit status of a run that ends normally, \<open>Inl\<close> the message of a failed
  \<^verbatim>\<open>errif\<close> in a constructor, \<^const>\<open>None\<close> a main loop that does not return. \<open>proc\<close> and \<open>upd\<close> read and
  update the process in the world.
\<close>

definition main_program ::
    "'w net \<Rightarrow> 'w kernel \<Rightarrow> ('w \<Rightarrow> process) \<Rightarrow> ((process \<Rightarrow> process) \<Rightarrow> 'w \<Rightarrow> 'w) \<Rightarrow> environ \<Rightarrow> nat
     \<Rightarrow> (server \<times> 'w \<Rightarrow> epoll_event list sysret \<times> server \<times> 'w) \<Rightarrow> (server \<times> 'w \<Rightarrow> server \<times> 'w) \<Rightarrow> 'w
     \<Rightarrow> ((bytes + int) \<times> 'w) option" where
  "main_program N K proc upd getenv n wait join w =
     (case epoll_new N (upd (main_init getenv) w) of
        (Inl m, w1) \<Rightarrow> Some (Inl m, w1)
      | (Inr _, w1) \<Rightarrow>
          (case server_new N K getenv n w1 of
             (Inl m, w2) \<Rightarrow> Some (Inl m, w2)
           | (Inr s, w2) \<Rightarrow>
               (case main_reactor N K (\<lambda>w. g_shutdown (proc w) \<noteq> 0) wait (s, w2) of
                  None \<Rightarrow> None
                | Some (s', w3) \<Rightarrow>
                    Some (Inr 0, server_delete N
                      (join (server_stop_pools s', upd (log_info 53 ''event loop exited, cleaning up'') w3))))))"

subsection \<open>Lemmas\<close>

text \<open>The main loop of \<^verbatim>\<open>Server\<close> is the one in which no other thread touches the server.\<close>

lemma main_loop_reactor: "main_loop N K g wait = main_reactor N K g (main_wait wait)"
  by (simp add: main_loop_def main_reactor_def fun_eq_iff)

lemma log_info_process [simp]:
  "disposition_of (log_info line msg p) = disposition_of p" "g_shutdown (log_info line msg p) = g_shutdown p"
  by (simp_all add: log_info_def logf_def Let_def split: option.splits)

text \<open>
  Once the dispositions are set none of the four signals kills the process, and the flag says
  what arrived. The disposition of every other signal is as it was.
\<close>

definition named_signals :: "signum set" where
  "named_signals = {SIGHUP, SIGINT, SIGPIPE, SIGTERM}"

definition guarded :: "process \<Rightarrow> bool" where
  "guarded p \<longleftrightarrow> disposition_of p SIGINT = OnSignal \<and> disposition_of p SIGTERM = OnSignal
     \<and> disposition_of p SIGHUP = SIG_IGN \<and> disposition_of p SIGPIPE = SIG_IGN"

lemma init_dispositions:
  "disposition_of (fold (\<lambda>(line, msg). log_info line msg) ls p) = disposition_of p"
  by (induction ls arbitrary: p) auto

lemma main_init_guarded: "guarded (main_init getenv p)"
  by (simp add: guarded_def main_init_def main_signals_def set_signal_def)

lemma other_signal_kills:
  "disposition_of p (OtherSignal k) = SIG_DFL \<Longrightarrow> deliver (OtherSignal k) (main_init getenv p) = None"
  by (simp add: deliver_def main_init_def main_signals_def set_signal_def init_dispositions)

lemma deliver_all_survives:
  "guarded p \<Longrightarrow> set sigs \<subseteq> named_signals \<Longrightarrow> \<exists>p'. deliver_all sigs p = Some p' \<and> guarded p'
     \<and> g_shutdown p' = (if set sigs \<inter> {SIGINT, SIGTERM} \<noteq> {} then 1 else g_shutdown p)"
proof (induction sigs arbitrary: p)
  case (Cons sig sigs)
  obtain p1 where p1: "deliver sig p = Some p1" "guarded p1" "g_shutdown p1 = (if sig \<in> {SIGINT, SIGTERM} then 1 else g_shutdown p)"
    using Cons.prems by (auto simp: named_signals_def guarded_def deliver_def onSignal_def)
  with Cons.IH [OF p1(2)] Cons.prems(2) show ?case by auto
qed simp

text \<open>The password of the database is in no line of the start.\<close>

lemma startup_lines_hide_password:
  assumes "\<And>v. v \<noteq> ''MYSERVER_DB_PASSWD'' \<Longrightarrow> getenv v = getenv' v"
  shows "startup_lines getenv = startup_lines getenv'"
proof -
  have "envOr getenv v d = envOr getenv' v d" "envOrInt getenv v i = envOrInt getenv' v i"
    if "v \<noteq> ''MYSERVER_DB_PASSWD''" for v d i
    using assms [OF that] by (simp_all add: envOr_def envOrInt_def)
  then show ?thesis
    by (simp only: startup_lines_def serverHost_def serverPort_def dbHost_def dbPort_def dbName_def dbUser_def redisHost_def
        redisPort_def staticDir_def list.inject char.inject simp_thms list.distinct)
qed

lemma connection_event_quitting:
  assumes "connection_event N K getenv fd ev (s, w) = Some (s', w')"
  shows "subQuit s' = subQuit s \<and> mainQuit s' = mainQuit s"
  using assms by (cases rule: connection_event_cases) (auto simp: deleteConnection_def split: if_splits)

lemma server_step_quitting:
  assumes "server_step N K getenv g socks interest sw sw'" and "quitting n sw"
  shows "quitting n sw'"
  using assms(1)
proof cases
  case (step_accept s w)
  with accept_event_quitting assms(2) show ?thesis by blast
next
  case (step_event fd revents s w)
  with connection_event_quitting [of N K getenv fd revents s w "fst sw'" "snd sw'"] assms(2) show ?thesis
    by (simp add: quitting_def)
next
  case (step_tick s w)
  with assms(2) show ?thesis
    by (auto simp: loopCallback_def server_stop_def quitting_def list_all_iff)
next
  case (step_world w w' s sh)
  with assms(2) show ?thesis by (simp add: quitting_def)
qed

text \<open>Nobody takes a quit flag back.\<close>

lemma accept_event_mainQuit:
  assumes "accept_event N K sw = Some sw'"
  shows "mainQuit (fst sw') = mainQuit (fst sw)"
proof -
  let ?I = "\<lambda>s w. mainQuit s = mainQuit (fst sw)"
  have "?I (fst sw') (snd sw') \<and> (\<exists>w0 e. ?I (fst sw') w0
      \<and> n_accept N (listenFd (fst sw)) w0 = (Err e, snd sw') \<and> e \<noteq> EINTR)"
    by (rule acceptConnection_rule [OF assms [unfolded accept_event_def]])
      (auto simp: newConnection_def split: if_splits prod.splits)
  then show ?thesis by simp
qed

lemma server_step_mainQuit:
  assumes "server_step N K getenv g socks interest sw sw'" and "mainQuit (fst sw)"
  shows "mainQuit (fst sw')"
  using assms(1)
proof cases
  case (step_accept s w)
  with accept_event_mainQuit assms(2) show ?thesis by fastforce
next
  case (step_event fd revents s w)
  with connection_event_quitting [of N K getenv fd revents s w "fst sw'" "snd sw'"] assms(2) show ?thesis by simp
next
  case (step_tick s w)
  with assms(2) show ?thesis by (auto simp: loopCallback_def server_stop_def)
qed (use assms(2) in simp)

lemma server_steps_mainQuit:
  "(server_step N K getenv g socks interest)\<^sup>*\<^sup>* sw sw' \<Longrightarrow> mainQuit (fst sw) \<Longrightarrow> mainQuit (fst sw')"
  by (induction rule: rtranclp_induct) (auto dest: server_step_mainQuit)

lemma server_new_quitting: "server_new N K getenv n w = (Inr s, w') \<Longrightarrow> quitting n (s, w')"
  by (auto simp: server_new_def quitting_def split: prod.splits sum.splits)

lemma epoll_new_same: "fd_net N socks interest \<Longrightarrow> epoll_new N w = (r, w') \<Longrightarrow> same_fds socks interest w w'"
  by (auto simp: epoll_new_def fd_net_def split: prod.splits)

text \<open>What the main reactor keeps over its turns, whatever the other threads do meanwhile.\<close>

definition serving :: "('w \<Rightarrow> int set) \<Rightarrow> ('w \<Rightarrow> interests) \<Rightarrow> nat \<Rightarrow> server \<times> 'w \<Rightarrow> bool" where
  "serving socks interest n sw \<longleftrightarrow> server_inv socks interest sw \<and> quitting n sw"

lemma server_steps_serving:
  assumes "fd_kernel K socks interest" and "fd_net N socks interest"
    and "(server_step N K getenv g socks interest)\<^sup>*\<^sup>* sw sw'" and "serving socks interest n sw"
  shows "serving socks interest n sw'"
  using assms(3,4)
  by (induction rule: rtranclp_induct) (use server_step_inv [OF assms(1,2)] server_step_quitting in \<open>auto simp: serving_def\<close>)

lemma main_turn_serving:
  assumes "fd_kernel K socks interest" and "fd_net N socks interest"
    and "\<And>sw. (server_step N K getenv g socks interest)\<^sup>*\<^sup>* sw (snd (wait sw))"
    and "loop_iteration wait (main_dispatch N K) (Some (loopCallback N K g)) sw = Some sw'" and "serving socks interest n sw"
  shows "serving socks interest n sw'"
proof -
  obtain r sw1 where w: "wait sw = (r, sw1)" by (metis prod.exhaust)
  with assms(4) obtain sw2 where d: "dispatch_all (main_dispatch N K) (activeChannels r) sw1 = Some sw2"
    and sw': "sw' = loopCallback N K g sw2"
    by (auto simp: loop_iteration_def split: option.splits)
  note steps = server_steps_serving [OF assms(1,2), where getenv = getenv and g = g and n = n]
  have "serving socks interest n sw1" using steps [OF assms(3) assms(5)] w by simp
  moreover have "serving socks interest n y" if "serving socks interest n x" "main_dispatch N K p ev x = Some y" for x y p ev
  proof (cases "y = x")
    case False
    with that(2) have "accept_event N K (fst x, snd x) = Some y" by (auto simp: main_dispatch_def split: if_splits)
    from server_step.step_accept [OF this] steps [OF r_into_rtranclp that(1)] show ?thesis by simp
  qed (use that(1) in simp)
  ultimately have "serving socks interest n sw2"
    using dispatch_all_rule [where J = "serving socks interest n", OF d] by blast
  moreover have "server_step N K getenv g socks interest (fst sw2, snd sw2) (loopCallback N K g (fst sw2, snd sw2))"
    by (rule server_step.step_tick)
  ultimately show ?thesis using steps [OF r_into_rtranclp] sw' by simp
qed

lemma stop_pools_serving:
  assumes "serving socks interest n (s, w)" and "same_fds socks interest w w'"
  shows "serving socks interest n (server_stop_pools s, w')"
proof -
  have "server_inv socks interest (s, w)" using assms(1) by (simp add: serving_def)
  from server_rel_cong [OF this assms(2), of "server_stop_pools s"] this assms(1) show ?thesis
    by (simp add: serving_def quitting_def server_stop_pools_def live_def server_rel_def table_okD(1))
qed

subsection \<open>Property\<close>

text \<open>
  C21: a signal ends the program cleanly. The constructors succeeded, and the signals that
  arrived since the program set its dispositions, all of them among SIGHUP, SIGINT, SIGPIPE
  and SIGTERM, and SIGINT or SIGTERM among them, are seen by the housekeeping of some turn of
  the main reactor. The other threads run callbacks that return, before the main loop ends
  and while they are joined (a throw or a use of freed memory in one of them is excluded).
  Then none of these signals killed the process, and the main loop returns; from there on,
  whatever the other threads still do, the quit flag of every sub reactor stays set, so that
  each of their loops returns when it tests it next; and once they are joined the program
  exits with status 0, with every socket closed and nothing registered.
\<close>

theorem main_exits_clean:
  assumes "fd_kernel K socks interest" and "fd_net N socks interest"
    and "\<And>sw. (server_step N K getenv g socks interest)\<^sup>*\<^sup>* sw (snd (wait sw))"
    and "\<And>sw. (server_step N K getenv g socks interest)\<^sup>*\<^sup>* sw (join sw)"
    and "\<And>f w. same_fds socks interest w (upd f w)" and "g = (\<lambda>w. g_shutdown (proc w) \<noteq> 0)"
    and "socks w = {}" and "interest w = (\<lambda>ep fd. None)" and "0 < n"
    and "epoll_new N (upd (main_init getenv) w) = (Inr (), w1)" and "server_new N K getenv n w1 = (Inr s, w2)"
    and "loop_runs wait (main_dispatch N K) (Some (loopCallback N K g)) (s, w2) sw1" and "wait sw1 = (r, sw2)"
    and "dispatch_all (main_dispatch N K) (activeChannels r) sw2 = Some (s3, w3)"
    and "deliver_all sigs (main_init getenv (proc w)) \<in> {None, Some (proc w3)}"
    and "set sigs \<subseteq> named_signals" and "set sigs \<inter> {SIGINT, SIGTERM} \<noteq> {}"
  shows "\<exists>s' w' w''. deliver_all sigs (main_init getenv (proc w)) = Some (proc w3)
    \<and> main_reactor N K g wait (s, w2) = Some (s', w')
    \<and> (\<forall>sw l. (server_step N K getenv g socks interest)\<^sup>*\<^sup>* (s', w') sw \<longrightarrow> l < n \<longrightarrow>
         subQuit (fst sw) ! l \<and> sub_loop N K getenv l poll sw = Some sw)
    \<and> main_program N K proc upd getenv n wait join w = Some (Inr 0, w'')
    \<and> socks w'' = {} \<and> interest w'' = (\<lambda>ep fd. None)"
proof -
  let ?it = "loop_iteration wait (main_dispatch N K) (Some (loopCallback N K g))" and ?t = "loopCallback N K g (s3, w3)"
  have alive: "deliver_all sigs (main_init getenv (proc w)) = Some (proc w3)" and flag: "g_shutdown (proc w3) = 1"
    using deliver_all_survives [OF main_init_guarded assms(16), of getenv "proc w"] assms(15,17) by auto
  from flag have quit: "mainQuit (fst ?t)" using assms(6) by (simp add: loopCallback_def server_stop_def)
  have "?it sw1 = Some ?t" using assms(13,14) by (simp add: loop_iteration_def)
  with assms(12) have "loop_runs wait (main_dispatch N K) (Some (loopCallback N K g)) (s, w2) ?t" by (rule loop_runs_snoc)
  with quit obtain u where "main_reactor N K g wait (s, w2) = Some u"
    using event_loop_returns [where quit = "\<lambda>sw. mainQuit (fst sw)"] unfolding main_reactor_def by blast
  then obtain s' w' where u: "main_reactor N K g wait (s, w2) = Some (s', w')" by (cases u) simp
  have w1: "same_fds socks interest w w1"
    using assms(5) [of w "main_init getenv"] epoll_new_same [OF assms(2,10)] by (simp add: same_fds_def)
  have "server_start N K getenv socks interest (s, w2)"
    using assms(7-9,11) w1 unfolding server_start_def same_fds_def by auto
  then have start: "serving socks interest n (s, w2)"
    using server_start_inv [OF assms(1,2)] server_new_quitting [OF assms(11)] by (simp add: serving_def)
  have "serving socks interest n (s', w') \<and> mainQuit (fst (s', w'))"
    by (rule event_loop_rule [where J = "serving socks interest n", OF u [unfolded main_reactor_def] start])
      (rule main_turn_serving [OF assms(1-3)])
  then have srv: "serving socks interest n (s', w')" and mq: "mainQuit (fst (s', w'))" by simp_all
  let ?j = "join (server_stop_pools s', upd (log_info 53 ''event loop exited, cleaning up'') w')"
  have "serving socks interest n ?j"
    by (rule server_steps_serving [OF assms(1,2,4) stop_pools_serving [OF srv assms(5)]])
  then have "socks (server_delete N ?j) = {} \<and> interest (server_delete N ?j) = (\<lambda>ep fd. None)"
    using server_delete_inv [OF assms(2), where s = "fst ?j" and w = "snd ?j"] by (simp add: serving_def)
  moreover have "subQuit (fst sw) ! l \<and> sub_loop N K getenv l poll sw = Some sw"
    if steps: "(server_step N K getenv g socks interest)\<^sup>*\<^sup>* (s', w') sw" and l: "l < n" for sw l
  proof -
    have "quitting n sw" using server_steps_serving [OF assms(1,2) steps srv] by (simp add: serving_def)
    with server_steps_mainQuit [OF steps mq] l have "subQuit (fst sw) ! l" by (auto simp: quitting_def list_all_length)
    then show ?thesis unfolding sub_loop_def by (subst event_loop_step) simp
  qed
  moreover have "main_program N K proc upd getenv n wait join w = Some (Inr 0, server_delete N ?j)"
    using assms(6,10,11) u by (simp add: main_program_def)
  ultimately show ?thesis using u alive by blast
qed

text \<open>
  A server on two sub reactors that is told to end by \<^verbatim>\<open>kill\<close>, after its terminal hung up,
  during its first \<^verbatim>\<open>epoll_wait\<close>, while two clients wait to be accepted.
\<close>

record main_world = netw + mw_process :: process

definition mw_boot :: main_world where
  "mw_boot = netw.extend toy_boot (main_world.fields \<lparr>disposition_of = (\<lambda>_. SIG_DFL), g_shutdown = 0, logged = []\<rparr>)"

definition mw_wait :: "server \<times> main_world \<Rightarrow> epoll_event list sysret \<times> server \<times> main_world" where
  "mw_wait sw =
     (case sw of (s, w) \<Rightarrow>
        (Err EINTR, (s, case deliver_all [SIGHUP, SIGTERM] (mw_process w) of None \<Rightarrow> w | Some p \<Rightarrow> w\<lparr>mw_process := p\<rparr>)))"

lemma mw_starts:
  "server_new toy_net toy_epoll (\<lambda>_. None) 2 (netw.extend toy_boot x) = (Inr toy_server, netw.extend toy_listening x)"
  by (simp add: server_new_def acceptor_new_def socket_new_def socket_bind_def socket_listen_def errif_def failed_def
      socket_setnonblocking_def enableReading_def updateChannel_def setCallback_def channel_new_def toy_run_defs
      epoll_flags upt_rec numeral_2_eq_2 epoll_new_def pool_add_def pool_new_def netw.defs)

lemma mw_wait_steps:
  "(server_step toy_net toy_epoll getenv g toy_socks nw_list)\<^sup>*\<^sup>* sw (snd (mw_wait sw))"
proof -
  obtain s w where sw: "sw = (s, w)" by (cases sw)
  have "same_fds toy_socks nw_list w (snd (snd (mw_wait (s, w))))"
    by (simp add: mw_wait_def same_fds_def nw_list_def fun_eq_iff split: option.splits)
  from server_step.step_world [OF this, where s = s and sh = "serverShared s"] show ?thesis
    by (intro r_into_rtranclp) (simp add: sw mw_wait_def)
qed

theorem main_exits_clean_witness:
  "\<exists>s' w' w''. main_reactor toy_net toy_epoll (\<lambda>w. g_shutdown (mw_process w) \<noteq> 0) mw_wait
        (toy_server, netw.extend toy_listening (main_world.fields (main_init (\<lambda>_. None) (mw_process mw_boot)))) = Some (s', w')
    \<and> sub_loop toy_net toy_epoll (\<lambda>_. None) 1 (\<lambda>w. (Ret [], w)) (s', w') = Some (s', w')
    \<and> main_program toy_net toy_epoll mw_process mw_process_update (\<lambda>_. None) 2 mw_wait id mw_boot = Some (Inr 0, w'')
    \<and> toy_socks w'' = {}"
proof -
  let ?x = "main_world.fields (main_init (\<lambda>_. None) (mw_process mw_boot))"
  let ?g = "\<lambda>w. g_shutdown (mw_process w) \<noteq> 0"
  have e: "epoll_new toy_net (mw_process_update (main_init (\<lambda>_. None)) mw_boot) = (Inr (), netw.extend toy_boot ?x)"
    by (simp add: epoll_new_def toy_net_def errif_def failed_def mw_boot_def toy_boot_def netw.defs main_world.defs)
  obtain p where p: "deliver_all [SIGHUP, SIGTERM] (main_init (\<lambda>_. None) (mw_process mw_boot)) = Some p"
    using deliver_all_survives [OF main_init_guarded, of "[SIGHUP, SIGTERM]"] by (auto simp: named_signals_def)
  then have d: "dispatch_all (main_dispatch toy_net toy_epoll) (activeChannels (Err EINTR))
      (snd (mw_wait (toy_server, netw.extend toy_listening ?x))) = Some (toy_server, netw.extend toy_listening (main_world.fields p))"
    by (simp add: mw_wait_def activeChannels_def toy_listening_def toy_boot_def netw.defs main_world.defs)
  have w: "mw_wait (toy_server, netw.extend toy_listening ?x) = (Err EINTR, snd (mw_wait (toy_server, netw.extend toy_listening ?x)))"
    by (simp add: mw_wait_def)
  have same: "\<And>f w. same_fds toy_socks nw_list w (mw_process_update f w)"
    by (simp add: same_fds_def nw_list_def fun_eq_iff)
  have z: "toy_socks mw_boot = {}" "nw_list mw_boot = (\<lambda>ep fd. None)" "0 < (2 :: nat)"
    by (simp_all add: mw_boot_def toy_boot_def nw_list_def fun_eq_iff netw.defs)
  have "mw_process (netw.extend toy_listening (main_world.fields p)) = p"
    by (simp add: toy_listening_def toy_boot_def netw.defs main_world.defs)
  with p have s: "deliver_all [SIGHUP, SIGTERM] (main_init (\<lambda>_. None) (mw_process mw_boot))
      \<in> {None, Some (mw_process (netw.extend toy_listening (main_world.fields p)))}" by simp
  have join: "(server_step toy_net toy_epoll (\<lambda>_. None) ?g toy_socks nw_list)\<^sup>*\<^sup>* sw (id sw)" for sw by simp
  have "set [SIGHUP, SIGTERM] \<subseteq> named_signals" "set [SIGHUP, SIGTERM] \<inter> {SIGINT, SIGTERM} \<noteq> {}"
    by (simp_all add: named_signals_def)
  from main_exits_clean [where proc = mw_process and upd = mw_process_update and wait = mw_wait and poll = "\<lambda>w. (Ret [], w)",
      OF toy_epoll_fds toy_net_fds mw_wait_steps join same refl z e mw_starts runs_refl w d s this]
  obtain s' w' w'' where r: "main_reactor toy_net toy_epoll ?g mw_wait (toy_server, netw.extend toy_listening ?x) = Some (s', w')"
    and l: "\<forall>sw l. (server_step toy_net toy_epoll (\<lambda>_. None) ?g toy_socks nw_list)\<^sup>*\<^sup>* (s', w') sw \<longrightarrow> l < 2 \<longrightarrow>
       subQuit (fst sw) ! l \<and> sub_loop toy_net toy_epoll (\<lambda>_. None) l (\<lambda>w. (Ret [], w)) sw = Some sw"
    and m: "main_program toy_net toy_epoll mw_process mw_process_update (\<lambda>_. None) 2 mw_wait id mw_boot = Some (Inr 0, w'')"
    and c: "toy_socks w'' = {}"
    by (elim exE conjE) blast
  from l [rule_format, OF rtranclp.rtrancl_refl, of 1]
  have "sub_loop toy_net toy_epoll (\<lambda>_. None) 1 (\<lambda>w. (Ret [], w)) (s', w') = Some (s', w')" by simp
  with r m c show ?thesis by blast
qed

end
