(* ===== verification/Finish.thy ===== *)
theory Finish
  imports Threads "HOL-Library.Multiset"
begin

section \<open>Threads that finish\<close>

text \<open>
  Threads none of whose actions can block, and the end of all their work: a thread is a
  well-founded tree of actions, so that after finitely many steps nothing is left, whatever
  the world does in between.
\<close>

subsection \<open>No action waits\<close>

primrec unblocked :: "('s, 'r) proc \<Rightarrow> bool" where
  "unblocked (Done r) = True"
| "unblocked (Act f) = (\<forall>s. case map_option (map_prod id unblocked) (f s) of None \<Rightarrow> False | Some (s', ok) \<Rightarrow> ok)"

lemma unblocked_slot:
  "(case map_option (map_prod id unblocked) x of None \<Rightarrow> False | Some (s', ok) \<Rightarrow> ok) \<longleftrightarrow> (\<exists>s' p. x = Some (s', p) \<and> unblocked p)"
  by (cases x) auto

lemma unblocked_Act: "unblocked (Act f) \<longleftrightarrow> (\<forall>s. \<exists>s' p. f s = Some (s', p) \<and> unblocked p)"
  by (simp only: unblocked.simps unblocked_slot)

declare unblocked.simps(2) [simp del]

lemma unblocked_ActD: "unblocked (Act f) \<Longrightarrow> f s \<noteq> None" "unblocked (Act f) \<Longrightarrow> f s = Some (s', p) \<Longrightarrow> unblocked p"
  unfolding unblocked_Act by (metis option.distinct(1), metis option.inject prod.inject)

lemma unblocked_atomically: "unblocked (atomically f) \<longleftrightarrow> (\<forall>s. f s \<noteq> None)"
proof
  assume "unblocked (atomically f)"
  then show "\<forall>s. f s \<noteq> None" using unblocked_ActD(1) by (fastforce simp: atomically_def)
next
  assume "\<forall>s. f s \<noteq> None"
  then show "unblocked (atomically f)" unfolding atomically_def unblocked_Act by fastforce
qed

lemma unblocked_and_then:
  assumes "unblocked p" and "\<And>r. unblocked (k r)"
  shows "unblocked (and_then p k)"
  using assms(1)
proof (induction p)
  case (Act f)
  have "\<exists>s' p. f s = Some (s', p) \<and> unblocked (and_then p k)" for s
  proof -
    obtain s' p where p: "f s = Some (s', p)" using unblocked_ActD(1) [OF Act.prems, of s] by auto
    have "Some (s', p) \<in> range f" using p rangeI [of f s] by simp
    from Act.IH [OF this, of "(s', p)" p] unblocked_ActD(2) [OF Act.prems p] p show ?thesis by auto
  qed
  then show ?case unfolding and_then.simps unblocked_Act by fastforce
qed (simp add: assms(2))

subsection \<open>Work only shrinks\<close>

text \<open>What is left of a thread after its next action.\<close>

definition next_of :: "(('s, 'r) proc \<times> ('s, 'r) proc) set" where
  "next_of = {(q, p). \<exists>f s s'. p = Act f \<and> f s = Some (s', q)}"

lemma wf_next_of: "wf next_of"
proof (rule wfUNIVI)
  fix P :: "('s, 'r) proc \<Rightarrow> bool" and x
  assume step: "\<forall>x. (\<forall>y. (y, x) \<in> next_of \<longrightarrow> P y) \<longrightarrow> P x"
  show "P x"
  proof (induction x)
    case (Done r)
    show ?case using step by (simp add: next_of_def)
  next
    case (Act f)
    have "P q" if "f s = Some (s', q)" for s s' q
    proof -
      have "Some (s', q) \<in> range f" using that rangeI [of f s] by simp
      from Act [OF this, of "(s', q)" q] show ?thesis by simp
    qed
    then have "\<forall>y. (y, Act f) \<in> next_of \<longrightarrow> P y" by (auto simp: next_of_def)
    with step show ?case by blast
  qed
qed

definition left_over :: "('t \<Rightarrow> ('j \<times> ('s, 'r) proc) option) \<Rightarrow> ('s, 'r) proc multiset" where
  "left_over ts = image_mset (\<lambda>i. snd (the (ts i))) (mset_set (dom ts))"

lemma left_over_split:
  assumes "finite (dom ts)" and "ts i = Some (j, p)"
  shows "left_over ts = add_mset p (left_over (ts(i := None)))"
proof -
  have "mset_set (dom ts) = add_mset i (mset_set (dom ts - {i}))"
    using assms by (intro mset_set.remove) auto
  moreover have "image_mset (\<lambda>k. snd (the (ts k))) (mset_set (dom ts - {i}))
      = image_mset (\<lambda>k. snd (the ((ts(i := None)) k))) (mset_set (dom ts - {i}))"
    using assms(1) by (intro image_mset_cong) auto
  ultimately show ?thesis using assms(2) by (simp add: left_over_def)
qed

text \<open>
  One action of one thread, or the end of one, and then anything that \<open>env\<close> allows; no job is
  started.
\<close>

definition work_step ::
    "('s \<Rightarrow> 's \<Rightarrow> bool) \<Rightarrow> 's \<times> ('t \<Rightarrow> ('j \<times> ('s, 'r) proc) option) \<Rightarrow> 's \<times> ('t \<Rightarrow> ('j \<times> ('s, 'r) proc) option) \<Rightarrow> bool" where
  "work_step env st st' \<longleftrightarrow>
     (\<exists>s1. threads_step (\<lambda>_. False) (\<lambda>_ _. undefined) (\<lambda>_ _. False) st (s1, snd st') \<and> env\<^sup>*\<^sup>* s1 (fst st'))"

lemma work_step_cases:
  assumes "work_step env (s, ts) (s', ts')"
  obtains i j f s1 p where "ts i = Some (j, Act f)" "f s = Some (s1, p)" "ts' = ts(i \<mapsto> (j, p))" "env\<^sup>*\<^sup>* s1 s'"
  | i j r where "ts i = Some (j, Done r)" "ts' = ts(i := None)" "env\<^sup>*\<^sup>* s s'"
  using assms unfolding work_step_def by (auto elim!: threads_step.cases)

lemma work_step_shrinks:
  assumes "work_step env (s, ts) (s', ts')" and "finite (dom ts)"
  shows "(left_over ts', left_over ts) \<in> mult next_of \<and> finite (dom ts')"
  using assms(1)
proof (cases rule: work_step_cases)
  case (1 i j f s1 p)
  have "left_over ts' = add_mset p (left_over (ts(i := None)))"
    using left_over_split [of ts' i j p] 1(3) assms(2) by simp
  moreover have "left_over ts = add_mset (Act f) (left_over (ts(i := None)))"
    by (rule left_over_split [OF assms(2) 1(1)])
  moreover have "(p, Act f) \<in> next_of" using 1(2) by (auto simp: next_of_def)
  ultimately show ?thesis
    using one_step_implies_mult [of "{#Act f#}" "{#p#}" next_of "left_over (ts(i := None))"] 1(3) assms(2) by simp
next
  case (2 i j r)
  have "left_over ts = add_mset (Done r) (left_over ts')" using left_over_split [OF assms(2) 2(1)] 2(2) by simp
  then show ?thesis
    using one_step_implies_mult [of "{#Done r#}" "{#}" next_of "left_over ts'"] 2(2) assms(2) by simp
qed

lemma work_terminates:
  fixes ts :: "'t \<Rightarrow> ('j \<times> ('s, 'r) proc) option"
  assumes "finite (dom ts)"
  shows "termip (work_step env) (s, ts)"
proof -
  have "\<forall>s (ts :: 't \<Rightarrow> ('j \<times> ('s, 'r) proc) option). finite (dom ts) \<longrightarrow> left_over ts = m \<longrightarrow> termip (work_step env) (s, ts)" 
    for m :: "('s, 'r) proc multiset"
  proof (induction m rule: wf_induct_rule [OF wf_mult [OF wf_next_of]])
    case (1 m)
    show ?case
    proof (intro allI impI)
      fix s and ts :: "'t \<Rightarrow> ('j \<times> ('s, 'r) proc) option"
      assume ts: "finite (dom ts)" "left_over ts = m"
      show "termip (work_step env) (s, ts)"
      proof (rule accpI)
        fix y assume "(work_step env)\<inverse>\<inverse> y (s, ts)"
        then have "work_step env (s, ts) (fst y, snd y)" by simp
        with work_step_shrinks [OF this ts(1)] 1 ts(2) have "termip (work_step env) (fst y, snd y)" by blast
        then show "termip (work_step env) y" by simp
      qed
    qed
  qed
  with assms show ?thesis by blast
qed

text \<open>Unblocked threads have a step left until all of them are finished.\<close>

definition ready_slots :: "('t \<Rightarrow> ('j \<times> ('s, 'r) proc) option) \<Rightarrow> bool" where
  "ready_slots ts \<longleftrightarrow> finite (dom ts) \<and> (\<forall>i j p. ts i = Some (j, p) \<longrightarrow> unblocked p)"

lemma ready_slots_step:
  assumes "threads_step job code env (s, ts) (s', ts')" and "ready_slots ts" and "\<And>i j. job j \<Longrightarrow> unblocked (code i j)"
  shows "ready_slots ts'"
  using assms(1)
proof (cases rule: threads_step.cases)
  case (thread_acts i j f p)
  have "unblocked (Act f)" using assms(2) thread_acts by (auto simp: ready_slots_def)
  then have "unblocked p" by (rule unblocked_ActD(2)) (rule thread_acts)
  with assms(2) thread_acts show ?thesis by (auto simp: ready_slots_def)
qed (use assms(2,3) in \<open>auto simp: ready_slots_def\<close>)

lemma work_step_ready:
  assumes "work_step env (s, ts) (s', ts')" and "ready_slots ts"
  shows "ready_slots ts'"
  using assms(1) unfolding work_step_def by (auto intro: ready_slots_step [OF _ assms(2)])

lemma work_enabled:
  assumes "ready_slots ts" and "ts i = Some x"
  shows "\<exists>st. work_step env (s, ts) st"
proof -
  obtain j p where x: "ts i = Some (j, p)" using assms(2) by (cases x) simp
  show ?thesis
  proof (cases p)
    case (Done r)
    with x have "work_step env (s, ts) (s, ts(i := None))"
      unfolding work_step_def by (auto intro: thread_finishes)
    then show ?thesis ..
  next
    case (Act f)
    have "unblocked (Act f)" using assms(1) x Act by (auto simp: ready_slots_def)
    then obtain s' q where "f s = Some (s', q)" using unblocked_ActD(1) by fastforce
    with x Act have "work_step env (s, ts) (s', ts(i \<mapsto> (j, q)))"
      unfolding work_step_def by (auto intro: thread_acts)
    then show ?thesis ..
  qed
qed

lemma work_steps_ready:
  assumes "(work_step env)\<^sup>*\<^sup>* st st'" and "ready_slots (snd st)"
  shows "ready_slots (snd st')"
  using assms by (induction rule: rtranclp_induct) (auto intro: work_step_ready)

lemma work_runs_out:
  assumes "ready_slots ts"
  shows "\<exists>s'. (work_step env)\<^sup>*\<^sup>* (s, ts) (s', Map.empty)"
proof -
  have "termip (work_step env) (s, ts)" using assms by (intro work_terminates) (simp add: ready_slots_def)
  then have "ready_slots (snd (s, ts)) \<longrightarrow> (\<exists>s'. (work_step env)\<^sup>*\<^sup>* (s, ts) (s', Map.empty))"
  proof (induction "(s, ts)" arbitrary: s ts rule: accp.induct)
    case (accI s ts)
    show ?case
    proof (cases "ts = Map.empty")
      case False
      then obtain i x where "ts i = Some x" by fastforce
      show ?thesis
      proof
        assume r: "ready_slots (snd (s, ts))"
        with \<open>ts i = Some x\<close> obtain s1 ts1 where w: "work_step env (s, ts) (s1, ts1)" using work_enabled by fastforce
        with accI(2) [of s1 ts1] work_step_ready [OF w] r show "\<exists>s'. (work_step env)\<^sup>*\<^sup>* (s, ts) (s', Map.empty)"
          by (auto intro: converse_rtranclp_into_rtranclp)
      qed
    qed auto
  qed
  with assms show ?thesis by simp
qed

end
