(* ===== verification/DbFinish.thy ===== *)
theory DbFinish
  imports DbConcurrent Finish
begin

section \<open>The database threads finish their work\<close>

text \<open>
  No database thread ever waits for another one without a way out: a pool without an idle
  connection is left by the timeout of \<^verbatim>\<open>wait_for\<close> (\<^verbatim>\<open>kPoolAcquireTimeoutSec\<close>), an answer that
  finds the socket full is cut short. So every thread can always take its next action, and
  the tasks that were started come to their end under any schedule.
\<close>

subsection \<open>No action of a task blocks\<close>


lemma reply_unblocked:
  assumes "write_accepts (sv_kernel S) sent" and "finite_eintr (sv_kernel S) fuel"
  shows "unblocked (reply_proc S fd ka st body)"
  using reply_returns [OF assms] by (fastforce simp: reply_proc_def unblocked_atomically)

lemma call_unblocked: "unblocked (world_call f)"
  by (simp add: world_call_def unblocked_atomically split: prod.splits)

lemma pool_unblocked:
  "unblocked (mysql_acquire i)" "unblocked (mysql_giveback conn)" "unblocked redis_acquire" "unblocked (redis_giveback c)"
  by (simp_all add: mysql_acquire_def mysql_giveback_def redis_acquire_def redis_giveback_def unblocked_atomically split: prod.splits)

lemma discard_unblocked: "unblocked (redis_discard_proc R c)"
proof -
  have "unblocked (atomically (\<lambda>s. case redis_createConn R (redisPool s) (world s) of (fresh, w) \<Rightarrow> Some (fresh, s\<lparr>world := w\<rparr>)))"
    by (simp add: unblocked_atomically split: prod.splits)
  then show ?thesis
    unfolding redis_discard_proc_def
    by (auto intro!: unblocked_and_then call_unblocked pool_unblocked split: option.splits)
qed

lemma redis_op_unblocked: "unblocked (redis_op_proc R command broken answer)"
  unfolding redis_op_proc_def
  by (auto intro!: unblocked_and_then call_unblocked pool_unblocked discard_unblocked split: option.splits)

lemma draw_unblocked: "unblocked (draw_token_proc S n token)"
  by (induction n arbitrary: token) (auto intro!: unblocked_and_then call_unblocked split: option.splits)

lemmas unblocked_parts = call_unblocked pool_unblocked redis_op_unblocked draw_unblocked

lemma task_unblocked:
  assumes "write_accepts (sv_kernel S) sent" and "finite_eintr (sv_kernel S) fuel"
  shows "unblocked (task_proc S i t)"
proof -
  note r = reply_unblocked [OF assms]
  have finish: "unblocked (login_finish_proc S fd ka u q found)" for fd ka u q found
    unfolding login_finish_proc_def redis_setex_proc_def
    by (auto intro!: unblocked_and_then unblocked_parts r split: option.splits)
  have register: "unblocked (register_body_proc S fd ka u q conn)" for fd ka u q conn
    unfolding register_body_proc_def
    by (auto intro!: unblocked_and_then unblocked_parts r split: option.splits)
  have login: "unblocked (login_mysql_proc S fd ka u conn)" for fd ka u conn
    unfolding login_mysql_proc_def redis_setex_proc_def
    by (auto intro!: unblocked_and_then unblocked_parts r split: option.splits list.splits)
  have guard: "(\<And>conn. unblocked (body conn)) \<Longrightarrow> unblocked (mysql_guard_proc i body)" for body :: "nat option \<Rightarrow> ('a, 'x) db_proc"
    unfolding mysql_guard_proc_def by (intro unblocked_and_then pool_unblocked) simp_all
  have "unblocked (work_proc S i t)"
    by (cases t) (auto simp: redis_get_proc_def redis_del_proc_def
        intro!: unblocked_and_then unblocked_parts r finish guard register login split: sum.splits)
  then show ?thesis
    unfolding task_proc_def by (intro unblocked_and_then) (auto intro: r split: db_result.splits)
qed

subsection \<open>Every schedule ends\<close>

interpretation dbready: inductive_invariant "db_threads_start same rows kv C" "db_threads_step S rows kv answer"
    "\<lambda>st. (\<forall>i t. unblocked (task_proc S i t)) \<longrightarrow> ready_slots (snd st)"
  for S :: "'w services" and same rows kv answer C
proof (unfold_locales, goal_cases)
  case (1 st)
  then show ?case by (auto simp: db_threads_start_def ready_slots_def)
next
  case (2 st st')
  then show ?case using ready_slots_step [of _ _ _ "fst st" "snd st" "fst st'" "snd st'"] by simp
qed

text \<open>Work steps are steps of the threads and of the world.\<close>

lemma work_reach:
  assumes "work_step env st st'" and "reach init (threads_step job code env) st"
  shows "reach init (threads_step job code env) st'"
proof -
  obtain s ts s' ts' where st: "st = (s, ts)" "st' = (s', ts')" by fastforce
  from assms(1) [unfolded st] show ?thesis
  proof (cases rule: work_step_cases)
    case (1 i j f s1 p)
    have "reach init (threads_step job code env) (s1, ts')"
      using reach_step [OF assms(2) [unfolded st] thread_acts [where ts = ts, OF 1(1,2)]] 1(3) by simp
    with 1(4) show ?thesis
      unfolding st by (induction rule: rtranclp_induct) (auto intro: reach_step world_moves)
  next
    case (2 i j r)
    have "reach init (threads_step job code env) (s, ts')"
      using reach_step [OF assms(2) [unfolded st] thread_finishes [where ts = ts, OF 2(1)]] 2(2) by simp
    with 2(3) show ?thesis
      unfolding st by (induction rule: rtranclp_induct) (auto intro: reach_step world_moves)
  qed
qed

lemma works_reach:
  "(work_step env)\<^sup>*\<^sup>* st st' \<Longrightarrow> reach init (threads_step job code env) st \<Longrightarrow> reach init (threads_step job code env) st'"
  by (induction rule: rtranclp_induct) (auto intro: work_reach)

lemma rested_pool:
  assumes "db_calls S same rows kv answer"
    and "reach (db_threads_start same rows kv C) (db_threads_step S rows kv answer) (s, Map.empty)"
  shows "set (mysql_idle (mysqlPool s)) = C \<and> distinct (mysql_idle (mysqlPool s))"
proof -
  have ok: "db_threads_ok S same rows kv answer C (s, Map.empty)" using dbcs.reach_inv [OF assms(2)] assms(1) by blast
  have "holds i None s" for i using threads_okD(2) [OF ok, of i] by simp
  then have "holder s = Map.empty" unfolding holds_def by (metis ext not_None_eq)
  with threads_okD(1) [OF ok] show ?thesis by (simp add: db_inv_def)
qed

text \<open>
  C16: no deadlock, and every task ends. Under any interleaving, with finitely many
  interruptions of a write: a thread in the middle of a task can always take its next
  action; no schedule of the tasks that were started goes on for ever, whatever the world
  does in between; as long as one of them is not finished there is a step to take; and when
  all are, every MySQL connection is back in the pool. Such an end can be reached from
  every state.
\<close>

theorem db_threads_finish:
  assumes "db_calls S same rows kv answer" and "write_accepts (sv_kernel S) sent" and "finite_eintr (sv_kernel S) fuel"
    and "reach (db_threads_start same rows kv C) (db_threads_step S rows kv answer) (s, ts)"
  shows "(\<forall>i t f. ts i = Some (t, Act f) \<longrightarrow> f s \<noteq> None)
    \<and> termip (work_step (db_env rows kv answer)) (s, ts)
    \<and> (\<forall>s' ts'. (work_step (db_env rows kv answer))\<^sup>*\<^sup>* (s, ts) (s', ts') \<longrightarrow>
         (\<exists>st. work_step (db_env rows kv answer) (s', ts') st)
         \<or> ts' = Map.empty \<and> set (mysql_idle (mysqlPool s')) = C \<and> distinct (mysql_idle (mysqlPool s')))
    \<and> (\<exists>s'. (work_step (db_env rows kv answer))\<^sup>*\<^sup>* (s, ts) (s', Map.empty))"
proof -
  let ?env = "db_env rows kv answer"
  have ready: "ready_slots ts" using dbready.reach_inv [OF assms(4)] task_unblocked [OF assms(2,3)] by simp
  have "f s \<noteq> None" if "ts i = Some (t, Act f)" for i t f
    using ready that unblocked_ActD(1) [of f s] unfolding ready_slots_def by blast
  moreover have "termip (work_step ?env) (s, ts)"
    using ready by (intro work_terminates) (simp add: ready_slots_def)
  moreover have "(\<exists>st. work_step ?env (s', ts') st)
      \<or> ts' = Map.empty \<and> set (mysql_idle (mysqlPool s')) = C \<and> distinct (mysql_idle (mysqlPool s'))"
    if "(work_step ?env)\<^sup>*\<^sup>* (s, ts) (s', ts')" for s' ts'
  proof (cases "ts' = Map.empty")
    case True
    with rested_pool [OF assms(1)] works_reach [OF that assms(4)] show ?thesis by blast
  next
    case False
    then obtain i x where "ts' i = Some x" by fastforce
    with work_enabled [of ts' i x ?env s'] work_steps_ready [OF that] ready show ?thesis by simp
  qed
  ultimately show ?thesis using work_runs_out [OF ready] by blast
qed

theorem db_threads_finish_witness:
  "\<exists>s r ts. reach (db_threads_start (=) toy_rows toy_kv {1, 2}) (db_threads_step toy_services toy_rows toy_kv toy_result) (s, ts)
    \<and> ts 1 = Some (LoginTask 5 True ''admin'' ''secret'', Done r)
    \<and> ts 0 = Some (RegisterTask 4 True ''bob'' ''pw'', task_proc toy_services 0 (RegisterTask 4 True ''bob'' ''pw''))
    \<and> termip (work_step (db_env toy_rows toy_kv toy_result)) (s, ts)
    \<and> (\<exists>s'. (work_step (db_env toy_rows toy_kv toy_result))\<^sup>*\<^sup>* (s, ts) (s', Map.empty))"
proof -
  obtain tok s' where "runDbTask toy_services (LoginTask 5 True ''admin'' ''secret'') toy_start = Some (Answered 200 (json_token tok), s')"
    using toy_login_runs by blast
  from two_threads [OF _ _ this, of "RegisterTask 4 True ''bob'' ''pw''"] obtain s where
    r: "reach (db_threads_start (=) toy_rows toy_kv {1, 2}) (db_threads_step toy_services toy_rows toy_kv toy_result)
      (s, [0 \<mapsto> (RegisterTask 4 True ''bob'' ''pw'', task_proc toy_services 0 (RegisterTask 4 True ''bob'' ''pw'')),
           1 \<mapsto> (LoginTask 5 True ''admin'' ''secret'', Done (Answered 200 (json_token tok)))])" by auto
  from db_threads_finish [OF toy_calls _ _ r] toy_write toy_finite r show ?thesis by fastforce
qed

end
