(* ===== verification/RedisThreads.thy ===== *)
theory RedisThreads
  imports DbThreads
begin

section \<open>The Redis contexts under concurrent tasks\<close>

text \<open>
  Who may touch a \<^verbatim>\<open>redisContext\<close> while the threads of the DB pool run their tasks: \<open>get\<close>,
  \<open>setex\<close>, \<open>del\<close> and \<open>discardBrokenConn\<close> of \<^verbatim>\<open>src/RedisPool.cpp\<close>, action by action as in the
  theory DbThreads, inside the tasks of the handlers. The books are kept from outside: which
  context a thread holds is read off what the thread has left to do.
\<close>

subsection \<open>What hiredis is watched for\<close>

text \<open>
  The contexts that are allocated, whether a command was ever sent on or a free applied to one
  that was not, and the contexts that commands were sent on, in order.
\<close>

record redis_seen =
  live :: "nat set"
  misused :: bool
  commanded :: "nat list"

definition redis_watch :: "'w services \<Rightarrow> ('w \<Rightarrow> redis_seen) \<Rightarrow> bool" where
  "redis_watch S seen \<longleftrightarrow>
     (\<forall>h port w c e w'. rd_connect (sv_redis S) h port w = (Some (c, e), w') \<longrightarrow>
        c \<notin> live (seen w) \<and> seen w' = (seen w)\<lparr>live := insert c (live (seen w))\<rparr>)
     \<and> (\<forall>h port w w'. rd_connect (sv_redis S) h port w = (None, w') \<longrightarrow> seen w' = seen w)
     \<and> (\<forall>c w. seen (rd_free (sv_redis S) c w) =
          (seen w)\<lparr>live := live (seen w) - {c}, misused := misused (seen w) \<or> c \<notin> live (seen w)\<rparr>)
     \<and> (\<forall>c cmd w. seen (snd (rd_command (sv_redis S) c cmd w)) =
          (seen w)\<lparr>misused := misused (seen w) \<or> c \<notin> live (seen w), commanded := commanded (seen w) @ [c]\<rparr>)
     \<and> (\<forall>fd d w. seen (snd (k_write (sv_kernel S) fd d w)) = seen w)
     \<and> (\<forall>c q w. seen (snd (my_query (sv_mysql S) c q w)) = seen w)
     \<and> (\<forall>c w. seen (snd (my_store_result (sv_mysql S) c w)) = seen w)
     \<and> (\<forall>w. seen (snd (sv_draw S w)) = seen w)"

lemma redis_watchD:
  assumes "redis_watch S seen"
  shows "rd_connect (sv_redis S) h port w = (Some (c, e), w') \<Longrightarrow>
      c \<notin> live (seen w) \<and> seen w' = (seen w)\<lparr>live := insert c (live (seen w))\<rparr>"
    and "rd_connect (sv_redis S) h port w = (None, w') \<Longrightarrow> seen w' = seen w"
    and "seen (rd_free (sv_redis S) c w) =
      (seen w)\<lparr>live := live (seen w) - {c}, misused := misused (seen w) \<or> c \<notin> live (seen w)\<rparr>"
    and "rd_command (sv_redis S) c cmd w = (r, w') \<Longrightarrow> seen w' =
      (seen w)\<lparr>misused := misused (seen w) \<or> c \<notin> live (seen w), commanded := commanded (seen w) @ [c]\<rparr>"
    and "k_write (sv_kernel S) fd d w = (n, w') \<Longrightarrow> seen w' = seen w"
    and "my_query (sv_mysql S) c' q w = (b, w') \<Longrightarrow> seen w' = seen w"
    and "my_store_result (sv_mysql S) c' w = (rs, w') \<Longrightarrow> seen w' = seen w"
    and "sv_draw S w = (i, w') \<Longrightarrow> seen w' = seen w"
  using assms unfolding redis_watch_def by (blast | metis snd_conv)+

text \<open>A new context, or none; one that could not connect is freed at once and was never in use.\<close>

lemma redis_createConn_seen:
  assumes "redis_watch S seen" and "redis_createConn (sv_redis S) p w = (r, w')"
  shows "case r of
      None \<Rightarrow> seen w' = seen w
    | Some c \<Rightarrow> c \<notin> live (seen w) \<and> seen w' = (seen w)\<lparr>live := insert c (live (seen w))\<rparr>"
  using assms(2) redis_watchD(1-3) [OF assms(1)]
  by (auto simp: redis_createConn_def split: prod.splits option.splits if_splits)

lemma reply_seen:
  assumes "redis_watch S seen" and "reply S fd ka st body w = Some (r, w')"
  shows "seen w' = seen w"
proof -
  from assms(2) obtain d n where
    "send_loop (sv_kernel S) fd (buildHttpResponse st ''application/json'' body ka) 0 w = Some (d, n, w')"
    by (auto simp: reply_def sendJson_def sendHttpResponse_def split: option.splits)
  then show ?thesis
    by (rule send_loop_keeps [where Q = "\<lambda>w w'. seen w' = seen w"]) (auto dest: redis_watchD(5) [OF assms(1)])
qed

subsection \<open>The books\<close>

text \<open>
  What a thread has in hand: nothing, a context, or the right to open a replacement for one
  it has just freed. \<open>books\<close> lists what an action may do to it, to the idle contexts of the pool
  and to what hiredis is watched for; there is no other way to touch a context.
\<close>

datatype holding = Nothing | Holds nat | Replaces

inductive books ::
    "holding \<Rightarrow> nat list \<Rightarrow> redis_seen \<Rightarrow> holding \<Rightarrow> nat list \<Rightarrow> redis_seen \<Rightarrow> bool" where
  bk_other: "books h q v h q v"
| bk_take: "books Nothing (c # q) v (Holds c) q v"
| bk_command: "books (Holds c) q v (Holds c) q (v\<lparr>misused := misused v \<or> c \<notin> live v, commanded := commanded v @ [c]\<rparr>)"
| bk_give: "books (Holds c) q v Nothing (q @ [c]) v"
| bk_free: "books (Holds c) q v Replaces q (v\<lparr>live := live v - {c}, misused := misused v \<or> c \<notin> live v\<rparr>)"
| bk_fresh: "c \<notin> live v \<Longrightarrow> books Replaces q v (Holds c) q (v\<lparr>live := insert c (live v)\<rparr>)"
| bk_gone: "books Replaces q v Nothing q v"

abbreviation books_of ::
    "('w \<Rightarrow> redis_seen) \<Rightarrow> holding \<Rightarrow> 'w db_shared \<Rightarrow> holding \<Rightarrow> 'w db_shared \<Rightarrow> bool" where
  "books_of seen h s h' s' \<equiv>
     books h (redis_idle (redisPool s)) (seen (world s)) h' (redis_idle (redisPool s')) (seen (world s'))"

text \<open>What is left of a thread keeps the books, and at the end \<open>post\<close> holds of what it has in hand.\<close>

primrec tidy ::
    "('w \<Rightarrow> redis_seen) \<Rightarrow> ('r \<Rightarrow> holding \<Rightarrow> bool) \<Rightarrow> ('w, 'r) db_proc \<Rightarrow> holding \<Rightarrow> bool" where
  "tidy seen post (Done r) = post r"
| "tidy seen post (Act f) = (\<lambda>h. \<forall>s.
     (case map_option (map_prod id (tidy seen post)) (f s) of
        None \<Rightarrow> True
      | Some (s', ok) \<Rightarrow> \<exists>h'. books_of seen h s h' s' \<and> ok h'))"

lemma tidy_Act:
  "tidy seen post (Act f) h \<longleftrightarrow> (\<forall>s s' p. f s = Some (s', p) \<longrightarrow> (\<exists>h'. books_of seen h s h' s' \<and> tidy seen post p h'))"
  by (auto split: option.splits)

lemma tidy_and_then:
  assumes "tidy seen mid p h" and "\<And>r h'. mid r h' \<Longrightarrow> tidy seen post (k r) h'"
  shows "tidy seen post (and_then p k) h"
  using assms(1)
proof (induction p arbitrary: h)
  case (Done r)
  with assms(2) show ?case by simp
next
  case (Act f)
  show ?case
    unfolding and_then.simps tidy_Act
  proof (intro allI impI)
    fix s s' q
    assume "map_option (map_prod id (\<lambda>p. and_then p k)) (f s) = Some (s', q)"
    then obtain p where p: "f s = Some (s', p)" "q = and_then p k" by auto
    with Act.prems obtain h' where h': "books_of seen h s h' s'" "tidy seen mid p h'" unfolding tidy_Act by blast
    have "Some (s', p) \<in> range f" using p(1) rangeI [of f s] by simp
    from Act.IH [OF this _ _ h'(2)] h'(1) show "\<exists>h'. books_of seen h s h' s' \<and> tidy seen post q h'"
      unfolding p(2) by auto
  qed
qed

lemma tidy_atomically:
  assumes "\<And>s r s'. f s = Some (r, s') \<Longrightarrow> \<exists>h'. books_of seen h s h' s' \<and> post r h'"
  shows "tidy seen post (atomically f) h"
  using assms by (fastforce simp: atomically_def tidy_Act simp del: tidy.simps(2))

abbreviation settled :: "'r \<Rightarrow> holding \<Rightarrow> bool" where
  "settled \<equiv> \<lambda>_ h. h = Nothing"

text \<open>An action that leaves the pool and hiredis alone.\<close>

lemma tidy_other:
  assumes "\<And>s r s'. f s = Some (r, s') \<Longrightarrow> redisPool s' = redisPool s \<and> seen (world s') = seen (world s)"
  shows "tidy seen settled (atomically f) Nothing"
proof (rule tidy_atomically)
  fix s r s'
  assume "f s = Some (r, s')"
  from assms [OF this] bk_other [of Nothing] show "\<exists>h'. books_of seen Nothing s h' s' \<and> h' = Nothing" by simp
qed

lemma tidy_call:
  "(\<And>w r w'. f w = (r, w') \<Longrightarrow> seen w' = seen w) \<Longrightarrow> tidy seen settled (world_call f) Nothing"
  unfolding world_call_def by (rule tidy_other) (auto split: prod.splits)

lemma tidy_mysql: "tidy seen settled (mysql_acquire i) Nothing" "tidy seen settled (mysql_giveback conn) Nothing"
  unfolding mysql_acquire_def mysql_giveback_def by (rule tidy_other; auto split: prod.splits)+

lemma tidy_reply: "redis_watch S seen \<Longrightarrow> tidy seen settled (reply_proc S fd ka st body) Nothing"
  unfolding reply_proc_def by (rule tidy_other) (auto dest: reply_seen)

subsection \<open>The operations of the pool keep the books\<close>

lemma tidy_acquire:
  "tidy seen (\<lambda>r h. h = (case r of None \<Rightarrow> Nothing | Some c \<Rightarrow> Holds c)) redis_acquire Nothing"
  unfolding redis_acquire_def
  by (rule tidy_atomically) (auto simp: redis_getConn_def split: list.splits intro: bk_other bk_take)

lemma tidy_giveback: "tidy seen settled (redis_giveback c) (Holds c)"
  unfolding redis_giveback_def
  by (rule tidy_atomically) (auto simp: redis_releaseConn_def intro: bk_give)

lemma tidy_discard:
  fixes S :: "'a services"
  assumes "redis_watch S seen"
  shows "tidy seen settled (redis_discard_proc (sv_redis S) c) (Holds c)"
  unfolding redis_discard_proc_def
proof (rule tidy_and_then)
  show "tidy seen (\<lambda>_ h. h = Replaces) (world_call (\<lambda>w. ((), rd_free (sv_redis S) c w))) (Holds c)"
    unfolding world_call_def
    by (rule tidy_atomically) (use redis_watchD(3) [OF assms] in \<open>auto intro: bk_free\<close>)
next
  fix r h
  assume h: "h = Replaces"
  let ?create = "atomically (\<lambda>s. case redis_createConn (sv_redis S) (redisPool s) (world s) of
      (fresh, w) \<Rightarrow> Some (fresh, s\<lparr>world := w\<rparr>))"
  have "tidy seen (\<lambda>r h. h = (case r of None \<Rightarrow> Nothing | Some c \<Rightarrow> Holds c)) ?create Replaces"
  proof (rule tidy_atomically)
    fix s s' :: "'a db_shared" and fresh
    assume "(case redis_createConn (sv_redis S) (redisPool s) (world s) of (fresh, w) \<Rightarrow> Some (fresh, s\<lparr>world := w\<rparr>)) = Some (fresh, s')"
    then obtain w where w: "redis_createConn (sv_redis S) (redisPool s) (world s) = (fresh, w)" "s' = s\<lparr>world := w\<rparr>"
      by (auto split: prod.splits)
    with redis_createConn_seen [OF assms w(1)] bk_gone bk_fresh
    show "\<exists>h'. books_of seen Replaces s h' s' \<and> h' = (case fresh of None \<Rightarrow> Nothing | Some c \<Rightarrow> Holds c)"
      by (cases fresh) simp_all
  qed
  then show "tidy seen settled (and_then ?create (\<lambda>fresh. case fresh of None \<Rightarrow> Done () | Some c \<Rightarrow> redis_giveback c)) h"
    unfolding h by (rule tidy_and_then) (auto intro: tidy_giveback split: option.splits)
qed

lemma tidy_op:
  assumes "redis_watch S seen"
  shows "tidy seen settled (redis_op_proc (sv_redis S) command broken answer) Nothing"
  unfolding redis_op_proc_def
proof (rule tidy_and_then [OF tidy_acquire])
  fix conn h
  assume h: "h = (case conn of None \<Rightarrow> Nothing | Some c \<Rightarrow> Holds c)"
  have command: "tidy seen (\<lambda>_ h. h = Holds c) (world_call (rd_command (sv_redis S) c command)) (Holds c)" for c
    unfolding world_call_def
    by (rule tidy_atomically) (auto dest!: redis_watchD(4) [OF assms] split: prod.splits intro: bk_command)
  show "tidy seen settled
      (case conn of None \<Rightarrow> Done broken
       | Some c \<Rightarrow> and_then (world_call (rd_command (sv_redis S) c command)) (\<lambda>rep.
           case rep of None \<Rightarrow> and_then (redis_discard_proc (sv_redis S) c) (\<lambda>_. Done broken)
           | Some r \<Rightarrow> and_then (redis_giveback c) (\<lambda>_. Done (answer r)))) h"
  proof (cases conn)
    case None
    with h show ?thesis by simp
  next
    case (Some c)
    show ?thesis
      unfolding Some option.case h
      by (rule tidy_and_then [OF command])
        (auto split: option.splits intro!: tidy_and_then [OF tidy_discard [OF assms]] tidy_and_then [OF tidy_giveback])
  qed
qed

subsection \<open>The tasks keep the books\<close>

lemma tidy_draw: "redis_watch S seen \<Longrightarrow> tidy seen settled (draw_token_proc S n token) Nothing"
proof (induction n arbitrary: token)
  case (Suc n)
  have "tidy seen settled (world_call (sv_draw S)) Nothing" by (rule tidy_call) (rule redis_watchD(8) [OF Suc.prems])
  then show ?case unfolding draw_token_proc.simps
    by (rule tidy_and_then) (use Suc in \<open>auto split: option.splits\<close>)
qed simp

lemma tidy_task:
  assumes "redis_watch S seen"
  shows "tidy seen settled (task_proc S i t) Nothing"
proof -
  note r = tidy_reply [OF assms] and op = tidy_op [OF assms] and draw = tidy_draw [OF assms]
  have q: "tidy seen settled (world_call (my_query (sv_mysql S) c x)) Nothing"
    and st: "tidy seen settled (world_call (my_store_result (sv_mysql S) c)) Nothing" for c x
    by (rule tidy_call, rule redis_watchD(6,7) [OF assms], assumption)+
  have finish: "tidy seen settled (login_finish_proc S fd ka u p found) Nothing" for fd ka u p found
    unfolding login_finish_proc_def redis_setex_proc_def
    by (auto intro!: r tidy_and_then [OF draw] tidy_and_then [OF op] split: option.splits)
  have register: "tidy seen settled (register_body_proc S fd ka u p conn) Nothing" for fd ka u p conn
    unfolding register_body_proc_def
    by (auto intro!: r tidy_and_then [OF q] tidy_and_then [OF st] split: option.splits)
  have login: "tidy seen settled (login_mysql_proc S fd ka u conn) Nothing" for fd ka u conn
    unfolding login_mysql_proc_def redis_setex_proc_def
    by (auto intro!: tidy_and_then [OF r] tidy_and_then [OF q] tidy_and_then [OF st] tidy_and_then [OF op]
        split: option.splits list.splits)
  have guard: "tidy seen settled (mysql_guard_proc i body) Nothing"
    if "\<And>conn. tidy seen settled (body conn) Nothing" for body :: "nat option \<Rightarrow> ('a, 'x) db_proc"
    unfolding mysql_guard_proc_def
    by (rule tidy_and_then [OF tidy_mysql(1)], simp, rule tidy_and_then [OF that], simp, rule tidy_and_then [OF tidy_mysql(2)]) simp
  have "tidy seen settled (work_proc S i t) Nothing"
  proof (cases t)
    case (RegisterTask fd ka u p)
    then show ?thesis by (simp add: guard register)
  next
    case (LoginTask fd ka u p)
    then show ?thesis
      by (auto simp: redis_get_proc_def intro!: tidy_and_then [OF op] finish tidy_and_then [OF guard [OF login]] split: sum.splits)
  next
    case (ProfileTask fd ka token)
    then show ?thesis by (auto simp: redis_get_proc_def intro!: tidy_and_then [OF op] r)
  next
    case (LogoutTask fd ka token)
    then show ?thesis by (auto simp: redis_del_proc_def intro!: tidy_and_then [OF op] r)
  qed
  then show ?thesis
    unfolding task_proc_def by (rule tidy_and_then) (auto intro: r split: db_result.splits)
qed

subsection \<open>All threads together\<close>

definition in_hand :: "(nat \<Rightarrow> holding) \<Rightarrow> nat set" where
  "in_hand h = {c. \<exists>i. h i = Holds c}"

definition busy :: "(nat \<Rightarrow> holding) \<Rightarrow> nat set" where
  "busy h = {i. h i \<noteq> Nothing}"

definition exclusive :: "(nat \<Rightarrow> holding) \<Rightarrow> bool" where
  "exclusive h \<longleftrightarrow> (\<forall>i j c. h i = Holds c \<longrightarrow> h j = Holds c \<longrightarrow> j = i)"

definition books_ok :: "(nat \<Rightarrow> holding) \<Rightarrow> nat list \<Rightarrow> redis_seen \<Rightarrow> bool" where
  "books_ok h q v \<longleftrightarrow>
     distinct q \<and> exclusive h \<and> set q \<inter> in_hand h = {} \<and> live v = set q \<union> in_hand h
     \<and> finite (busy h) \<and> length q + card (busy h) \<le> kRedisMaxConn \<and> \<not> misused v"

abbreviation held_by :: "holding \<Rightarrow> nat set" where
  "held_by x \<equiv> (case x of Holds c \<Rightarrow> {c} | _ \<Rightarrow> {})"

lemma busy_upd: "busy (h(i := x)) = (if x = Nothing then busy h - {i} else insert i (busy h))"
  by (auto simp: busy_def)

lemma in_hand_upd: "exclusive h \<Longrightarrow> in_hand (h(i := x)) = in_hand h - held_by (h i) \<union> held_by x"
proof -
  assume ex: "exclusive h"
  have mem: "c \<in> in_hand (h(i := x)) \<longleftrightarrow> x = Holds c \<or> c \<in> in_hand h \<and> h i \<noteq> Holds c" for c
  proof (cases "x = Holds c")
    case True
    then show ?thesis by (auto simp: in_hand_def)
  next
    case False
    then have "c \<in> in_hand (h(i := x)) \<longleftrightarrow> (\<exists>j. j \<noteq> i \<and> h j = Holds c)" by (auto simp: in_hand_def split: if_splits)
    also have "\<dots> \<longleftrightarrow> c \<in> in_hand h \<and> h i \<noteq> Holds c" using ex by (auto simp: in_hand_def exclusive_def)
    finally show ?thesis using False by simp
  qed
  show ?thesis by (rule set_eqI, unfold mem, cases "h i"; cases x) auto
qed

lemma exclusive_upd: "exclusive h \<Longrightarrow> held_by x \<inter> in_hand h = {} \<Longrightarrow> exclusive (h(i := x))"
  by (auto simp: in_hand_def exclusive_def split: holding.splits)

lemma in_hand_own: "h i = Holds c \<Longrightarrow> c \<in> in_hand h"
  by (auto simp: in_hand_def)

lemma card_busy:
  assumes "finite (busy h)"
  shows "h i \<noteq> Nothing \<Longrightarrow> Suc (card (busy h - {i})) = card (busy h)"
    and "h i \<noteq> Nothing \<Longrightarrow> insert i (busy h) = busy h" and "h i = Nothing \<Longrightarrow> i \<notin> busy h"
  by (rule card_Suc_Diff1 [OF assms]) (auto simp: busy_def)

lemma books_kept:
  assumes "books_ok h q v" and "books (h i) q v x q' v'"
  shows "books_ok (h(i := x)) q' v'"
proof -
  note ok = assms(1) [unfolded books_ok_def]
  then have ex: "exclusive h" and fin: "finite (busy h)" by simp_all
  note upd = in_hand_upd [OF ex, of i] exclusive_upd [OF ex] busy_upd
  from assms(2) show ?thesis
  proof (cases rule: books.cases)
    case bk_other
    with assms(1) show ?thesis by simp
  next
    case (bk_take c)
    with ok card_busy(3) [OF fin, of i] show ?thesis by (auto simp: books_ok_def upd)
  next
    case (bk_command c)
    then have "h(i := x) = h" by (simp add: fun_eq_iff)
    with bk_command ok in_hand_own [of h i c] show ?thesis by (auto simp: books_ok_def)
  next
    case (bk_give c)
    with ok card_busy(1) [OF fin, of i] in_hand_own [of h i c] show ?thesis by (auto simp: books_ok_def upd)
  next
    case (bk_free c)
    with ok card_busy(2) [OF fin, of i] in_hand_own [of h i c] show ?thesis by (auto simp: books_ok_def upd)
  next
    case (bk_fresh c)
    with ok card_busy(2) [OF fin, of i] show ?thesis by (auto simp: books_ok_def upd)
  next
    case bk_gone
    with ok card_busy(1) [OF fin, of i] show ?thesis by (auto simp: books_ok_def upd)
  qed
qed

text \<open>
  The start: the pool that the constructor filled, nothing allocated before, and no task
  running. In between the rest of the program touches neither the pool nor hiredis.
\<close>

type_synonym 'w db_slots = "nat \<Rightarrow> (db_task \<times> ('w, db_result) db_proc) option"

definition redis_threads_start :: "'w services \<Rightarrow> environ \<Rightarrow> ('w \<Rightarrow> redis_seen) \<Rightarrow> 'w db_shared \<times> 'w db_slots \<Rightarrow> bool" where
  "redis_threads_start S getenv seen st \<longleftrightarrow>
     (\<exists>w. live (seen w) = {} \<and> \<not> misused (seen w)
        \<and> redis_pool_new (sv_redis S) getenv w = (redisPool (fst st), world (fst st)) \<and> snd st = Map.empty)"

definition redis_aside :: "('w \<Rightarrow> redis_seen) \<Rightarrow> 'w db_shared \<Rightarrow> 'w db_shared \<Rightarrow> bool" where
  "redis_aside seen s s' \<longleftrightarrow> redisPool s' = redisPool s \<and> seen (world s') = seen (world s)"

abbreviation redis_threads_step ::
    "'w services \<Rightarrow> ('w \<Rightarrow> redis_seen) \<Rightarrow> 'w db_shared \<times> 'w db_slots \<Rightarrow> 'w db_shared \<times> 'w db_slots \<Rightarrow> bool" where
  "redis_threads_step S seen \<equiv> threads_step (\<lambda>_. True) (task_proc S) (redis_aside seen)"

lemma redis_fill_seen:
  assumes "redis_watch S seen"
  shows "redis_fill (sv_redis S) n p w = (p', w') \<Longrightarrow> misused (seen w') = misused (seen w)"
proof (induction n arbitrary: p w)
  case (Suc n)
  obtain r w1 where c: "redis_createConn (sv_redis S) p w = (r, w1)" by fastforce
  from redis_createConn_seen [OF assms c] have "misused (seen w1) = misused (seen w)" by (auto split: option.splits)
  with Suc c show ?case by (auto split: option.splits)
qed simp

lemma start_books:
  assumes "redis_watch S seen" and "redis_threads_start S getenv seen (s, ts)"
  shows "books_ok (\<lambda>_. Nothing) (redis_idle (redisPool s)) (seen (world s))"
proof -
  from assms(2) obtain w where w: "live (seen w) = {}" "\<not> misused (seen w)"
    "redis_pool_new (sv_redis S) getenv w = (redisPool s, world s)" by (auto simp: redis_threads_start_def)
  have "redis_handles (sv_redis S) (\<lambda>w. live (seen w))"
    unfolding redis_handles_def using redis_watchD(1-3) [OF assms(1)] redis_watchD(4) [OF assms(1), OF surjective_pairing]
    by auto
  moreover have "redis_start (sv_redis S) getenv (\<lambda>w. live (seen w)) (redisPool s, [], world s)"
    using w by (auto simp: redis_start_def)
  ultimately have "owned kRedisMaxConn (redis_idle (redisPool s)) [] (live (seen (world s)))" by (rule redis_start_owned)
  moreover have "\<not> misused (seen (world s))"
    using w(2,3) redis_fill_seen [OF assms(1)] unfolding redis_pool_new_def by blast
  ultimately show ?thesis by (simp add: books_ok_def owned_def in_hand_def busy_def exclusive_def)
qed

definition redis_books :: "('w \<Rightarrow> redis_seen) \<Rightarrow> 'w db_shared \<times> 'w db_slots \<Rightarrow> (nat \<Rightarrow> holding) \<Rightarrow> bool" where
  "redis_books seen st h \<longleftrightarrow>
     books_ok h (redis_idle (redisPool (fst st))) (seen (world (fst st)))
     \<and> (\<forall>i. case snd st i of None \<Rightarrow> h i = Nothing | Some (t, p) \<Rightarrow> tidy seen settled p (h i))"

lemma redis_booksD:
  assumes "redis_books seen (s, ts) h"
  shows "books_ok h (redis_idle (redisPool s)) (seen (world s))"
    and "ts i = None \<Longrightarrow> h i = Nothing" and "ts i = Some (t, p) \<Longrightarrow> tidy seen settled p (h i)"
proof -
  from assms have all: "books_ok h (redis_idle (redisPool s)) (seen (world s))"
    "\<forall>i. case ts i of None \<Rightarrow> h i = Nothing | Some (t, p) \<Rightarrow> tidy seen settled p (h i)"
    unfolding redis_books_def by simp_all
  show "books_ok h (redis_idle (redisPool s)) (seen (world s))" by (rule all(1))
  show "ts i = None \<Longrightarrow> h i = Nothing" "ts i = Some (t, p) \<Longrightarrow> tidy seen settled p (h i)"
    using spec [OF all(2), of i] by simp_all
qed

lemma redis_booksI:
  assumes "books_ok h (redis_idle (redisPool s)) (seen (world s))"
    and "\<And>i. ts i = None \<Longrightarrow> h i = Nothing" and "\<And>i t p. ts i = Some (t, p) \<Longrightarrow> tidy seen settled p (h i)"
  shows "redis_books seen (s, ts) h"
  unfolding redis_books_def using assms by (simp split: option.split)

lemma redis_books_step:
  assumes "redis_watch S seen" and "redis_books seen (s, ts) h" and "redis_threads_step S seen (s, ts) (s', ts')"
  shows "\<exists>h'. redis_books seen (s', ts') h'"
  using assms(3)
proof (cases rule: threads_step.cases)
  case (thread_starts i t)
  note b = redis_booksD [OF assms(2)]
  have "redis_books seen (s', ts') h"
    unfolding thread_starts(1,2)
    by (rule redis_booksI) (use b tidy_task [OF assms(1), of i t] thread_starts(3) in \<open>auto split: if_splits\<close>)
  then show ?thesis by blast
next
  case (thread_acts i t f p)
  note b = redis_booksD [OF assms(2)]
  from b(3) [OF thread_acts(2)] thread_acts(3) obtain x where
    x: "books_of seen (h i) s x s'" "tidy seen settled p x" unfolding tidy_Act by blast
  have "redis_books seen (s', ts') (h(i := x))"
    unfolding thread_acts(1)
    by (rule redis_booksI, rule books_kept [OF b(1) x(1)]) (use b(2,3) x(2) in \<open>auto split: if_splits\<close>)
  then show ?thesis by blast
next
  case (thread_finishes i t r)
  note b = redis_booksD [OF assms(2)]
  have "redis_books seen (s', ts') h"
    unfolding thread_finishes(1,2)
    by (rule redis_booksI, rule b(1)) (use b(2,3) b(3) [OF thread_finishes(3)] in \<open>auto split: if_splits\<close>)
  then show ?thesis by blast
next
  case world_moves
  note b = redis_booksD [OF assms(2)]
  have "redis_books seen (s', ts') h"
    unfolding world_moves(1) by (rule redis_booksI) (use b world_moves(2) in \<open>simp_all add: redis_aside_def\<close>)
  then show ?thesis by blast
qed

interpretation redist: inductive_invariant "redis_threads_start S getenv seen" "redis_threads_step S seen"
    "\<lambda>st. redis_watch S seen \<longrightarrow> (\<exists>h. redis_books seen st h)"
  for S getenv seen
proof (unfold_locales, goal_cases)
  case (1 st)
  show ?case
  proof
    assume "redis_watch S seen"
    with start_books [of S seen getenv "fst st" "snd st"] 1 have
      "books_ok (\<lambda>_. Nothing) (redis_idle (redisPool (fst st))) (seen (world (fst st)))" by simp
    moreover have "snd st = Map.empty" using 1 by (auto simp: redis_threads_start_def)
    ultimately have "redis_books seen st (\<lambda>_. Nothing)" by (simp add: redis_books_def)
    then show "\<exists>h. redis_books seen st h" by blast
  qed
next
  case (2 st st')
  then show ?case using redis_books_step [of S seen "fst st" "snd st" _ "fst st'" "snd st'"] by auto
qed

subsection \<open>Properties\<close>

text \<open>
  C14: Redis contexts are never shared, and none is lost. However the tasks of the DB threads
  interleave, whichever commands fail and whichever connection attempts fail: each thread in
  the middle of a task has at most one context in hand (or replaces one it freed), an idle or
  finished thread none; no context is in two hands, or in one and idle in the pool; exactly
  these contexts are allocated, at most \<open>kRedisMaxConn\<close>; no command was sent on and no free
  applied to a context that was not allocated; and the next command of a thread goes to the
  context it has in hand.
\<close>

theorem redis_contexts_exclusive:
  assumes "redis_watch S seen" and "reach (redis_threads_start S getenv seen) (redis_threads_step S seen) (s, ts)"
  shows "\<exists>h. (\<forall>i. (\<forall>t f. ts i \<noteq> Some (t, Act f)) \<longrightarrow> h i = Nothing)
    \<and> distinct (redis_idle (redisPool s))
    \<and> (\<forall>i c. h i = Holds c \<longrightarrow> c \<notin> set (redis_idle (redisPool s)) \<and> (\<forall>j. h j = Holds c \<longrightarrow> j = i))
    \<and> live (seen (world s)) = set (redis_idle (redisPool s)) \<union> {c. \<exists>i. h i = Holds c}
    \<and> length (redis_idle (redisPool s)) + card {i. h i \<noteq> Nothing} \<le> kRedisMaxConn
    \<and> \<not> misused (seen (world s))
    \<and> (\<forall>i t f s' p. ts i = Some (t, Act f) \<longrightarrow> f s = Some (s', p) \<longrightarrow>
         commanded (seen (world s')) = commanded (seen (world s))
         \<or> (\<exists>c. h i = Holds c \<and> commanded (seen (world s')) = commanded (seen (world s)) @ [c]))"
proof -
  from redist.reach_inv [OF assms(2)] assms(1) obtain h where h: "redis_books seen (s, ts) h" by blast
  note b = redis_booksD [OF h]
  have idle: "h i = Nothing" if "\<forall>t f. ts i \<noteq> Some (t, Act f)" for i
  proof (cases "ts i")
    case None
    then show ?thesis by (rule b(2))
  next
    case (Some x)
    with that obtain t r where "x = (t, Done r)" by (metis proc.exhaust surj_pair)
    with b(3) Some show ?thesis by fastforce
  qed
  have next_action: "commanded (seen (world s')) = commanded (seen (world s))
      \<or> (\<exists>c. h i = Holds c \<and> commanded (seen (world s')) = commanded (seen (world s)) @ [c])"
    if "ts i = Some (t, Act f)" "f s = Some (s', p)" for i t f s' p
  proof -
    from b(3) [OF that(1)] that(2) obtain x where "books_of seen (h i) s x s'" unfolding tidy_Act by blast
    then show ?thesis by (cases rule: books.cases) auto
  qed
  have "c \<notin> set (redis_idle (redisPool s)) \<and> (\<forall>j. h j = Holds c \<longrightarrow> j = i)" if "h i = Holds c" for i c
    using b(1) in_hand_own [of h i c] that unfolding books_ok_def exclusive_def by blast
  with b(1) idle next_action show ?thesis
    unfolding books_ok_def in_hand_def busy_def by (intro exI [of _ h] conjI) blast+
qed

text \<open>Services over a list of allocated contexts, where no command gets a reply.\<close>

type_synonym flat = "nat list \<times> bool \<times> nat list"

definition flat_seen :: "flat \<Rightarrow> redis_seen" where
  "flat_seen w = (case w of (L, m, cs) \<Rightarrow> \<lparr>live = set L, misused = m, commanded = cs\<rparr>)"

definition flat_services :: "flat services" where
  "flat_services =
     \<lparr>sv_kernel = \<lparr>k_write = (\<lambda>fd d w. (Err EAGAIN, w)), k_read = (\<lambda>fd n w. (Err EAGAIN, w)),
        k_sendfile = (\<lambda>fd f off cnt w. (Err EAGAIN, w)), k_epoll_ctl = (\<lambda>ep op fd ev w. (Ret (), w)),
        k_time = (\<lambda>w. (0, w)), k_open = (\<lambda>p w. (-1, w)), k_fstat = (\<lambda>fd w. (None, w)), k_close = (\<lambda>fd w. w)\<rparr>,
      sv_mysql = \<lparr>my_init = (\<lambda>w. (None, w)), my_real_connect = (\<lambda>c prm w. (False, w)), my_close = (\<lambda>c w. w),
        my_set_charset = (\<lambda>c s w. w), my_escape = (\<lambda>s. s), my_query = (\<lambda>c q w. (True, w)),
        my_store_result = (\<lambda>c w. (None, w))\<rparr>,
      sv_redis = \<lparr>rd_connect = (\<lambda>h port (L, m, cs). (Some (Suc (sum_list L), False), (Suc (sum_list L) # L, m, cs))),
        rd_free = (\<lambda>c (L, m, cs). (removeAll c L, m \<or> c \<notin> set L, cs)),
        rd_command = (\<lambda>c cmd (L, m, cs). (None, (L, m \<or> c \<notin> set L, cs @ [c])))\<rparr>,
      sv_draw = (\<lambda>w. (Some 0, w))\<rparr>"

lemma flat_watch: "redis_watch flat_services flat_seen"
  using Suc_sum_list_fresh by (auto simp: redis_watch_def flat_services_def flat_seen_def)

definition flat_start :: "flat db_shared" where
  "flat_start =
     (case redis_pool_new (sv_redis flat_services) (\<lambda>_. None) ([], False, []) of
        (p, w) \<Rightarrow> \<lparr>mysqlPool = \<lparr>mysql_idle = []\<rparr>, redisPool = p, world = w, holder = Map.empty\<rparr>)"

lemma flat_start_parts:
  "redis_idle (redisPool flat_start) = [1, 2, 4, 8, 16, 32, 64, 128]"
  "world flat_start = ([128, 64, 32, 16, 8, 4, 2, 1], False, [])"
  by (simp_all add: flat_start_def redis_pool_new_def redis_createConn_def flat_services_def kRedisMaxConn_def numeral_eq_Suc)

lemma acts_acquire:
  "acts (Suc n) (and_then redis_acquire k) s =
     (case redis_getConn (redisPool s) of (conn, p) \<Rightarrow> acts n (k conn) (s\<lparr>redisPool := p\<rparr>))"
  by (simp add: redis_acquire_def acts_atomically split: prod.split)

lemma acts_call:
  "acts (Suc n) (and_then (world_call f) k) s = (case f (world s) of (r, w) \<Rightarrow> acts n (k r) (s\<lparr>world := w\<rparr>))"
  by (simp add: world_call_def acts_atomically split: prod.split)

text \<open>A profile request that has taken the oldest context and sent its command.\<close>

theorem redis_contexts_exclusive_witness:
  "\<exists>s p (h :: nat \<Rightarrow> holding). reach (redis_threads_start flat_services (\<lambda>_. None) flat_seen) (redis_threads_step flat_services flat_seen)
       (s, [0 \<mapsto> (ProfileTask 5 True ''t'', p)])
     \<and> redis_idle (redisPool s) = [2, 4, 8, 16, 32, 64, 128] \<and> commanded (flat_seen (world s)) = [1]
     \<and> live (flat_seen (world s)) = set (redis_idle (redisPool s)) \<union> {c. \<exists>i. h i = Holds c} \<and> \<not> misused (flat_seen (world s))"
proof -
  let ?t = "ProfileTask 5 True ''t''"
  let ?init = "redis_threads_start flat_services (\<lambda>_. None) flat_seen" and ?step = "redis_threads_step flat_services flat_seen"
  have "?init (flat_start, Map.empty)"
    by (auto simp: redis_threads_start_def flat_start_def flat_seen_def split: prod.split intro!: exI [of _ "[]"])
  then have "reach ?init ?step (flat_start, Map.empty)" by (rule reach_init)
  from reach_starts [OF this, of 0 ?t]
  have r: "reach ?init ?step (flat_start, [0 \<mapsto> (?t, task_proc flat_services 0 ?t)])" by simp
  let ?s = "flat_start\<lparr>redisPool := (redisPool flat_start)\<lparr>redis_idle := [2, 4, 8, 16, 32, 64, 128]\<rparr>,
      world := ([128, 64, 32, 16, 8, 4, 2, 1], False, [1])\<rparr>"
  have "\<exists>p. acts 2 (task_proc flat_services 0 ?t) flat_start = Some (?s, p)"
    unfolding task_proc_def work_proc.simps redis_get_proc_def redis_op_proc_def and_then_assoc numeral_2_eq_2 acts_acquire
    by (simp add: redis_getConn_def flat_start_parts and_then_assoc acts_call) (simp add: flat_services_def flat_start_parts)
  then obtain p where "acts 2 (task_proc flat_services 0 ?t) flat_start = Some (?s, p)" by blast
  from reach_acts [OF this r, of 0 ?t] have r2: "reach ?init ?step (?s, [0 \<mapsto> (?t, p)])" by simp
  from redis_contexts_exclusive [OF flat_watch r2] obtain h :: "nat \<Rightarrow> holding" where
    "live (flat_seen (world ?s)) = set (redis_idle (redisPool ?s)) \<union> {c. \<exists>i. h i = Holds c}" "\<not> misused (flat_seen (world ?s))"
    by (elim exE conjE)
  moreover have "redis_idle (redisPool ?s) = [2, 4, 8, 16, 32, 64, 128]" "commanded (flat_seen (world ?s)) = [1]"
    by (simp_all add: flat_seen_def)
  ultimately show ?thesis using r2 by blast
qed

end
