(* ===== verification/Limiter.thy ===== *)
theory Limiter
  imports HttpResponse Threads
begin

section \<open>The rate limiter shared by the reactors\<close>

text \<open>
  \<open>allowRequest\<close> of \<^verbatim>\<open>src/Connection.cpp\<close> as every reactor thread runs it: its two static atomics
  are shared, and the call of \<^verbatim>\<open>time\<close> and each load, store and \<^verbatim>\<open>fetch_add\<close> is one action.
  Between two of them other threads act and the clock moves on, so a call may count itself in
  a later second than the one it read. The interleavings are those of sequentially consistent
  memory, and the clock is not set back.

  The other fields record the history: how many calls were admitted in each second of the
  clock, how many have counted themselves since the counter was last cleared (\<open>since\<close>), and
  the most that ever did (\<open>most\<close>).
\<close>

record limited = limiter +
  clock :: int
  admitted :: "int \<Rightarrow> nat"
  since :: nat
  most :: nat

definition count_call :: "int \<Rightarrow> limited \<Rightarrow> limited" where
  "count_call limit s =
     s\<lparr>win_count := win_count s + 1,
       admitted := (if sint (win_count s) < limit then (admitted s)(clock s := Suc (admitted s (clock s))) else admitted s),
       since := Suc (since s), most := max (most s) (Suc (since s))\<rparr>"

definition fetch_proc :: "int \<Rightarrow> (limited, bool) proc" where
  "fetch_proc limit = atomically (\<lambda>s. Some (sint (win_count s) < limit, count_call limit s))"

definition zero_proc :: "int \<Rightarrow> (limited, bool) proc" where
  "zero_proc limit = and_then (atomically (\<lambda>s. Some ((), s\<lparr>win_count := 0, since := 0\<rparr>))) (\<lambda>_. fetch_proc limit)"

definition reset_proc :: "int \<Rightarrow> int \<Rightarrow> (limited, bool) proc" where
  "reset_proc limit now = and_then (atomically (\<lambda>s. Some ((), s\<lparr>windowSec := now\<rparr>))) (\<lambda>_. zero_proc limit)"

definition load_proc :: "int \<Rightarrow> int \<Rightarrow> (limited, bool) proc" where
  "load_proc limit now =
     and_then (atomically (\<lambda>s. Some (windowSec s, s)))
       (\<lambda>sec. if sec \<noteq> now then reset_proc limit now else fetch_proc limit)"

definition allow_proc :: "int \<Rightarrow> (limited, bool) proc" where
  "allow_proc limit =
     (if limit \<le> 0 then Done True
      else and_then (atomically (\<lambda>s. Some (clock s, s))) (load_proc limit))"

lemmas limiter_procs = allow_proc_def load_proc_def reset_proc_def zero_proc_def fetch_proc_def

text \<open>A call that nobody disturbs does what \<^const>\<open>allowRequest\<close> says.\<close>

lemma allow_proc_alone:
  "map_option (map_prod id limiter.truncate) (run (allow_proc limit) s) =
   Some (allowRequest limit (clock s) (limiter.truncate s))"
  by (simp add: limiter_procs run_simps allowRequest_def Let_def limiter.defs count_call_def) auto

subsection \<open>Where a call stands\<close>

datatype stage = Start | Load int | Reset int | Zero | Fetch | Over bool

fun stage_proc :: "int \<Rightarrow> stage \<Rightarrow> (limited, bool) proc" where
  "stage_proc limit Start = allow_proc limit"
| "stage_proc limit (Load now) = load_proc limit now"
| "stage_proc limit (Reset now) = reset_proc limit now"
| "stage_proc limit Zero = zero_proc limit"
| "stage_proc limit Fetch = fetch_proc limit"
| "stage_proc limit (Over ok) = Done ok"

fun stage_act :: "int \<Rightarrow> stage \<Rightarrow> limited \<Rightarrow> (limited \<times> stage) option" where
  "stage_act limit Start s = Some (s, Load (clock s))"
| "stage_act limit (Load now) s = Some (s, if windowSec s \<noteq> now then Reset now else Fetch)"
| "stage_act limit (Reset now) s = Some (s\<lparr>windowSec := now\<rparr>, Zero)"
| "stage_act limit Zero s = Some (s\<lparr>win_count := 0, since := 0\<rparr>, Fetch)"
| "stage_act limit Fetch s = Some (count_call limit s, Over (sint (win_count s) < limit))"
| "stage_act limit (Over ok) s = None"

lemma stage_acts:
  assumes "0 < limit" and "stage_proc limit g = Act f"
  shows "f s = map_option (map_prod id (stage_proc limit)) (stage_act limit g s)"
  using assms by (cases g) (auto simp: limiter_procs atomically_def)

lemma stage_done: "0 < limit \<Longrightarrow> stage_proc limit g = Done r \<longleftrightarrow> g = Over r"
  by (cases g) (auto simp: limiter_procs atomically_def)

type_synonym 't slots = "'t \<Rightarrow> (unit \<times> (limited, bool) proc) option"

definition slots :: "int \<Rightarrow> ('t \<Rightarrow> stage option) \<Rightarrow> 't slots" where
  "slots limit pcs = (\<lambda>i. map_option (\<lambda>g. ((), stage_proc limit g)) (pcs i))"

text \<open>The clock moves forward.\<close>

definition ticks :: "limited \<Rightarrow> limited \<Rightarrow> bool" where
  "ticks s s' \<longleftrightarrow> (\<exists>t \<ge> clock s. s' = s\<lparr>clock := t\<rparr>)"

abbreviation limiter_step :: "int \<Rightarrow> limited \<times> 't slots \<Rightarrow> limited \<times> 't slots \<Rightarrow> bool" where
  "limiter_step limit \<equiv> threads_step (\<lambda>_. True) (\<lambda>_ _. allow_proc limit) ticks"

lemma limiter_step_cases:
  assumes "0 < limit" and "limiter_step limit (s, slots limit pcs) (s', ts')"
  obtains i where "pcs i = None" "s' = s" "ts' = slots limit (pcs(i \<mapsto> Start))"
  | i g g' where "pcs i = Some g" "stage_act limit g s = Some (s', g')" "ts' = slots limit (pcs(i \<mapsto> g'))"
  | i ok where "pcs i = Some (Over ok)" "s' = s" "ts' = slots limit (pcs(i := None))"
  | "ticks s s'" "ts' = slots limit pcs"
  using assms(2)
proof (cases rule: threads_step.cases)
  case (thread_starts i j)
  with that(1) [of i] show ?thesis by (auto simp: slots_def fun_eq_iff)
next
  case (thread_acts i j f p)
  then obtain g where g: "pcs i = Some g" "stage_proc limit g = Act f" by (auto simp: slots_def)
  with stage_acts [OF assms(1) g(2), of s] thread_acts(3) obtain g' where
    "stage_act limit g s = Some (s', g')" "p = stage_proc limit g'" by (cases "stage_act limit g s") auto
  with that(2) [OF g(1)] thread_acts(1) show ?thesis by (auto simp: slots_def fun_eq_iff)
next
  case (thread_finishes i j r)
  then obtain g where g: "pcs i = Some g" "stage_proc limit g = Done r" by (auto simp: slots_def)
  with that(3) [of i r] thread_finishes show ?thesis by (auto simp: stage_done [OF assms(1)] slots_def fun_eq_iff)
qed (use that(4) in simp)

subsection \<open>How often the counter may still be cleared\<close>

text \<open>
  Within the second \<open>T\<close> a thread that is about to clear the counter stands for one more
  window of \<open>limit\<close> calls. A call that read an earlier second and has not stored it yet may
  make all other threads believe that \<open>T\<close> has just begun, and so stands for one window per
  thread and its own. \<open>windows\<close> counts them; \<open>room\<close> is what the current window has left.
\<close>

fun clears :: "nat \<Rightarrow> int \<Rightarrow> stage option \<Rightarrow> nat" where
  "clears n T (Some (Load now)) = (if now = T then 0 else n + 1)"
| "clears n T (Some (Reset now)) = (if now = T then 0 else n + 1)"
| "clears n T (Some Zero) = 1"
| "clears n T _ = 0"

fun resets :: "int \<Rightarrow> stage option \<Rightarrow> nat" where
  "resets T (Some (Reset now)) = (if now = T then 1 else 0)"
| "resets T _ = 0"

definition windows :: "int \<Rightarrow> limited \<Rightarrow> ('t :: finite \<Rightarrow> stage option) \<Rightarrow> nat" where
  "windows T s pcs =
     (\<Sum>i \<in> UNIV. clears CARD('t) T (pcs i))
     + (if windowSec s = T then \<Sum>i \<in> UNIV. resets T (pcs i) else CARD('t))"

definition room :: "int \<Rightarrow> limited \<Rightarrow> nat" where
  "room limit s = nat (limit - sint (win_count s))"

lemma sum_slot:
  fixes pcs :: "'t :: finite \<Rightarrow> stage option" and f :: "stage option \<Rightarrow> nat"
  shows "(\<Sum>j \<in> UNIV. f ((pcs(i := x)) j)) + f (pcs i) = (\<Sum>j \<in> UNIV. f (pcs j)) + f x"
proof -
  let ?rest = "\<Sum>j \<in> UNIV - {i}. f (pcs j)"
  have "(\<Sum>j \<in> UNIV. f (pcs j)) = f (pcs i) + ?rest" by (rule sum.remove) simp_all
  moreover have "(\<Sum>j \<in> UNIV. f ((pcs(i := x)) j)) = f ((pcs(i := x)) i) + (\<Sum>j \<in> UNIV - {i}. f ((pcs(i := x)) j))"
    by (rule sum.remove) simp_all
  moreover have "(\<Sum>j \<in> UNIV - {i}. f ((pcs(i := x)) j)) = ?rest" by (rule sum.cong) simp_all
  ultimately show ?thesis by simp
qed

lemma resets_bound: "(\<Sum>i \<in> UNIV. resets T (pcs i)) \<le> CARD('t)" for pcs :: "'t :: finite \<Rightarrow> stage option"
proof -
  have "resets T x \<le> 1" for x by (cases "(T, x)" rule: resets.cases) auto
  then have "(\<Sum>i \<in> UNIV. resets T (pcs i)) \<le> of_nat (card (UNIV :: 't set)) * 1" by (intro sum_bounded_above) simp
  then show ?thesis by simp
qed

lemma clears_bound:
  "(\<Sum>i \<in> UNIV. clears CARD('t) T (pcs i)) \<le> CARD('t) * (CARD('t) + 1)" for pcs :: "'t :: finite \<Rightarrow> stage option"
proof -
  have "clears n T x \<le> n + 1" for n x by (cases "(n, T, x)" rule: clears.cases) auto
  then have "(\<Sum>i \<in> UNIV. clears CARD('t) T (pcs i)) \<le> of_nat (card (UNIV :: 't set)) * (CARD('t) + 1)"
    by (intro sum_bounded_above) simp
  then show ?thesis by simp
qed

lemma windows_bound: "windows T s pcs \<le> CARD('t) * (CARD('t) + 2)" for pcs :: "'t :: finite \<Rightarrow> stage option"
  using clears_bound [of T pcs] resets_bound [of T pcs] by (simp add: windows_def algebra_simps)

text \<open>No action of a thread adds a window, and clearing the counter uses one up.\<close>

lemma windows_act:
  fixes pcs :: "'t :: finite \<Rightarrow> stage option"
  assumes "pcs i = Some g" and "stage_act limit g s = Some (s', g')"
  shows "windows (clock s) s' (pcs(i \<mapsto> g')) + (if g = Zero then 1 else 0) \<le> windows (clock s) s pcs"
proof -
  let ?T = "clock s" and ?n = "CARD('t)"
  let ?c = "\<lambda>pcs. \<Sum>j \<in> UNIV. clears ?n ?T (pcs j)" and ?r = "\<lambda>pcs. \<Sum>j \<in> UNIV. resets ?T (pcs j)"
  have c: "?c (pcs(i \<mapsto> g')) + clears ?n ?T (Some g) = ?c pcs + clears ?n ?T (Some g')"
    using sum_slot [of "clears ?n ?T" pcs i "Some g'"] assms(1) by simp
  have r: "?r (pcs(i \<mapsto> g')) + resets ?T (Some g) = ?r pcs + resets ?T (Some g')"
    using sum_slot [of "resets ?T" pcs i "Some g'"] assms(1) by simp
  have w: "windows ?T s' (pcs(i \<mapsto> g')) = ?c (pcs(i \<mapsto> g')) + (if windowSec s' = ?T then ?r (pcs(i \<mapsto> g')) else ?n)"
    "windows ?T s pcs = ?c pcs + (if windowSec s = ?T then ?r pcs else ?n)"
    by (simp_all only: windows_def)
  note bound = resets_bound [of ?T pcs] resets_bound [of ?T "pcs(i \<mapsto> g')"]
  show ?thesis
    unfolding w using c r bound assms(2)
    by (cases g) (auto simp: count_call_def simp del: fun_upd_apply split: if_splits)
qed

subsection \<open>The invariant\<close>

definition limiter_ok :: "int \<Rightarrow> limited \<Rightarrow> ('t :: finite \<Rightarrow> stage option) \<Rightarrow> bool" where
  "limiter_ok limit s pcs \<longleftrightarrow>
     sint (win_count s) = int (since s) \<and> since s \<le> most s
     \<and> (\<forall>T. admitted s T \<le> nat limit * (CARD('t) + 1) ^ 2) \<and> (\<forall>T > clock s. admitted s T = 0)
     \<and> admitted s (clock s) + room limit s + nat limit * windows (clock s) s pcs \<le> nat limit * (CARD('t) + 1) ^ 2"

lemma sint_plus_one:
  assumes "0 \<le> sint (c :: 32 word)" and "sint c < 2 ^ 31 - 1"
  shows "sint (c + 1) = sint c + 1"
  using assms by (simp add: sint_word_ariths signed_take_bit_int_eq_self)

lemma second_begins:
  fixes pcs :: "'t :: finite \<Rightarrow> stage option"
  assumes "0 \<le> sint (win_count s)"
  shows "room limit s + nat limit * windows T s pcs \<le> nat limit * (CARD('t) + 1) ^ 2"
proof -
  have "room limit s \<le> nat limit" using assms by (simp add: room_def)
  moreover have "nat limit * windows T s pcs \<le> nat limit * (CARD('t) * (CARD('t) + 2))"
    using windows_bound by (rule mult_le_mono2)
  ultimately show ?thesis by (simp add: algebra_simps power2_eq_square)
qed

lemma act_ok:
  fixes pcs :: "'t :: finite \<Rightarrow> stage option"
  assumes "limiter_ok limit s pcs" and "pcs i = Some g" and "stage_act limit g s = Some (s', g')" and "most s' < 2 ^ 31"
  shows "limiter_ok limit s' (pcs(i \<mapsto> g'))"
proof -
  let ?B = "nat limit * (CARD('t) + 1) ^ 2"
  note ok = assms(1) [unfolded limiter_ok_def]
  have win: "nat limit * windows (clock s) s' (pcs(i \<mapsto> g')) + (if g = Zero then nat limit else 0)
      \<le> nat limit * windows (clock s) s pcs"
    using mult_le_mono2 [OF windows_act [of pcs i, OF assms(2,3)], of "nat limit"] by (auto simp: add_mult_distrib2 split: if_splits)
  have clk: "clock s' = clock s" using assms(3) by (cases g) (auto simp: count_call_def)
  have cnt: "sint (win_count s') = int (since s') \<and> since s' \<le> most s'"
  proof (cases "g = Fetch")
    case True
    then have s': "s' = count_call limit s" using assms(3) by simp
    have "int (since s) < 2 ^ 31 - 1" using assms(4) by (simp add: s' count_call_def)
    with sint_plus_one [of "win_count s"] ok show ?thesis by (simp add: s' count_call_def)
  next
    case False
    with assms(3) ok show ?thesis by (cases g) auto
  qed
  have "admitted s' (clock s) + room limit s' \<le> admitted s (clock s) + room limit s + (if g = Zero then nat limit else 0)"
    using assms(3) cnt ok by (cases g) (auto simp: count_call_def room_def)
  then have total: "admitted s' (clock s') + room limit s' + nat limit * windows (clock s') s' (pcs(i \<mapsto> g')) \<le> ?B"
    using win ok unfolding clk by linarith
  have other: "admitted s' T = admitted s T" if "T \<noteq> clock s" for T
    using assms(3) that by (cases g) (auto simp: count_call_def)
  have "admitted s' T \<le> ?B" for T
  proof (cases "T = clock s")
    case True
    with clk have "admitted s' T = admitted s' (clock s')" by simp
    with total show ?thesis by linarith
  qed (use other ok in simp)
  moreover have "\<forall>T > clock s'. admitted s' T = 0" using other ok clk by simp
  ultimately show ?thesis unfolding limiter_ok_def using total cnt by blast
qed

lemma idle_ok:
  fixes pcs :: "'t :: finite \<Rightarrow> stage option"
  assumes "limiter_ok limit s pcs" and "pcs i = None \<and> x = Some Start \<or> pcs i = Some (Over ok) \<and> x = None"
  shows "limiter_ok limit s (pcs(i := x))"
proof -
  have "windows T s (pcs(i := x)) = windows T s pcs" for T
    unfolding windows_def using sum_slot [of "clears CARD('t) T" pcs i x] sum_slot [of "resets T" pcs i x] assms(2) by auto
  with assms(1) show ?thesis by (simp add: limiter_ok_def)
qed

lemma tick_ok:
  fixes pcs :: "'t :: finite \<Rightarrow> stage option"
  assumes "limiter_ok limit s pcs" and "ticks s s'"
  shows "limiter_ok limit s' pcs"
proof -
  from assms(2) obtain t where t: "t \<ge> clock s" "s' = s\<lparr>clock := t\<rparr>" by (auto simp: ticks_def)
  note ok = assms(1) [unfolded limiter_ok_def]
  show ?thesis
  proof (cases "t = clock s")
    case True
    with t(2) assms(1) show ?thesis by simp
  next
    case False
    with t have "admitted s' t = 0" using ok by simp
    moreover have "room limit s' + nat limit * windows t s' pcs \<le> nat limit * (CARD('t) + 1) ^ 2"
      using second_begins [of s' limit t pcs] ok t(2) by simp
    ultimately show ?thesis using ok t by (auto simp: limiter_ok_def)
  qed
qed

subsection \<open>All reactors\<close>

text \<open>The program starts with the two atomics at 0, at any time of the clock.\<close>

definition limiter_init :: "int \<Rightarrow> limited" where
  "limiter_init t = \<lparr>windowSec = 0, win_count = 0, clock = t, admitted = (\<lambda>_. 0), since = 0, most = 0\<rparr>"

definition limiter_start :: "limited \<times> 't slots \<Rightarrow> bool" where
  "limiter_start st \<longleftrightarrow> (\<exists>t. st = (limiter_init t, Map.empty))"

lemma limiter_step_most: "0 < limit \<Longrightarrow> limiter_step limit (s, slots limit pcs) (s', ts') \<Longrightarrow> most s \<le> most s'"
  by (elim limiter_step_cases) (auto simp: ticks_def count_call_def elim!: stage_act.elims)

lemma limiter_step_ok:
  fixes pcs :: "'t :: finite \<Rightarrow> stage option"
  assumes "0 < limit" and "limiter_ok limit s pcs" and "limiter_step limit (s, slots limit pcs) (s', ts')" and "most s' < 2 ^ 31"
  shows "\<exists>pcs'. ts' = slots limit pcs' \<and> limiter_ok limit s' pcs'"
  using assms(1,3)
proof (cases rule: limiter_step_cases)
  case (1 i)
  with idle_ok [OF assms(2), of i "Some Start" True] show ?thesis by auto
next
  case (2 i g g')
  with act_ok [OF assms(2) 2(1,2) assms(4)] show ?thesis by auto
next
  case (3 i ok)
  with idle_ok [OF assms(2), of i None ok] show ?thesis by auto
next
  case 4
  with tick_ok [OF assms(2)] show ?thesis by auto
qed

definition limiter_inv :: "int \<Rightarrow> limited \<times> ('t :: finite) slots \<Rightarrow> bool" where
  "limiter_inv limit st \<longleftrightarrow>
     (case st of (s, ts) \<Rightarrow> \<exists>pcs. ts = slots limit pcs \<and> (most s < 2 ^ 31 \<longrightarrow> limiter_ok limit s pcs))"

interpretation limiters: inductive_invariant limiter_start "limiter_step limit"
    "\<lambda>st :: limited \<times> ('t :: finite) slots. 0 < limit \<longrightarrow> limiter_inv limit st"
  for limit
proof (unfold_locales, goal_cases)
  case (1 st)
  then obtain t where st: "st = (limiter_init t, Map.empty)" by (auto simp: limiter_start_def)
  have "limiter_ok limit (limiter_init t) (Map.empty :: 't \<Rightarrow> stage option)"
    using second_begins [of "limiter_init t" limit t Map.empty] by (simp add: limiter_ok_def limiter_init_def)
  moreover have "Map.empty = slots limit Map.empty" by (simp add: slots_def)
  ultimately show ?case unfolding st limiter_inv_def by blast
next
  case (2 st st')
  obtain s ts s' ts' where st: "st = (s, ts)" "st' = (s', ts')" by fastforce
  show ?case
  proof (intro impI)
    assume lim: "0 < limit"
    with 2(1) st obtain pcs where p: "ts = slots limit pcs" "most s < 2 ^ 31 \<longrightarrow> limiter_ok limit s pcs"
      by (auto simp: limiter_inv_def)
    from 2(2) st p(1) have step: "limiter_step limit (s, slots limit pcs) (s', ts')" by simp
    have "\<exists>pcs'. ts' = slots limit pcs'" using lim step by (elim limiter_step_cases) blast+
    moreover have "most s \<le> most s'" by (rule limiter_step_most [OF lim step])
    ultimately show "limiter_inv limit st'"
      using limiter_step_ok [OF lim _ step] p(2) unfolding st limiter_inv_def by fastforce
  qed
qed

subsection \<open>Properties\<close>

text \<open>
  C37: the limiter under contention. From the start of the program, however the clock readings
  and the atomic operations of the \<open>n\<close> reactors interleave with each other and with the passing
  of time, at most \<open>limit * (n + 1)^2\<close> requests are admitted in any second of the clock, calls
  that read the clock before that second included, as long as no \<open>2 ^ 31\<close> calls count
  themselves between two clearings (the counter would wrap) and the clock is not set back.
\<close>

theorem limiter_contended:
  assumes "0 < limit" and "reach limiter_start (limiter_step limit) (s, ts :: ('t :: finite) slots)" and "most s < 2 ^ 31"
  shows "admitted s T \<le> nat limit * (CARD('t) + 1) ^ 2"
  using limiters.reach_inv [OF assms(2)] assms(1,3) by (auto simp: limiter_inv_def limiter_ok_def)

text \<open>
  The comment promises that a call answers false once the count of the second exceeds the
  limit. With two reactors and a limit of one request, five requests are admitted in the same
  second: both reactors clear the counter, and a call that read the clock in the second
  before puts that second back, so that both clear it once more.
\<close>

text \<open>A schedule: which thread acts next, or \<^const>\<open>None\<close> for a second that passes.\<close>

fun drive :: "int \<Rightarrow> 't option list \<Rightarrow> limited \<times> ('t \<Rightarrow> stage option) \<Rightarrow> (limited \<times> ('t \<Rightarrow> stage option)) option" where
  "drive limit [] st = Some st"
| "drive limit (None # is) (s, pcs) = drive limit is (s\<lparr>clock := clock s + 1\<rparr>, pcs)"
| "drive limit (Some i # is) (s, pcs) =
     (case pcs i of
        None \<Rightarrow> drive limit is (s, pcs(i \<mapsto> Start))
      | Some (Over _) \<Rightarrow> drive limit is (s, pcs(i := None))
      | Some g \<Rightarrow> (case stage_act limit g s of None \<Rightarrow> None | Some (s', g') \<Rightarrow> drive limit is (s', pcs(i \<mapsto> g'))))"

lemma drive_step:
  assumes "0 < limit" and "drive limit (x # is) (s, pcs) = Some st"
  shows "\<exists>s1 pcs1. limiter_step limit (s, slots limit pcs) (s1, slots limit pcs1) \<and> drive limit is (s1, pcs1) = Some st"
proof (cases x)
  case None
  have "limiter_step limit (s, slots limit pcs) (s\<lparr>clock := clock s + 1\<rparr>, slots limit pcs)"
    by (rule world_moves) (auto simp: ticks_def intro: exI [of _ "clock s + 1"])
  with None assms(2) show ?thesis by auto
next
  case (Some i)
  have upd: "slots limit (pcs(i \<mapsto> g)) = (slots limit pcs)(i \<mapsto> ((), stage_proc limit g))"
    "slots limit (pcs(i := None)) = (slots limit pcs)(i := None)" for g
    by (simp_all add: slots_def fun_eq_iff)
  show ?thesis
  proof (cases "pcs i")
    case None
    then have "slots limit pcs i = None" by (simp add: slots_def)
    then have "limiter_step limit (s, slots limit pcs) (s, slots limit (pcs(i \<mapsto> Start)))"
      using thread_starts [of "slots limit pcs" i "\<lambda>_. True" "()" "\<lambda>_ _. allow_proc limit" ticks s] upd(1) [of Start] by simp
    moreover have "drive limit is (s, pcs(i \<mapsto> Start)) = Some st" using None Some assms(2) by simp
    ultimately show ?thesis by blast
  next
    case g: (Some g)
    show ?thesis
    proof (cases "stage_proc limit g")
      case (Done r)
      then have over: "g = Over r" using stage_done [OF assms(1)] by simp
      have "slots limit pcs i = Some ((), Done r)" using g Done by (simp add: slots_def)
      then have "limiter_step limit (s, slots limit pcs) (s, slots limit (pcs(i := None)))"
        unfolding upd by (rule thread_finishes)
      moreover have "drive limit is (s, pcs(i := None)) = Some st" using over g Some assms(2) by simp
      ultimately show ?thesis by blast
    next
      case (Act f)
      then obtain s1 g1 where a: "stage_act limit g s = Some (s1, g1)" "\<And>b. g \<noteq> Over b" by (cases g) auto
      have "slots limit pcs i = Some ((), Act f)" using g Act by (simp add: slots_def)
      moreover have "f s = Some (s1, stage_proc limit g1)" using stage_acts [OF assms(1) Act, of s] a(1) by simp
      ultimately have "limiter_step limit (s, slots limit pcs) (s1, slots limit (pcs(i \<mapsto> g1)))"
        unfolding upd by (rule thread_acts)
      moreover have "drive limit is (s1, pcs(i \<mapsto> g1)) = Some st" using assms(2) Some g a by (cases g) auto
      ultimately show ?thesis by blast
    qed
  qed
qed

lemma drive_reach:
  assumes "drive limit is (s, pcs) = Some (s', pcs')" and "0 < limit"
    and "reach limiter_start (limiter_step limit) (s, slots limit pcs)"
  shows "reach limiter_start (limiter_step limit) (s', slots limit pcs')"
  using assms
proof (induction "is" arbitrary: s pcs)
  case (Cons x "is")
  from drive_step [OF Cons.prems(2,1)] obtain s1 pcs1 where
    "limiter_step limit (s, slots limit pcs) (s1, slots limit pcs1)" "drive limit is (s1, pcs1) = Some (s', pcs')" by blast
  with Cons.IH [of s1 pcs1] reach_step [OF Cons.prems(3)] Cons.prems(2) show ?case by blast
qed simp

definition race_schedule :: "bool option list" where
  "race_schedule =
     map Some [False, False, False, False, False, True, True] @ [None]
     @ map Some ([False, False, False, False, False, False, False, False, False, False, False]
         @ [True, True, False, True, True, True, True, True, True]
         @ [False, False, False, True, True, True])"

definition race_end :: limited where
  "race_end = fst (the (drive 1 race_schedule (limiter_init 6, Map.empty)))"

lemma race_driven: "\<exists>pcs. drive 1 race_schedule (limiter_init 6, Map.empty) = Some (race_end, pcs)"
  and race_admits: "admitted race_end 7 = 5" "most race_end = 1"
  by (simp_all add: race_end_def race_schedule_def limiter_init_def count_call_def)

lemma race_reached: "\<exists>ts :: bool slots. reach limiter_start (limiter_step 1) (race_end, ts)"
proof -
  have "reach limiter_start (limiter_step 1) (limiter_init 6, slots 1 (Map.empty :: bool \<Rightarrow> stage option))"
    by (rule reach_init) (auto simp: limiter_start_def slots_def)
  with race_driven drive_reach [of 1] show ?thesis by fastforce
qed

lemma limiter_race_admits_five:
  "\<exists>s (ts :: bool slots). reach limiter_start (limiter_step 1) (s, ts) \<and> admitted s 7 = 5"
  using race_reached race_admits by blast

theorem limiter_contended_witness:
  "\<exists>ts :: bool slots. reach limiter_start (limiter_step 1) (race_end, ts)
     \<and> admitted race_end 7 = 5 \<and> admitted race_end 7 \<le> nat 1 * (CARD(bool) + 1) ^ 2"
proof -
  obtain ts :: "bool slots" where r: "reach limiter_start (limiter_step 1) (race_end, ts)" using race_reached by blast
  have "admitted race_end 7 \<le> nat 1 * (CARD(bool) + 1) ^ 2"
    by (rule limiter_contended [OF _ r]) (simp_all add: race_admits)
  with r race_admits(1) show ?thesis by blast
qed

end
