(* ===== verification/Edge.thy ===== *)
theory Edge
  imports Dispatch
begin

section \<open>Edge-triggered events are never lost\<close>

text \<open>
  The connections are registered edge-triggered: an event that was reported is not reported
  again unless something new happens. \<^verbatim>\<open>Channel::handleEvent\<close> runs the write callback alone when
  a channel is writable, whatever else the event says, so that a reported readability may
  be passed over. It is not lost, because the write path ends with an \<^verbatim>\<open>epoll_ctl\<close> on every
  connection it leaves open, which arms the descriptor again.
\<close>

subsection \<open>What the kernel does\<close>

text \<open>
  \<open>missed w fd\<close>: there is something to read on a registered descriptor and no event pending
  that would report it. A successful \<^verbatim>\<open>epoll_ctl\<close> with \<^const>\<open>EPOLLIN\<close> makes the kernel look again,
  a read that would block shows that there is nothing, a closed descriptor is gone. No
  other call makes the kernel forget an event.
\<close>

definition remembers :: "('w \<Rightarrow> int \<Rightarrow> bool) \<Rightarrow> 'w \<Rightarrow> 'w \<Rightarrow> bool" where
  "remembers missed w w' \<longleftrightarrow> (\<forall>fd. missed w' fd \<longrightarrow> missed w fd)"

definition edge_triggered :: "'w net \<Rightarrow> 'w kernel \<Rightarrow> ('w \<Rightarrow> int \<Rightarrow> bool) \<Rightarrow> bool" where
  "edge_triggered N K missed \<longleftrightarrow>
     reactor_moves N K (remembers missed)
     \<and> (\<forall>ep op fd ev w w'. k_epoll_ctl K ep op fd ev w = (Ret (), w') \<longrightarrow> ev_events ev AND EPOLLIN \<noteq> 0 \<longrightarrow> \<not> missed w' fd)
     \<and> (\<forall>fd n w e w'. k_read K fd n w = (Err e, w') \<longrightarrow> e \<in> {EAGAIN, EWOULDBLOCK} \<longrightarrow> \<not> missed w' fd)
     \<and> (\<forall>fd w. \<not> missed (n_close N fd w) fd)"

lemma edge_triggeredD:
  assumes "edge_triggered N K missed"
  shows "reactor_moves N K (remembers missed)"
    and "k_epoll_ctl K ep op fd ev w = (Ret (), w') \<Longrightarrow> ev_events ev AND EPOLLIN \<noteq> 0 \<Longrightarrow> \<not> missed w' fd"
    and "k_read K fd n w = (Err e, w') \<Longrightarrow> e \<in> {EAGAIN, EWOULDBLOCK} \<Longrightarrow> \<not> missed w' fd"
    and "\<not> missed (n_close N fd w) fd"
  using assms unfolding edge_triggered_def by blast+

subsection \<open>A callback leaves nothing behind\<close>

text \<open>The connection is open, registered with its reactor, and listens for input.\<close>

definition attached :: "('w \<Rightarrow> int set) \<Rightarrow> ('w \<Rightarrow> interests) \<Rightarrow> connection \<Rightarrow> 'w \<Rightarrow> bool" where
  "attached socks interest c w \<longleftrightarrow>
     sock_fd c \<in> socks w \<and> ch_fd (conn_channel c) = sock_fd c
     \<and> ptr interest w (ch_loop (conn_channel c)) (sock_fd c) = Some (ch_addr (conn_channel c))
     \<and> ch_events (conn_channel c) AND NOT EPOLLOUT = conn_mask"

abbreviation undisturbed_by :: "('w \<Rightarrow> int set) \<Rightarrow> ('w \<Rightarrow> interests) \<Rightarrow> connection \<Rightarrow> 'w \<Rightarrow> 'w \<Rightarrow> bool" where
  "undisturbed_by socks interest c \<equiv>
     undisturbed socks interest (ch_loop (conn_channel c)) (ch_fd (conn_channel c)) (ch_addr (conn_channel c))"

lemma attached_stable:
  assumes "attached socks interest c w" and "undisturbed_by socks interest c w w'" and "conn_id c' = conn_id c"
  shows "attached socks interest c' w'"
  using assms by (auto simp: attached_def undisturbed_def conn_id_def)

lemma mask_listens:
  assumes "e AND NOT EPOLLOUT = conn_mask"
  shows "(e OR EPOLLOUT) AND EPOLLIN \<noteq> 0" and "(e AND NOT EPOLLOUT) AND EPOLLIN \<noteq> 0"
proof -
  have m: "conn_mask AND EPOLLIN \<noteq> 0" "EPOLLIN AND NOT EPOLLOUT = EPOLLIN" by (simp_all add: conn_mask_def epoll_flags)
  then show "(e AND NOT EPOLLOUT) AND EPOLLIN \<noteq> 0" using assms by simp
  have "(e AND NOT EPOLLOUT) AND EPOLLIN = e AND EPOLLIN" using m(2) by (metis and.assoc and.commute)
  with assms m(1) have "e AND EPOLLIN \<noteq> 0" by simp
  then show "(e OR EPOLLOUT) AND EPOLLIN \<noteq> 0" by (simp add: bit.conj_disj_distrib2 epoll_flags)
qed

lemma update_arms:
  assumes "fd_kernel K socks interest" and "edge_triggered N K missed" and "attached socks interest c w"
    and "e AND EPOLLIN \<noteq> 0" and "updateChannel K (conn_channel c\<lparr>ch_events := e\<rparr>) w = (ch, w')"
  shows "\<not> missed w' (sock_fd c)"
proof -
  let ?ch = "conn_channel c\<lparr>ch_events := e\<rparr>"
  have "interest w (ch_loop ?ch) (ch_fd ?ch) \<noteq> None" "ch_fd ?ch \<in> socks w"
    using assms(3) by (auto simp: attached_def ptr_def)
  from updateChannel_succeeds [OF fd_kernelD(1,2) [OF assms(1)] this(2)] this(1) obtain op w0 where
    "k_epoll_ctl K (ch_loop ?ch) op (ch_fd ?ch) \<lparr>ev_events = e, ev_ptr = ch_addr ?ch\<rparr> w0 = (Ret (), w')"
    using assms(5) by fastforce
  from edge_triggeredD(2) [OF assms(2) this] assms(3,4) show ?thesis by (simp add: attached_def)
qed

lemma channel_arms:
  assumes "fd_kernel K socks interest" and "edge_triggered N K missed" and "attached socks interest c w"
  shows "enableWriting K (conn_channel c) w = (ch, w') \<Longrightarrow> \<not> missed w' (sock_fd c)"
    and "disableWriting K (conn_channel c) w = (ch, w') \<Longrightarrow> \<not> missed w' (sock_fd c)"
proof -
  have "ch_events (conn_channel c) AND NOT EPOLLOUT = conn_mask" using assms(3) by (simp add: attached_def)
  note m = mask_listens [OF this]
  show "enableWriting K (conn_channel c) w = (ch, w') \<Longrightarrow> \<not> missed w' (sock_fd c)"
    and "disableWriting K (conn_channel c) w = (ch, w') \<Longrightarrow> \<not> missed w' (sock_fd c)"
    unfolding enableWriting_def disableWriting_def
    using update_arms [OF assms m(1)] update_arms [OF assms m(2)] by blast+
qed

lemma write_arms:
  assumes "fd_kernel K socks interest" and "edge_triggered N K missed" and "attached socks interest c w"
    and "writeFromBuffer K c w = Some (Alive c', w')"
  shows "\<not> missed w' (sock_fd c)"
proof -
  have k: "keeps K (undisturbed_by socks interest c) c" using fd_kernel_moves [OF assms(1)] by (simp add: keeps_def)
  obtain d c1 w1 where b: "drain_buf K c w = Some (d, c1, w1)"
    using assms(4) by (auto simp: writeFromBuffer_def split: option.splits)
  note b' = drain_kept(1) [OF k b]
  have a1: "attached socks interest c1 w1" using attached_stable [OF assms(3)] b' by blast
  have id1: "sock_fd c1 = sock_fd c" using b' by (simp add: conn_id_def)
  have k1: "keeps K (undisturbed_by socks interest c) c1" using k b' keeps_cong by blast
  show ?thesis
  proof (cases d)
    case Blocked
    with assms(4) b channel_arms(1) [OF assms(1,2) a1, of _ w'] id1 show ?thesis
      by (auto simp: writeFromBuffer_def conn_enableWriting_def split: prod.splits)
  next
    case Failed
    with assms(4) b show ?thesis by (simp add: writeFromBuffer_def)
  next
    case Drained
    with assms(4) b obtain d2 c2 w2 where f: "drain_file K c1 w1 = Some (d2, c2, w2)"
      by (auto simp: writeFromBuffer_def split: option.splits)
    note f' = drain_kept(2) [OF k1 f]
    have "undisturbed_by socks interest c w w2" using b' f' by (auto simp: undisturbed_def)
    then have a2: "attached socks interest c2 w2" using attached_stable [OF assms(3)] b' f' by metis
    have id2: "sock_fd c2 = sock_fd c" using b' f' by (simp add: conn_id_def)
    from assms(4) b Drained f channel_arms(1) [OF assms(1,2) a2, of _ w'] channel_arms(2) [OF assms(1,2) a2, of _ w'] id2
    show ?thesis
      by (cases d2) (auto simp: writeFromBuffer_def conn_enableWriting_def split: prod.splits if_splits)
  qed
qed

lemma handleWrite_arms:
  assumes "fd_kernel K socks interest" and "edge_triggered N K missed" and "attached socks interest c w"
    and "handleWrite K c w = Some (Alive c', w')"
  shows "\<not> missed w' (sock_fd c)"
  using assms(4) write_arms [OF assms(1-3)] channel_arms(2) [OF assms(1-3), of _ w']
  by (auto simp: handleWrite_def split: if_splits prod.splits)

lemma read_loop_blocked:
  assumes "read_loop K c w = Some (True, c', w')"
  shows "would_block K (sock_fd c) w'"
proof -
  have "fst r \<longrightarrow> would_block K (sock_fd c) (snd (snd r))" if "read_loop K c w = Some r" for r
  proof (rule read_loop.raw_induct
      [where P = "\<lambda>K c w r. fst r \<longrightarrow> would_block K (sock_fd c) (snd (snd r))", OF _ that])
    fix f :: "'a kernel \<Rightarrow> connection \<Rightarrow> 'a \<Rightarrow> _" and K c w r
    assume IH: "\<And>K c w r. f K c w = Some r \<Longrightarrow> fst r \<longrightarrow> would_block K (sock_fd c) (snd (snd r))"
      and eq: "(case k_read K (sock_fd c) 4096 w of
        (r, w') \<Rightarrow>
          (case r of
             Ret d \<Rightarrow> if d \<noteq> [] then f K (c\<lparr>inputBuffer := inputBuffer c @ d\<rparr>) w' else Some (False, c, w')
           | Err e \<Rightarrow> if e = EINTR then f K c w' else Some (e = EAGAIN \<or> e = EWOULDBLOCK, c, w'))) = Some r"
    obtain x w1 where x: "k_read K (sock_fd c) 4096 w = (x, w1)" by fastforce
    show "fst r \<longrightarrow> would_block K (sock_fd c) (snd (snd r))"
    proof (cases x)
      case (Ret d)
      with eq x IH [of K "c\<lparr>inputBuffer := inputBuffer c @ d\<rparr>" w1 r] show ?thesis by (auto split: if_splits)
    next
      case (Err e)
      have "would_block K (sock_fd c) w1" if "e \<in> {EAGAIN, EWOULDBLOCK}" using x Err that unfolding would_block_def by blast
      with Err eq x IH [of K c w1 r] show ?thesis by (auto split: if_splits)
    qed
  qed
  from this [OF assms] show ?thesis by simp
qed

lemma handleMessage_drained:
  assumes "edge_triggered N K missed" and "handleMessage K getenv c sh w = Some (Alive c', sh', w')"
  shows "\<not> missed w' (sock_fd c)"
proof -
  obtain now w0 where t: "k_time K w = (now, w0)" by fastforce
  let ?c = "c\<lparr>lastActiveSec := now\<rparr>"
  from assms(2) t obtain dr c1 w1 where r: "read_loop K ?c w0 = Some (dr, c1, w1)" and dr: dr
    and p: "processRequests K getenv c1 sh w1 = Some (Alive c', sh', w')"
    by (auto simp: handleMessage_def split: option.splits if_splits)
  from read_loop_blocked [of K ?c w0 c1 w1] r dr have "would_block K (sock_fd c) w1" by simp
  then have "\<not> missed w1 (sock_fd c)" using edge_triggeredD(3) [OF assms(1)] unfolding would_block_def by blast
  moreover have "remembers missed w1 w'"
    using processRequests_kept [OF reactor_movesD(10) [OF edge_triggeredD(1) [OF assms(1)]] p] by (simp add: kept_def)
  ultimately show ?thesis by (auto simp: remembers_def)
qed

text \<open>Every event that epoll reports has one of these bits.\<close>

definition reports :: "evmask \<Rightarrow> bool" where
  "reports ev \<longleftrightarrow> ev AND (EPOLLIN OR EPOLLPRI OR EPOLLRDHUP OR EPOLLHUP OR EPOLLERR OR EPOLLOUT) \<noteq> 0"

lemma reported_handled:
  assumes "reports (ch_revents ch)" and "read_callback ch = Some HandleMessage" and "write_callback ch = Some HandleWrite"
  shows "handleEvent ch = Some HandleMessage \<or> handleEvent ch = Some HandleWrite"
proof -
  have "ch_revents ch AND (EPOLLIN OR EPOLLPRI OR EPOLLRDHUP OR EPOLLHUP OR EPOLLERR) \<noteq> 0 \<or> ch_revents ch AND EPOLLOUT \<noteq> 0"
    using assms(1) by (auto simp: reports_def bit.conj_disj_distrib)
  with assms(2,3) show ?thesis by (auto simp: handleEvent_def)
qed

lemma live_attached:
  assumes "server_inv socks interest (s, w)" and "map_of (connections s) fd = Some c"
  shows "attached socks interest c w" and "sock_fd c = fd"
proof -
  have tab: "table_ok s" using assms(1) by (simp add: server_rel_def)
  have l: "live s fd = Some (conn_id c)" using assms(2) by (simp add: live_def)
  note e = table_okD(3) [OF tab l]
  then show fd: "sock_fd c = fd" by (auto simp: conn_id_def)
  have "fd \<in> socks w" using assms(1) l by (auto simp: server_rel_def)
  moreover have "ptr interest w (ch_loop (conn_channel c)) fd = Some (ch_addr (conn_channel c))"
    using assms(1) l e by (auto simp: server_rel_def registry_def conn_id_def)
  ultimately show "attached socks interest c w" using e fd by (auto simp: attached_def conn_id_def)
qed

text \<open>After the callback of an event the connection is gone, or nothing is missed on it.\<close>

lemma event_leaves_nothing:
  assumes "fd_kernel K socks interest" and "edge_triggered N K missed" and "server_inv socks interest (s, w)"
    and "connection_event N K getenv fd ev (s, w) = Some (s', w')" and "map_of (connections s) fd = Some c" and "reports ev"
  shows "\<not> missed w' fd"
proof -
  let ?c = "c\<lparr>conn_channel := setRevents (conn_channel c) ev\<rparr>"
  note at = live_attached [OF assms(3,5)]
  have tab: "table_ok s" using assms(3) by (simp add: server_rel_def)
  have a: "attached socks interest ?c w" "sock_fd ?c = fd" using at by (simp_all add: attached_def setRevents_def)
  have "fd \<noteq> -1" using table_entry(1) [OF tab assms(5)] by simp
  then have del: "\<not> missed (snd (deleteConnection N fd (s\<lparr>serverShared := sh\<rparr>, w1))) fd" for sh w1
    using edge_triggeredD(4) [OF assms(2)] assms(5) by (simp add: deleteConnection_def socket_delete_def)
  have "handleEvent (conn_channel ?c) = Some HandleMessage \<or> handleEvent (conn_channel ?c) = Some HandleWrite"
    using reported_handled [of "conn_channel ?c"] assms(6) table_entry(7,8) [OF tab assms(5)] by (simp add: setRevents_def)
  then show ?thesis
  proof
    assume h: "handleEvent (conn_channel ?c) = Some HandleMessage"
    with assms(4,5) obtain out sh w1 where r: "handleMessage K getenv ?c (serverShared s) w = Some (out, sh, w1)"
      by (auto simp: connection_event_def Let_def split: option.splits)
    show ?thesis
    proof (cases out)
      case (Alive c')
      with handleMessage_drained [OF assms(2), of getenv ?c "serverShared s" w c' sh w1] r a h assms(4,5) show ?thesis
        by (simp add: connection_event_def)
    next
      case Destroyed
      with r h assms(4,5) del [of sh w1] show ?thesis by (simp add: connection_event_def)
    qed (use r h assms(4,5) in \<open>simp_all add: connection_event_def\<close>)
  next
    assume h: "handleEvent (conn_channel ?c) = Some HandleWrite"
    with assms(4,5) obtain out w1 where r: "handleWrite K ?c w = Some (out, w1)"
      by (auto simp: connection_event_def Let_def split: option.splits)
    show ?thesis
    proof (cases out)
      case (Alive c')
      with handleWrite_arms [OF assms(1,2) a(1), of c' w1] r a h assms(4,5) show ?thesis
        by (simp add: connection_event_def)
    next
      case Destroyed
      with r h assms(4,5) del [of "serverShared s" w1] show ?thesis by (simp add: connection_event_def)
    qed (use r h assms(4,5) in \<open>simp_all add: connection_event_def\<close>)
  qed
qed

subsection \<open>All reactors\<close>

text \<open>
  The steps of \<^const>\<open>dispatch_step\<close>, with what the kernel and the world do to the pending events.
  \<^verbatim>\<open>epoll_wait\<close> takes an event off the kernel's list only by reporting it.
\<close>

definition fetches :: "('w \<Rightarrow> int \<Rightarrow> bool) \<Rightarrow> ('w \<Rightarrow> interests) \<Rightarrow> nat \<Rightarrow> 'w \<Rightarrow> epoll_event list sysret \<Rightarrow> 'w \<Rightarrow> bool" where
  "fetches missed interest l w r w' \<longleftrightarrow>
     list_all (\<lambda>(a, ev). reports ev) (activeChannels r)
     \<and> (\<forall>fd. missed w' fd \<longrightarrow> missed w fd \<or> (\<exists>a \<in> fst ` set (activeChannels r). ptr interest w l fd = Some a))"

inductive edge_step ::
    "'w net \<Rightarrow> 'w kernel \<Rightarrow> environ \<Rightarrow> ('w \<Rightarrow> bool) \<Rightarrow> ('w \<Rightarrow> int set) \<Rightarrow> ('w \<Rightarrow> interests) \<Rightarrow> ('w \<Rightarrow> int \<Rightarrow> bool)
     \<Rightarrow> server \<times> 'w \<times> batches \<Rightarrow> server \<times> 'w \<times> batches \<Rightarrow> bool"
  for N K getenv g_shutdown socks interest missed where
  e_wait: "pend l = [] \<Longrightarrow> l < length (subQuit s) \<Longrightarrow> waits socks interest l w r w' \<Longrightarrow> fetches missed interest l w r w'
    \<Longrightarrow> edge_step N K getenv g_shutdown socks interest missed (s, w, pend) (s, w', pend(l := activeChannels r))"
| e_event: "pend l = (a, ev) # rest \<Longrightarrow> sub_dispatch N K getenv a ev (s, w) = Some (s', w')
    \<Longrightarrow> edge_step N K getenv g_shutdown socks interest missed (s, w, pend) (s', w', pend(l := rest))"
| e_accept: "accept_event N K (s, w) = Some (s', w')
    \<Longrightarrow> edge_step N K getenv g_shutdown socks interest missed (s, w, pend) (s', w', pend)"
| e_tick: "loopCallback N K g_shutdown (s, w) = (s', w')
    \<Longrightarrow> edge_step N K getenv g_shutdown socks interest missed (s, w, pend) (s', w', pend)"
| e_world: "same_fds socks interest w w' \<Longrightarrow> remembers missed w w'
    \<Longrightarrow> edge_step N K getenv g_shutdown socks interest missed (s, w, pend) (s\<lparr>serverShared := sh\<rparr>, w', pend)"

definition edge_start ::
    "'w net \<Rightarrow> 'w kernel \<Rightarrow> environ \<Rightarrow> ('w \<Rightarrow> int set) \<Rightarrow> ('w \<Rightarrow> interests) \<Rightarrow> ('w \<Rightarrow> int \<Rightarrow> bool) \<Rightarrow> server \<times> 'w \<times> batches \<Rightarrow> bool" where
  "edge_start N K getenv socks interest missed st \<longleftrightarrow>
     dispatch_start N K getenv socks interest st \<and> (\<forall>fd. \<not> missed (fst (snd st)) fd)"

lemma edge_step_dispatch:
  "edge_step N K getenv g socks interest missed st st' \<Longrightarrow> dispatch_step N K getenv g socks interest st st'"
  by (erule edge_step.cases) (auto intro: dispatch_step.intros)

text \<open>Whoever misses something has its event in the batch of its reactor.\<close>

definition awaited :: "('w \<Rightarrow> int \<Rightarrow> bool) \<Rightarrow> server \<times> 'w \<times> batches \<Rightarrow> bool" where
  "awaited missed st \<longleftrightarrow>
     (case st of (s, w, pend) \<Rightarrow>
        (\<forall>l. list_all (\<lambda>(a, ev). reports ev) (pend l))
        \<and> (\<forall>fd. missed w fd \<longrightarrow> (\<exists>l a. lives_on s l a fd \<and> a \<in> fst ` set (pend l))))"

lemma awaitedD: "awaited missed (s, w, pend) \<Longrightarrow> missed w fd \<Longrightarrow> \<exists>l a. lives_on s l a fd \<and> a \<in> fst ` set (pend l)"
  unfolding awaited_def prod.case by blast

lemma awaited_mono:
  assumes "awaited missed (s, w, pend)" and "remembers missed w w'" and "\<And>l a fd. lives_on s l a fd \<Longrightarrow> lives_on s' l a fd"
  shows "awaited missed (s', w', pend)"
  using assms unfolding awaited_def remembers_def by simp blast

lemma awaited_event:
  assumes "fd_kernel K socks interest" and "edge_triggered N K missed" and "dispatch_inv socks interest (s, w, pend)"
    and "awaited missed (s, w, pend)" and "pend l = (a, ev) # rest" and "sub_dispatch N K getenv a ev (s, w) = Some (s', w')"
  shows "awaited missed (s', w', pend(l := rest))"
proof -
  have inv: "server_inv socks interest (s, w)" and b: "batches_live s pend" using assms(3) by (simp_all add: dispatch_inv_def)
  have "a \<in> fst ` set (pend l)" using assms(5) by simp
  with b obtain fd where fd: "lives_on s l a fd" unfolding batches_live_def by blast
  with conn_at_live [OF inv] assms(6) have e: "connection_event N K getenv fd ev (s, w) = Some (s', w')"
    by (simp add: sub_dispatch_def)
  from fd obtain c where c: "map_of (connections s) fd = Some c" by (auto simp: lives_on_def live_def)
  have rep: "list_all (\<lambda>(a, ev). reports ev) (pend k)" for k using assms(4) by (simp add: awaited_def)
  have "reports ev" using rep [of l] assms(5) by simp
  from event_leaves_nothing [OF assms(1,2) inv e c this] have gone: "\<not> missed w' fd" .
  have "map_sorted (connections s)" using inv by (simp add: server_rel_def table_okD(1))
  from connection_event_live [OF e this] have keep: "lives_on s' k x g" if "lives_on s k x g" "g \<noteq> fd" for k x g
    using that by (auto simp: lives_on_def)
  have quiet: "remembers missed w w'" by (rule connection_event_moves [OF edge_triggeredD(1) [OF assms(2)] e])
  have "\<exists>k x. lives_on s' k x g \<and> x \<in> fst ` set ((pend(l := rest)) k)" if "missed w' g" for g
  proof -
    have "missed w g" "g \<noteq> fd" using that quiet gone by (auto simp: remembers_def)
    with awaitedD [OF assms(4), of g] obtain k x where k: "lives_on s k x g" "x \<in> fst ` set (pend k)" by blast
    have "k \<noteq> l \<or> x \<noteq> a" using lives_on_unique [OF inv k(1), of l fd] fd \<open>g \<noteq> fd\<close> by auto
    with k(2) assms(5) have "x \<in> fst ` set ((pend(l := rest)) k)" by auto
    with keep [OF k(1) \<open>g \<noteq> fd\<close>] show ?thesis by blast
  qed
  moreover have "list_all (\<lambda>(a, ev). reports ev) ((pend(l := rest)) k)" for k
    using rep [of k] rep [of l] assms(5) by simp
  ultimately show ?thesis unfolding awaited_def by simp
qed

lemma awaited_wait:
  assumes "dispatch_inv socks interest (s, w, pend)" and "awaited missed (s, w, pend)" and "pend l = []"
    and "l < length (subQuit s)" and "fetches missed interest l w r w'"
  shows "awaited missed (s, w', pend(l := activeChannels r))"
proof -
  have inv: "server_inv socks interest (s, w)" using assms(1) by (simp add: dispatch_inv_def)
  have "\<exists>k x. lives_on s k x fd \<and> x \<in> fst ` set ((pend(l := activeChannels r)) k)" if "missed w' fd" for fd
  proof (cases "missed w fd")
    case True
    with awaitedD [OF assms(2), of fd] obtain k x where k: "lives_on s k x fd" "x \<in> fst ` set (pend k)" by blast
    with assms(3) have "k \<noteq> l" by auto
    with k show ?thesis by auto
  next
    case False
    with that assms(5) obtain a where a: "a \<in> fst ` set (activeChannels r)" "ptr interest w l fd = Some a"
      unfolding fetches_def by blast
    from a(2) have "map_option ev_ptr (interest w l fd) = Some a" by (simp add: ptr_def)
    then have "lives_on s l a fd" by (rule registered_lives [OF inv assms(4)])
    with a(1) show ?thesis by auto
  qed
  moreover have "list_all (\<lambda>(a, ev). reports ev) ((pend(l := activeChannels r)) k)" for k
    using assms(2,5) by (simp add: awaited_def fetches_def)
  ultimately show ?thesis unfolding awaited_def by simp
qed

definition edge_inv :: "('w \<Rightarrow> int set) \<Rightarrow> ('w \<Rightarrow> interests) \<Rightarrow> ('w \<Rightarrow> int \<Rightarrow> bool) \<Rightarrow> server \<times> 'w \<times> batches \<Rightarrow> bool" where
  "edge_inv socks interest missed st \<longleftrightarrow> dispatch_inv socks interest st \<and> awaited missed st"

lemma edge_step_inv:
  assumes "fd_kernel K socks interest" and "fd_net N socks interest" and "edge_triggered N K missed"
    and "edge_step N K getenv g socks interest missed st st'" and "edge_inv socks interest missed st"
  shows "edge_inv socks interest missed st'"
proof -
  note moves = edge_triggeredD(1) [OF assms(3)]
  have dis: "dispatch_inv socks interest st" and aw: "awaited missed st" using assms(5) by (simp_all add: edge_inv_def)
  have "awaited missed st'"
    using assms(4)
  proof cases
    case (e_wait pend l s w r w')
    with awaited_wait [of socks interest s w pend missed l r w'] dis aw show ?thesis by simp
  next
    case (e_event pend l a ev rest s w s' w')
    with awaited_event [OF assms(1,3), of s w pend l a ev rest getenv s' w'] dis aw show ?thesis by simp
  next
    case (e_accept s w s' w' pend)
    have inv: "server_inv socks interest (s, w)" using dis e_accept(1) by (simp add: dispatch_inv_def)
    have "awaited missed (s, w, pend)" using aw e_accept(1) by simp
    then show ?thesis unfolding e_accept(2)
      by (rule awaited_mono [OF _ accept_event_moves [OF moves e_accept(3)]])
        (rule lives_on_le [OF accept_event_live [OF assms(1,2) inv e_accept(3)]])
  next
    case (e_tick s w s' w' pend)
    then have "connections s' = connections s" by (auto simp: loopCallback_def server_stop_def split: if_splits)
    then have "lives_on s l a fd \<Longrightarrow> lives_on s' l a fd" for l a fd by (simp add: lives_on_def live_def)
    with awaited_mono [OF _ loopCallback_moves [OF moves e_tick(3)]] aw e_tick show ?thesis by blast
  next
    case (e_world w w' s pend sh)
    have "lives_on s l a fd \<Longrightarrow> lives_on (s\<lparr>serverShared := sh\<rparr>) l a fd" for l a fd by (simp add: lives_on_def live_def)
    with awaited_mono [OF _ e_world(4)] aw e_world show ?thesis by blast
  qed
  with dispatch_step_inv [OF assms(1,2) edge_step_dispatch [OF assms(4)] dis] show ?thesis by (simp add: edge_inv_def)
qed

interpretation edges: inductive_invariant "edge_start N K getenv socks interest missed" "edge_step N K getenv g socks interest missed"
    "\<lambda>st. fd_kernel K socks interest \<longrightarrow> fd_net N socks interest \<longrightarrow> edge_triggered N K missed \<longrightarrow> edge_inv socks interest missed st"
  for N :: "'w net" and K getenv socks interest missed g
proof (unfold_locales, goal_cases)
  case (1 st)
  then show ?case using server_start_inv
    by (auto simp: edge_start_def dispatch_start_def edge_inv_def dispatch_inv_def batches_live_def awaited_def)
next
  case (2 st st')
  then show ?case using edge_step_inv by blast
qed

subsection \<open>Property\<close>

text \<open>
  C9: no wake-up is lost. Whatever events are reported together, and however the reactors,
  the peers and the other threads interleave: when a connection has input that the kernel
  would not report any more, its event is in the batch that its reactor is working through,
  and the callback of that event will drain the connection, arm it again or close it. So a
  reactor that has worked its batch off has missed nothing on any of its connections.
\<close>

theorem no_wakeup_lost:
  assumes "fd_kernel K socks interest" and "fd_net N socks interest" and "edge_triggered N K missed"
    and "reach (edge_start N K getenv socks interest missed) (edge_step N K getenv g socks interest missed) (s, w, pend)"
  shows "(\<forall>fd. missed w fd \<longrightarrow> (\<exists>l a ev c. (a, ev) \<in> set (pend l) \<and> map_of (connections s) fd = Some c
         \<and> ch_addr (conn_channel c) = a \<and> ch_loop (conn_channel c) = l))
    \<and> (\<forall>l a ev rest s' w' fd c. pend l = (a, ev) # rest \<longrightarrow> sub_dispatch N K getenv a ev (s, w) = Some (s', w') \<longrightarrow>
         map_of (connections s) fd = Some c \<longrightarrow> ch_addr (conn_channel c) = a \<longrightarrow> \<not> missed w' fd)
    \<and> (\<forall>fd c. map_of (connections s) fd = Some c \<longrightarrow> pend (ch_loop (conn_channel c)) = [] \<longrightarrow> \<not> missed w fd)"
proof -
  have "edge_inv socks interest missed (s, w, pend)" using edges.reach_inv [OF assms(4)] assms(1-3) by blast
  then have inv: "server_inv socks interest (s, w)" "batches_live s pend" "awaited missed (s, w, pend)"
    and dis: "dispatch_inv socks interest (s, w, pend)" by (simp_all add: edge_inv_def dispatch_inv_def)
  have 1: "\<exists>l a ev c. (a, ev) \<in> set (pend l) \<and> map_of (connections s) fd = Some c \<and> ch_addr (conn_channel c) = a \<and> ch_loop (conn_channel c) = l"
    if m: "missed w fd" for fd
  proof -
    from awaitedD [OF inv(3) m] obtain l a where la: "lives_on s l a fd" "a \<in> fst ` set (pend l)" by blast
    from la(1) obtain c where "map_of (connections s) fd = Some c" "ch_addr (conn_channel c) = a" "ch_loop (conn_channel c) = l"
      by (auto simp: lives_on_def live_def conn_id_def)
    moreover from la(2) obtain ev where "(a, ev) \<in> set (pend l)" by force
    ultimately show ?thesis by blast
  qed
  have 2: "\<not> missed w' fd" if p: "pend l = (a, ev) # rest" "sub_dispatch N K getenv a ev (s, w) = Some (s', w')"
    and c: "map_of (connections s) fd = Some c" "ch_addr (conn_channel c) = a" for l a ev rest s' w' fd c
  proof -
    have "lives_on s (ch_loop (conn_channel c)) a fd" using c by (auto simp: lives_on_def live_def conn_id_def)
    with conn_at_live [OF inv(1)] p(2) have e: "connection_event N K getenv fd ev (s, w) = Some (s', w')"
      by (simp add: sub_dispatch_def)
    have "list_all (\<lambda>(a, ev). reports ev) (pend l)" using inv(3) by (simp add: awaited_def)
    with p(1) have "reports ev" by simp
    from event_leaves_nothing [OF assms(1,3) inv(1) e c(1) this] show ?thesis .
  qed
  have "\<not> missed w fd" if c: "map_of (connections s) fd = Some c" "pend (ch_loop (conn_channel c)) = []" for fd c
  proof
    assume "missed w fd"
    from 1 [OF this] c show False by auto
  qed
  with 1 2 show ?thesis by blast
qed

subsection \<open>A run\<close>

text \<open>
  The network of the concrete runs, with the descriptors on which something was missed. One
  client is accepted, and its socket is reported readable and writable at once.
\<close>

record edge_world = netw + ew_missed :: "int list"

abbreviation ew_misses :: "edge_world \<Rightarrow> int \<Rightarrow> bool" where
  "ew_misses w fd \<equiv> fd \<in> set (ew_missed w)"

definition edge_kernel :: "edge_world kernel" where
  "edge_kernel = toy_epoll\<lparr>k_epoll_ctl := (\<lambda>ep op fd ev w.
     case k_epoll_ctl toy_epoll ep op fd ev w of (r, w') \<Rightarrow>
       (r, if r = Ret () then w'\<lparr>ew_missed := removeAll fd (ew_missed w')\<rparr> else w'))\<rparr>"

definition edge_net :: "edge_world net" where
  "edge_net = toy_net\<lparr>n_close := (\<lambda>fd w. (nw_close fd w)\<lparr>ew_missed := removeAll fd (ew_missed w)\<rparr>)\<rparr>"

lemma edge_kernel_fds: "fd_kernel edge_kernel toy_socks nw_list"
proof -
  note K = toy_epoll_fds [where 'a = "\<lparr>ew_missed :: int list\<rparr>"]
  have "epoll_contract edge_kernel nw_list" using fd_kernelD(1) [OF K]
    by (fastforce simp: epoll_contract_def edge_kernel_def nw_list_def fun_eq_iff split: sysret.splits prod.splits)
  moreover have "no_ctl_failure edge_kernel nw_list toy_socks"
    unfolding no_ctl_failure_def edge_kernel_def toy_epoll_def by (auto split: if_splits)
  ultimately show ?thesis
    using K unfolding fd_kernel_def by (simp add: edge_kernel_def)
qed

lemma edge_net_fds: "fd_net edge_net toy_socks nw_list"
proof -
  note N = toy_net_fds [where 'a = "\<lparr>ew_missed :: int list\<rparr>"]
  have "closes (n_close edge_net) toy_socks nw_list"
    using fd_netD(9) [OF N] by (simp add: closes_def edge_net_def toy_net_def nw_list_def fun_eq_iff)
  with N show ?thesis unfolding fd_net_def by (simp add: edge_net_def)
qed

lemma edge_run_triggered: "edge_triggered edge_net edge_kernel ew_misses"
proof -
  have "kernel_moves edge_kernel l f a (remembers ew_misses)" for l f a
    unfolding kernel_moves_def
    by (auto simp: remembers_def edge_kernel_def toy_epoll_def nw_close_def open_static_def split: if_splits)
  then have "reactor_moves edge_net edge_kernel (remembers ew_misses)"
    by (auto simp: reactor_moves_def remembers_def edge_net_def toy_net_def nw_close_def nw_fresh_def split: if_splits)
  then show ?thesis
    by (auto simp: edge_triggered_def edge_kernel_def edge_net_def toy_epoll_def split: if_splits)
qed

definition ew_at :: "int list \<Rightarrow> int \<Rightarrow> nat \<Rightarrow> ((nat \<times> int) \<times> epoll_event) list \<Rightarrow> int list \<Rightarrow> edge_world" where
  "ew_at fds nxt waiting ints misd =
     \<lparr>nw_socks = fds, nw_next = nxt, nw_waiting = waiting, nw_interest = ints, nw_shut = [], nw_time = 100, ew_missed = misd\<rparr>"

definition ew_listening :: edge_world where
  "ew_listening = ew_at [3] 4 1 [((2, 3), \<lparr>ev_events = 0x2003, ev_ptr = 0\<rparr>)] []"

definition ew_server :: server where
  "ew_server = toy_server\<lparr>connections := [(4, toy_connection 1 0 4)], nextAddr := 2\<rparr>"

definition ew_joined :: "int list \<Rightarrow> edge_world" where
  "ew_joined = ew_at [4, 3] 5 0 [((0, 4), \<lparr>ev_events = 0x80002003, ev_ptr = 1\<rparr>), ((2, 3), \<lparr>ev_events = 0x2003, ev_ptr = 0\<rparr>)]"

lemmas ew_defs = ew_at_def ew_listening_def ew_server_def ew_joined_def edge_net_def edge_kernel_def toy_net_def toy_epoll_def
  toy_server_def toy_connection_def toy_channel_def nw_fresh_def nw_list_def

lemma ew_starts:
  "server_new edge_net edge_kernel (\<lambda>_. None) 2 (ew_at [] 3 1 [] []) = (Inr toy_server, ew_listening)"
  by (simp add: server_new_def acceptor_new_def socket_new_def socket_bind_def socket_listen_def errif_def failed_def
      socket_setnonblocking_def enableReading_def updateChannel_def setCallback_def channel_new_def ew_defs
      epoll_flags upt_rec numeral_2_eq_2 epoll_new_def pool_add_def pool_new_def)

lemma ew_accepts: "accept_event edge_net edge_kernel (toy_server, ew_listening) = Some (ew_server, ew_joined [])"
proof -
  let ?f = "acceptConnection edge_net (newConnection edge_net edge_kernel) 3"
  have "newConnection edge_net edge_kernel 4 (toy_server, ew_at [4, 3] 5 0 [((2, 3), \<lparr>ev_events = 0x2003, ev_ptr = 0\<rparr>)] [])
      = Some (ew_server, ew_joined [])"
    by (simp add: newConnection_def connection_new_def enableReadingET_def updateChannel_def setCallback_def
        setWriteCallback_def channel_new_def ew_defs epoll_flags)
  then have "?f (toy_server, ew_listening) = ?f (ew_server, ew_joined [])"
    by (subst acceptConnection.simps)
      (simp add: edge_net_def toy_net_def nw_fresh_def socket_setNoDelay_def socket_setnonblocking_def ew_listening_def ew_at_def)
  also have "\<dots> = Some (ew_server, ew_joined [])"
    by (subst acceptConnection.simps) (simp add: edge_net_def toy_net_def ew_joined_def ew_at_def)
  finally show ?thesis by (simp add: accept_event_def toy_server_def)
qed

lemma ew_handles:
  "\<exists>s' w'. sub_dispatch edge_net edge_kernel (\<lambda>_. None) 1 (EPOLLIN OR EPOLLOUT) (ew_server, ew_joined [4]) = Some (s', w')"
  by (simp add: sub_dispatch_def conn_at_def connection_event_def handleEvent_def setRevents_def handleWrite_def
      disableWriting_def updateChannel_def ew_defs epoll_flags Let_def)

theorem no_wakeup_lost_witness:
  "\<exists>pend s' w'. reach (edge_start edge_net edge_kernel (\<lambda>_. None) toy_socks nw_list ew_misses)
      (edge_step edge_net edge_kernel (\<lambda>_. None) (\<lambda>_. False) toy_socks nw_list ew_misses) (ew_server, ew_joined [4], pend)
    \<and> ew_misses (ew_joined [4]) 4 \<and> pend 0 = [(1, EPOLLIN OR EPOLLOUT)]
    \<and> sub_dispatch edge_net edge_kernel (\<lambda>_. None) 1 (EPOLLIN OR EPOLLOUT) (ew_server, ew_joined [4]) = Some (s', w')
    \<and> \<not> ew_misses w' 4"
proof -
  let ?reach = "reach (edge_start edge_net edge_kernel (\<lambda>_. None) toy_socks nw_list ew_misses)
      (edge_step edge_net edge_kernel (\<lambda>_. None) (\<lambda>_. False) toy_socks nw_list ew_misses)"
  let ?evs = "Ret [\<lparr>ev_events = EPOLLIN OR EPOLLOUT, ev_ptr = 1\<rparr>] :: epoll_event list sysret"
  have "?reach (toy_server, ew_listening, \<lambda>_. [])"
    by (rule reach_init)
      (use ew_starts in \<open>auto simp: edge_start_def dispatch_start_def server_start_def ew_listening_def ew_at_def nw_list_def fun_eq_iff
         intro!: exI [of _ 2] exI [of _ "ew_at [] 3 1 [] []"]\<close>)
  then have r: "?reach (ew_server, ew_joined [], \<lambda>_. [])" by (rule reach_step) (rule e_accept [OF ew_accepts])
  have "waits toy_socks nw_list 0 (ew_joined []) ?evs (ew_joined [4])"
    unfolding waits_def by (auto simp: ew_joined_def ew_at_def nw_list_def same_fds_def fun_eq_iff intro!: exI [of _ "[4]"])
  moreover have "fetches ew_misses nw_list 0 (ew_joined []) ?evs (ew_joined [4])"
    by (auto simp: fetches_def activeChannels_def reports_def ptr_def ew_joined_def ew_at_def nw_list_def epoll_flags)
  ultimately have "edge_step edge_net edge_kernel (\<lambda>_. None) (\<lambda>_. False) toy_socks nw_list ew_misses
      (ew_server, ew_joined [], \<lambda>_. []) (ew_server, ew_joined [4], (\<lambda>_. [])(0 := activeChannels ?evs))"
    by (intro e_wait) (simp_all add: ew_server_def toy_server_def)
  with r have r2: "?reach (ew_server, ew_joined [4], (\<lambda>_. [])(0 := activeChannels ?evs))" by (rule reach_step)
  obtain s' w' where d: "sub_dispatch edge_net edge_kernel (\<lambda>_. None) 1 (EPOLLIN OR EPOLLOUT) (ew_server, ew_joined [4]) = Some (s', w')"
    using ew_handles by blast
  have c: "map_of (connections ew_server) 4 = Some (toy_connection 1 0 4)" "ch_addr (conn_channel (toy_connection 1 0 4)) = 1"
    by (simp_all add: ew_server_def toy_connection_def toy_channel_def)
  have a: "((\<lambda>_. [])(0 := activeChannels ?evs)) 0 = (1, EPOLLIN OR EPOLLOUT) # []" by (simp add: activeChannels_def)
  from no_wakeup_lost [OF edge_kernel_fds edge_net_fds edge_run_triggered r2] a d c have "\<not> ew_misses w' 4" by blast
  with r2 a d show ?thesis
    by (intro exI [of _ "(\<lambda>_. [])(0 := activeChannels ?evs)"] exI [of _ s'] exI [of _ w']) (simp add: ew_joined_def ew_at_def)
qed

end
