(* ===== verification/Pipeline.thy ===== *)
theory Pipeline
  imports EndToEnd
begin

section \<open>Pipelined requests on the wire\<close>

text \<open>
  The request loop and the write path together: what a client that pipelines requests for
  pages reads back. While the socket takes what is written, the answers are on the wire in
  the order of the requests, each whole, up to the first request that closes; bytes that
  can never become a request are refused after them.
\<close>

subsection \<open>A socket that is never full\<close>

text \<open>
  No write is put off. At the end of a file \<^verbatim>\<open>sendfile\<close> has nothing to send, so only attempts
  inside the file count.
\<close>

definition roomy :: "'w kernel \<Rightarrow> (int \<Rightarrow> bytes) \<Rightarrow> bool" where
  "roomy K file \<longleftrightarrow>
     (\<forall>fd d w r w'. k_write K fd d w = (r, w') \<longrightarrow> d \<noteq> [] \<longrightarrow> \<not> full_socket r)
     \<and> (\<forall>fd f off cnt w r w'. k_sendfile K fd f off cnt w = (r, w') \<longrightarrow> 0 < cnt \<longrightarrow> off < length (file f)
          \<longrightarrow> \<not> full_socket r)"

lemma roomyD:
  assumes "roomy K file"
  shows "k_write K fd d w = (r, w') \<Longrightarrow> d \<noteq> [] \<Longrightarrow> \<not> full_socket r"
    and "k_sendfile K fd f off cnt w = (r, w') \<Longrightarrow> 0 < cnt \<Longrightarrow> off < length (file f) \<Longrightarrow> \<not> full_socket r"
  using assms unfolding roomy_def by blast+

definition taking :: "'w kernel \<Rightarrow> ('w \<Rightarrow> int \<Rightarrow> bytes) \<Rightarrow> (int \<Rightarrow> bytes) \<Rightarrow> ('w \<Rightarrow> nat) \<Rightarrow> bool" where
  "taking K sent file fuel \<longleftrightarrow> serving K sent file fuel \<and> peer_up K \<and> roomy K file"

lemma drain_buf_drains:
  assumes "taking K sent file fuel" and "drain_buf K c w = Some (d, c', w')"
  shows "d = Drained"
proof (rule ccontr)
  assume "d \<noteq> Drained"
  from bufloop.run_stop [OF assms(2) this] obtain w0 r where r: "k_write K (sock_fd c') (drop (writeIndex c') (writeBuf c')) w0 = (r, w')"
    "drop (writeIndex c') (writeBuf c') \<noteq> []" "hard_failure r \<or> full_socket r" by (auto split: if_splits)
  moreover have "\<not> hard_failure r" using assms(1) peer_up_write [OF _ r(1,2)] by (simp add: taking_def)
  moreover have "\<not> full_socket r" using assms(1) roomyD(1) [OF _ r(1,2)] by (auto simp: taking_def)
  ultimately show False by blast
qed

lemma drain_file_drains:
  assumes "taking K sent file fuel" and "drain_file K c w = Some (d, c', w')"
    and "fileFd c \<ge> 0 \<longrightarrow> fileOffset c + fileRemaining c \<le> length (file (fileFd c))"
  shows "d = Drained"
proof (rule ccontr)
  assume "d \<noteq> Drained"
  from fileloop.run_stop [OF assms(2) this] obtain w0 r where
    r: "k_sendfile K (sock_fd c') (fileFd c') (fileOffset c') (fileRemaining c') w0 = (r, w')"
    and more: "fileFd c' \<ge> 0" "0 < fileRemaining c'" and stop: "hard_failure r \<or> full_socket r"
    by (auto split: if_splits)
  have k: "stream_kernel K sent file" using assms(1) by (simp add: taking_def serving_def)
  have off: "fileOffset c' < length (file (fileFd c'))"
    using drain_file_delivers [OF k assms(3,2)] more by auto
  have "\<not> full_socket r" using assms(1) roomyD(2) [of K "file", OF _ r more(2) off] by (auto simp: taking_def)
  moreover have "\<not> hard_failure r" using assms(1) peer_up_sendfile [OF _ r more(2)] by (simp add: taking_def)
  ultimately show False using stop by blast
qed

text \<open>Then a call of the write path sends everything at once, and closes if it was to close.\<close>

definition sent_all :: "('w \<Rightarrow> int \<Rightarrow> bytes) \<Rightarrow> (int \<Rightarrow> bytes) \<Rightarrow> bool \<Rightarrow> bytes \<Rightarrow> connection \<Rightarrow> 'w \<Rightarrow> outcome \<Rightarrow> 'w \<Rightarrow> bool" where
  "sent_all sent file ka p c w out w' \<longleftrightarrow> delivers sent (sock_fd c) p w [] w'
     \<and> (if ka then \<exists>c'. out = Alive c' \<and> wf_out file c' \<and> pending file c' = [] \<and> same_input c c' else out = Destroyed)"

lemma writeFromBuffer_sends:
  assumes "taking K sent file fuel" and "wf_out file c" and "closeAfterWrite c = (\<not> ka)"
  shows "\<exists>out w'. writeFromBuffer K c w = Some (out, w') \<and> sent_all sent file ka (pending file c) c w out w'"
proof -
  have k: "serving K sent file fuel" "stream_kernel K sent file" "peer_up K"
    using assms(1) by (simp_all add: taking_def serving_def)
  from write_served [OF k(1) assms(2,3)] obtain out w' where o: "writeFromBuffer K c w = Some (out, w')" by blast
  then obtain d c1 w1 where b: "drain_buf K c w = Some (d, c1, w1)"
    by (auto simp: writeFromBuffer_def split: option.splits)
  have d: "d = Drained" by (rule drain_buf_drains [OF assms(1) b])
  obtain d2 c2 w2 where f: "drain_file K c1 w1 = Some (d2, c2, w2)"
    using o b d by (auto simp: writeFromBuffer_def split: option.splits)
  have "writeIndex c \<le> length (writeBuf c)" using assms(2) by (simp add: wf_out_def)
  from drain_buf_delivers [OF k(2) this b, of "[]"] assms(2)
  have wf: "fileFd c1 \<ge> 0 \<longrightarrow> fileOffset c1 + fileRemaining c1 \<le> length (file (fileFd c1))"
    by (auto simp: wf_out_def)
  have d2: "d2 = Drained" by (rule drain_file_drains [OF assms(1) f wf])
  have p: "pending file c' = []" if "out = Alive c'" for c'
    using o b d f d2 that by (auto simp: writeFromBuffer_def pending_def file_part_def split: prod.splits if_splits)
  from writeFromBuffer_after [OF k(2) assms(2) o] k(3) assms(3) o p show ?thesis
    by (auto simp: sent_all_def conn_after_def same_input_def conn_inv_def)
qed

lemma sendResponse_sends:
  assumes "taking K sent file fuel" and "wf_out file c" and "pending file c = []"
  shows "\<exists>out w'. sendResponse K c st ct body ka w = Some (out, w')
    \<and> sent_all sent file ka (buildHttpResponse st ct body ka) c w out w'"
proof -
  let ?c = "c\<lparr>writeBuf := buildHttpResponse st ct body ka, writeIndex := 0, closeAfterWrite := \<not> ka\<rparr>"
  have "wf_out file ?c" using assms(2) by (simp add: wf_out_def)
  from writeFromBuffer_sends [OF assms(1) this, of ka w] assms(3) show ?thesis
    by (auto simp: sendResponse_def pending_def file_part_def sent_all_def same_input_def split: if_splits)
qed

subsection \<open>The page of a request\<close>

text \<open>The routes the reactor answers itself, and the bytes of their answers.\<close>

definition inline_route :: "bytes \<Rightarrow> bool" where
  "inline_route r \<longleftrightarrow>
     (parseMethod r, parseUrl r) \<notin> {(''POST'', ''/register''), (''POST'', ''/login''), (''POST'', ''/logout''), (''GET'', ''/profile'')}"

lemma inline_route_handler: "inline_route r \<longleftrightarrow> dbHandler (parseMethod r) (parseUrl r) = None"
  by (auto simp: inline_route_def dbHandler_def)

definition page_bytes :: "(int \<Rightarrow> bytes) \<Rightarrow> static_cache \<Rightarrow> bytes \<Rightarrow> bool \<Rightarrow> bytes" where
  "page_bytes file sc url ka =
     (if url = ''/'' \<and> sc_fd sc \<ge> 0
      then fileHeader 200 ''text/html'' (length (file (sc_fd sc))) ka @ file (sc_fd sc)
      else buildHttpResponse (if url = ''/'' \<or> url = ''/hello'' then 200 else 404) ''text/html'' (getResponse url) ka)"

definition page_of :: "(int \<Rightarrow> bytes) \<Rightarrow> static_cache \<Rightarrow> bytes \<times> bytes \<Rightarrow> bytes" where
  "page_of file sc q = page_bytes file sc (parseUrl (snd q)) (wantKeepAlive (snd q) (fst q))"

text \<open>The static page is looked for once; from then on its descriptor stays.\<close>

definition cache_kept :: "static_cache \<Rightarrow> static_cache \<Rightarrow> bool" where
  "cache_kept sc sc' \<longleftrightarrow> (sc_once sc \<longrightarrow> sc' = sc)"

lemma getStaticFd_kept:
  assumes "getStaticFd K path sc w = (got, sc', w')" and "ctl_silent K sent"
  shows "cache_kept sc sc'" and "sc_once sc'" and "sent w' = sent w"
    and "got = (if sc_fd sc' \<ge> 0 then Some (sc_fd sc', sc_size sc') else None)"
proof -
  have op: "sc_once sc1 \<and> sent w1 = sent w" if "open_static K path sc w = (sc1, w1)" for sc1 w1
    using that assms(2) unfolding open_static_def ctl_silent_def
    by (auto split: prod.splits option.splits if_splits)
  show "cache_kept sc sc'" "sc_once sc'" "sent w' = sent w"
    "got = (if sc_fd sc' \<ge> 0 then Some (sc_fd sc', sc_size sc') else None)"
    using assms(1) op by (auto simp: getStaticFd_def cache_kept_def split: if_splits prod.splits)
qed

lemma serveInline_sends:
  assumes "taking K sent file fuel" and "wf_out file c" and "pending file c = []" and "cache_ok file (staticCache sh)"
  shows "\<exists>out sc w'. serveInline K getenv c url ka sh w = Some (out, sh\<lparr>staticCache := sc\<rparr>, w')
    \<and> cache_ok file sc \<and> cache_kept (staticCache sh) sc \<and> (url = ''/'' \<longrightarrow> sc_once sc)
    \<and> sent_all sent file ka (page_bytes file sc url ka) c w out w'"
proof (cases "url = ''/''")
  case False
  with sendResponse_sends [OF assms(1-3), of "if url = ''/hello'' then 200 else 404" "''text/html''" "getResponse url" ka w]
    assms(4) show ?thesis
    by (auto simp: serveInline_def servePage_def page_bytes_def cache_kept_def intro!: exI [of _ "staticCache sh"])
next
  case True
  have k: "fstat_contract K file" "ctl_silent K sent"
    using assms(1) by (simp_all add: taking_def serving_def stream_kernel_def)
  obtain got sc w1 where g: "getStaticFd K (staticDir getenv @ ''/index.html'') (staticCache sh) w = (got, sc, w1)"
    by (metis prod.exhaust)
  note kept = getStaticFd_kept [OF g k(2)] and ok = getStaticFd_ok [OF k(1) assms(4) g]
  have w1: "sent_all sent file ka p c w out w' = sent_all sent file ka p c w1 out w'" for p out w'
    by (simp add: sent_all_def delivers_def kept(3))
  show ?thesis
  proof (cases "sc_fd sc \<ge> 0")
    case False
    with sendResponse_sends [OF assms(1-3), of 200 "''text/html''" "getResponse url" ka w1] True g kept ok show ?thesis
      by (auto simp: serveInline_def sendFile_def servePage_def page_bytes_def w1 intro!: exI [of _ sc])
  next
    case fd: True
    let ?f = "file (sc_fd sc)"
    have sz: "sc_size sc = length ?f" using ok kept(4) fd by simp
    let ?c = "c\<lparr>writeBuf := fileHeader 200 ''text/html'' (length ?f) ka, writeIndex := 0, closeAfterWrite := \<not> ka,
        fileFd := sc_fd sc, fileOffset := 0, fileRemaining := length ?f\<rparr>"
    have "wf_out file ?c" by (simp add: wf_out_def)
    from writeFromBuffer_sends [OF assms(1) this, of ka w1] obtain out w' where
      o: "writeFromBuffer K ?c w1 = Some (out, w')" and p: "sent_all sent file ka (pending file ?c) ?c w1 out w'" by auto
    have "pending file ?c = page_bytes file sc url ka"
      using fd True by (simp add: page_bytes_def pending_def file_part_def)
    with p have all: "sent_all sent file ka (page_bytes file sc url ka) c w1 out w'"
      by (auto simp: sent_all_def same_input_def)
    have "serveInline K getenv c url ka sh w = Some (out, sh\<lparr>staticCache := sc\<rparr>, w')"
      using g o fd True by (simp add: serveInline_def sendFile_def kept(4) sz)
    with all kept(1,2) ok show ?thesis unfolding w1 by blast
  qed
qed

lemma serveRequest_sends:
  fixes K :: "'w kernel"
  assumes "taking K sent file fuel" and "wf_out file c" and "pending file c = []" and "cache_ok file (staticCache sh)"
    and "inline_route r"
  shows "\<exists>out sc w'. serveRequest K getenv h r c sh w = Some (out, sh\<lparr>staticCache := sc\<rparr>, w')
    \<and> cache_ok file sc \<and> cache_kept (staticCache sh) sc \<and> (parseUrl r = ''/'' \<longrightarrow> sc_once sc)
    \<and> sent_all sent file (wantKeepAlive r h) (page_of file sc (h, r)) c w out w'"
proof -
  have "admit K (rateLimiter sh) w = (True, rateLimiter sh, w)" by (simp add: admit_def kRateLimitQps_def)
  moreover have "dbHandler (parseMethod r) (parseUrl r) = (None :: 'w db_handler_fn option)"
    using assms(5) by (rule inline_route_handler [THEN iffD1])
  ultimately show ?thesis
    using serveInline_sends [OF assms(1-4), of getenv "parseUrl r" "wantKeepAlive r h" w]
    by (simp add: serveRequest_def Let_def page_of_def)
qed

subsection \<open>The requests that are answered\<close>

text \<open>Those up to the first one that closes; what is left over is refused when it can never become a request.\<close>

fun answered :: "(bytes \<times> bytes) list \<Rightarrow> (bytes \<times> bytes) list" where
  "answered [] = []"
| "answered (q # qs) = q # (if wantKeepAlive (snd q) (fst q) then answered qs else [])"

definition kept_alive :: "(bytes \<times> bytes) list \<Rightarrow> bool" where
  "kept_alive qs \<longleftrightarrow> list_all (\<lambda>(h, r). wantKeepAlive r h) qs"

definition refusal :: "bytes \<Rightarrow> bytes" where
  "refusal rest =
     (case next_frame rest of
        HeaderTooLarge \<Rightarrow> buildHttpResponse 400 ''application/json'' (json_error ''request header too large'') False
      | BodyTooLarge \<Rightarrow> buildHttpResponse 413 ''application/json'' (json_error ''request body too large'') False
      | _ \<Rightarrow> [])"

lemma refusal_none: "refusal rest = [] \<longleftrightarrow> next_frame rest \<notin> {HeaderTooLarge, BodyTooLarge}"
  by (auto simp: refusal_def buildHttpResponse_def split: frame.split)

lemma end_of_input_sends:
  assumes "taking K sent file fuel" and "wf_out file c" and "pending file c = []"
  shows "\<exists>out w'. end_of_input K c sh w = Some (out, sh, w')
    \<and> sent_all sent file (refusal (inputBuffer c) = []) (refusal (inputBuffer c)) c w out w'"
proof -
  have i: "wf_out file (c\<lparr>inputBuffer := []\<rparr>)" "pending file (c\<lparr>inputBuffer := []\<rparr>) = []"
    using assms(2,3) by (auto simp: wf_out_def pending_def file_part_def split: if_splits)
  note r = sendResponse_sends [OF assms(1) i, where ka = False]
  have ne: "buildHttpResponse st ct b ka \<noteq> []" for st ct b ka by (simp add: buildHttpResponse_def)
  show ?thesis
  proof (cases "next_frame (inputBuffer c)")
    case HeaderTooLarge
    with r [of 400 "''application/json''" "json_error ''request header too large''" w] show ?thesis
      by (auto simp: end_of_input_def refusal_def ne sent_all_def)
  next
    case BodyTooLarge
    with r [of 413 "''application/json''" "json_error ''request body too large''" w] show ?thesis
      by (auto simp: end_of_input_def refusal_def ne sent_all_def)
  qed (use assms in \<open>simp_all add: end_of_input_def refusal_def sent_all_def same_input_refl\<close>)
qed

text \<open>A page that was sent keeps its bytes when the static page is looked up later.\<close>

lemma page_of_kept:
  "cache_kept sc sc' \<Longrightarrow> (parseUrl (snd q) = ''/'' \<longrightarrow> sc_once sc) \<Longrightarrow> page_of file sc' q = page_of file sc q"
  by (auto simp: page_of_def page_bytes_def cache_kept_def)

lemma cache_kept_trans: "cache_kept a b \<Longrightarrow> cache_kept b c \<Longrightarrow> cache_kept a c"
  by (auto simp: cache_kept_def)

definition wire :: "(int \<Rightarrow> bytes) \<Rightarrow> static_cache \<Rightarrow> (bytes \<times> bytes) list \<Rightarrow> bytes \<Rightarrow> bytes" where
  "wire file sc qs rest =
     concat (map (page_of file sc) (answered qs)) @ (if kept_alive qs then refusal rest else [])"

lemma serve_in_order_sends:
  assumes "taking K sent file fuel"
  shows "\<lbrakk>wf_out file c; pending file c = []; cache_ok file (staticCache sh); list_all (\<lambda>q. inline_route (snd q)) qs;
      inputBuffer c = concat (map snd qs) @ rest\<rbrakk> \<Longrightarrow>
    \<exists>out sc w'. serve_in_order K getenv qs c sh w = Some (out, sh\<lparr>staticCache := sc\<rparr>, w')
      \<and> cache_kept (staticCache sh) sc \<and> delivers sent (sock_fd c) (wire file sc qs rest) w [] w'
      \<and> (if kept_alive qs \<and> refusal rest = []
         then \<exists>c'. out = Alive c' \<and> pending file c' = [] \<and> inputBuffer c' = rest \<and> sock_fd c' = sock_fd c
         else out = Destroyed)"
proof (induction qs arbitrary: c sh w)
  case Nil
  from end_of_input_sends [OF assms Nil(1,2), of sh w] obtain out w' where
    e: "end_of_input K c sh w = Some (out, sh, w')"
    "sent_all sent file (refusal (inputBuffer c) = []) (refusal (inputBuffer c)) c w out w'" by blast
  with Nil(5) show ?case
    by (intro exI [of _ out] exI [of _ "staticCache sh"] exI [of _ w'])
      (auto simp: sent_all_def wire_def kept_alive_def cache_kept_def same_input_def)
next
  case (Cons q qs)
  obtain h r where q: "q = (h, r)" by (cases q)
  let ?c = "c\<lparr>inputBuffer := drop (length r) (inputBuffer c)\<rparr>"
  have c: "wf_out file ?c" "pending file ?c = []" "inline_route r"
    using Cons.prems(1,2,4) q by (auto simp: wf_out_def pending_def file_part_def)
  have buf: "inputBuffer ?c = concat (map snd qs) @ rest" using Cons.prems(5) q by simp
  obtain out sc w1 where s: "serveRequest K getenv h r ?c sh w = Some (out, sh\<lparr>staticCache := sc\<rparr>, w1)"
    "cache_ok file sc" "cache_kept (staticCache sh) sc" "parseUrl r = ''/'' \<longrightarrow> sc_once sc"
    "sent_all sent file (wantKeepAlive r h) (page_of file sc (h, r)) ?c w out w1"
    using serveRequest_sends [OF assms c(1,2) Cons.prems(3) c(3)] by blast
  show ?case
  proof (cases "wantKeepAlive r h")
    case False
    with s q show ?thesis
      by (auto simp: sent_all_def wire_def kept_alive_def intro!: exI [of _ sc])
  next
    case True
    with s(5) obtain c1 where c1: "out = Alive c1" "wf_out file c1" "pending file c1 = []"
      "inputBuffer c1 = concat (map snd qs) @ rest" "sock_fd c1 = sock_fd c"
      and p: "delivers sent (sock_fd c) (page_of file sc (h, r)) w [] w1"
      using buf by (auto simp: sent_all_def same_input_def)
    have qs: "list_all (\<lambda>q. inline_route (snd q)) qs" using Cons.prems(4) by simp
    obtain out2 sc2 w2 where IH: "serve_in_order K getenv qs c1 (sh\<lparr>staticCache := sc\<rparr>) w1 =
        Some (out2, sh\<lparr>staticCache := sc2\<rparr>, w2)"
      "cache_kept sc sc2" "delivers sent (sock_fd c) (wire file sc2 qs rest) w1 [] w2"
      "if kept_alive qs \<and> refusal rest = []
         then \<exists>c'. out2 = Alive c' \<and> pending file c' = [] \<and> inputBuffer c' = rest \<and> sock_fd c' = sock_fd c
         else out2 = Destroyed"
      using Cons.IH [OF c1(2,3) _ qs c1(4), of "sh\<lparr>staticCache := sc\<rparr>" w1] s(2) unfolding c1(5) by auto
    have "page_of file sc2 q = page_of file sc (h, r)" using page_of_kept [OF IH(2)] s(4) q by simp
    then have "delivers sent (sock_fd c) (wire file sc2 (q # qs) rest) w [] w2"
      using p IH(3) True q by (simp add: delivers_def wire_def kept_alive_def)
    moreover have "serve_in_order K getenv (q # qs) c sh w = Some (out2, sh\<lparr>staticCache := sc2\<rparr>, w2)"
      using s(1) IH(1) True c1(1) q by simp
    moreover have "kept_alive (q # qs) = kept_alive qs" using True q by (simp add: kept_alive_def)
    ultimately show ?thesis using IH(4) cache_kept_trans [OF s(3) IH(2)] by auto
  qed
qed

subsection \<open>Properties\<close>

text \<open>
  C4: pipelined pages are answered on the wire. A client that pipelines any number of requests
  for pages on a connection with nothing left to send finds on the socket, after what was
  sent before, the pages of these requests, whole and in order, up to the first request
  that closes: the static file for the root if there is one, the hello page, 404 for every
  other path. Bytes left over that can never become a request are refused with 400 or 413
  behind them. Nothing goes to other sockets; the connection then stays with nothing to
  send and the incomplete rest in its buffer, or is closed.
\<close>

theorem pipelined_pages_delivered:
  assumes "serving K sent file fuel" and "peer_up K" and "roomy K file"
    and "wf_out file c" and "pending file c = []" and "cache_ok file (staticCache sh)"
    and "length (inputBuffer c) < 2 ^ 63" and "list_all (\<lambda>q. inline_route (snd q)) (requests_of (inputBuffer c))"
  shows "\<exists>out sc w'. processRequests K getenv c sh w = Some (out, sh\<lparr>staticCache := sc\<rparr>, w')
    \<and> cache_kept (staticCache sh) sc
    \<and> sent w' (sock_fd c) = sent w (sock_fd c)
        @ concat (map (page_of file sc) (answered (requests_of (inputBuffer c))))
        @ (if kept_alive (requests_of (inputBuffer c)) then refusal (leftover (inputBuffer c)) else [])
    \<and> (\<forall>g. g \<noteq> sock_fd c \<longrightarrow> sent w' g = sent w g)
    \<and> (if kept_alive (requests_of (inputBuffer c)) \<and> refusal (leftover (inputBuffer c)) = []
       then \<exists>c'. out = Alive c' \<and> pending file c' = [] \<and> inputBuffer c' = leftover (inputBuffer c)
              \<and> sock_fd c' = sock_fd c
       else out = Destroyed)"
proof -
  have "taking K sent file fuel" using assms(1-3) by (simp add: taking_def)
  from serve_in_order_sends [OF this assms(4-6,8) requests_of_partition [symmetric], of getenv w]
  show ?thesis unfolding processRequests_serves [OF assms(7)] delivers_def wire_def append_Nil2
    by (elim exE conjE) (intro exI conjI, assumption+)
qed

text \<open>A run: the root page, a page that does not exist, and a request that closes, in one buffer.\<close>

definition page_file :: "int \<Rightarrow> bytes" where
  "page_file f = (if f = 9 then ''<html>'' else [])"

definition page_kernel :: "chat kernel" where
  "page_kernel = chat_kernel\<lparr>k_open := (\<lambda>p w. (9, w)),
     k_fstat := (\<lambda>fd w. (Some \<lparr>st_isreg = True, st_size = length (page_file fd)\<rparr>, w)),
     k_sendfile := (\<lambda>fd f off cnt w.
       if length (page_file f) \<le> off then (Err EAGAIN, w)
       else k_write chat_kernel fd (take cnt (drop off (page_file f))) w)\<rparr>"

lemma page_serving: "serving page_kernel chat_sent page_file (\<lambda>w. 0)"
proof -
  have "finite_eintr page_kernel (\<lambda>w. 0)"
    by (auto simp: finite_eintr_def page_kernel_def chat_kernel_def split: list.splits if_splits)
  moreover have "take (min (length f - off) cnt) (drop off f) = take cnt (drop off f)" for f :: bytes and off cnt
    by (simp add: min_def)
  then have "stream_kernel page_kernel chat_sent page_file"
    by (auto simp: stream_kernel_def write_accepts_def sendfile_accepts_def ctl_silent_def page_kernel_def
        chat_kernel_def split: list.splits if_splits)
  ultimately show ?thesis by (auto simp: serving_def fstat_contract_def page_kernel_def)
qed

lemma page_taking: "peer_up page_kernel" "roomy page_kernel page_file"
  by (auto simp: peer_up_def hard_failure_def roomy_def full_socket_def page_kernel_def chat_kernel_def
      split: if_splits)

definition page_messages :: "(bytes list \<times> bytes) list" where
  "page_messages = [([''GET / HTTP/1.1'', ''Host: h''], []), ([''GET /nothing HTTP/1.1'', ''Host: h''], []),
     ([''GET /hello HTTP/1.1'', ''Connection: close''], [])]"

definition page_stream :: bytes where
  "page_stream = concat (map (\<lambda>(ls, body). http_message ls body) page_messages)"

definition page_requests :: "(bytes \<times> bytes) list" where
  "page_requests = map (\<lambda>(ls, body). (join_crlf ls, http_message ls body)) page_messages"

lemma page_lines:
  assumes "(ls, body) \<in> set page_messages"
  shows "list_all good_line ls" and "requestContentLength (join_crlf ls) = 0"
    and "ls \<noteq> []" and "body = []" and "length (join_crlf ls) < 2 ^ 63"
    and "findHeader (join_crlf ls) ''connection'' = header_lookup ls ''connection''"
proof -
  show g: "list_all good_line ls" using assms by (auto simp: page_messages_def good_line_def)
  then show "findHeader (join_crlf ls) ''connection'' = header_lookup ls ''connection''"
    by (simp add: findHeader_lookup lines_of_join)
  show "requestContentLength (join_crlf ls) = 0"
    using assms by (intro requestContentLength_absent [OF g]) (auto simp: page_messages_def str_simps)
qed (use assms in \<open>auto simp: page_messages_def crlf_def\<close>)

lemma page_messages_sized: "list_all sized_message page_messages"
  unfolding list_all_iff
proof
  fix m assume "m \<in> set page_messages"
  moreover obtain ls body where m: "m = (ls, body)" by (cases m)
  ultimately have "(ls, body) \<in> set page_messages" by simp
  from page_lines [OF this] m show "sized_message m" by (simp add: sized_message_def)
qed

lemma page_stream_requests: "requests_of page_stream = page_requests"
  using requests_of_messages [OF page_messages_sized, of "[]"] requests_of_Nil
  by (simp add: page_stream_def page_requests_def)

lemma page_requests_parsed:
  "map (\<lambda>q. (parseMethod (snd q), parseUrl (snd q), wantKeepAlive (snd q) (fst q))) page_requests =
   [(''GET'', ''/'', True), (''GET'', ''/nothing'', True), (''GET'', ''/hello'', False)]"
proof -
  have c: "findHeader (join_crlf [''GET / HTTP/1.1'', ''Host: h'']) ''connection'' = []"
    "findHeader (join_crlf [''GET /nothing HTTP/1.1'', ''Host: h'']) ''connection'' = []"
    "findHeader (join_crlf [''GET /hello HTTP/1.1'', ''Connection: close'']) ''connection'' = '' close''"
    using page_lines(6) [of _ "[]"] by (simp_all add: page_messages_def str_simps del: join_crlf.simps)
  have k: "wantKeepAlive r h \<longleftrightarrow> findHeader h ''connection'' = []"
    if "findHeader h ''connection'' \<in> {[], '' close''}" "str_find ''HTTP/1.1'' r \<noteq> None" for r h
    using that by (auto simp: wantKeepAlive_def Let_def str_simps)
  have v: "str_find ''HTTP/1.1'' (http_message ls []) \<noteq> None" if "(ls, []) \<in> set page_messages" for ls
    using that by (auto simp: page_messages_def http_message_def crlf_def)
  have "map (\<lambda>q. wantKeepAlive (snd q) (fst q)) page_requests = [True, True, False]"
    using v by (simp add: page_requests_def page_messages_def k c del: join_crlf.simps)
  moreover have "map (\<lambda>q. (parseMethod (snd q), parseUrl (snd q))) page_requests =
      [(''GET'', ''/''), (''GET'', ''/nothing''), (''GET'', ''/hello'')]"
    by (simp add: page_requests_def page_messages_def parseMethod_def parseUrl_def http_message_def
        crlf_def crlf2_def str_find_from_def substr_def)
  ultimately show ?thesis by (simp add: page_requests_def page_messages_def)
qed

lemma page_answers:
  "list_all (\<lambda>q. inline_route (snd q)) page_requests" "answered page_requests = page_requests"
  "\<not> kept_alive page_requests"
  "sc_fd sc = 9 \<Longrightarrow> map (page_of page_file sc) page_requests =
     [fileHeader 200 ''text/html'' 6 True @ ''<html>'',
      buildHttpResponse 404 ''text/html'' (getResponse ''/nothing'') True,
      buildHttpResponse 200 ''text/html'' (getResponse ''/hello'') False]"
proof -
  obtain q1 q2 q3 where q: "page_requests = [q1, q2, q3]" by (simp add: page_requests_def page_messages_def)
  note p = page_requests_parsed [unfolded q, simplified]
  show "list_all (\<lambda>q. inline_route (snd q)) page_requests" "answered page_requests = page_requests"
    "\<not> kept_alive page_requests"
    using p by (simp_all add: q inline_route_def kept_alive_def split_beta)
  show "map (page_of page_file sc) page_requests =
     [fileHeader 200 ''text/html'' 6 True @ ''<html>'',
      buildHttpResponse 404 ''text/html'' (getResponse ''/nothing'') True,
      buildHttpResponse 200 ''text/html'' (getResponse ''/hello'') False]" if "sc_fd sc = 9"
    using p that by (simp add: q page_of_def page_bytes_def page_file_def eval_nat_numeral)
qed

theorem pipelined_pages_delivered_witness:
  "\<exists>sh w'. processRequests page_kernel (\<lambda>_. None) (chat_conn\<lparr>inputBuffer := page_stream\<rparr>)
       (chat_shared\<lparr>staticCache := \<lparr>sc_once = True, sc_fd = 9, sc_size = 6\<rparr>\<rparr>) (chat_world []) = Some (Destroyed, sh, w')
    \<and> chat_sent w' 5 = fileHeader 200 ''text/html'' 6 True @ ''<html>''
        @ buildHttpResponse 404 ''text/html'' (getResponse ''/nothing'') True
        @ buildHttpResponse 200 ''text/html'' (getResponse ''/hello'') False"
proof -
  let ?c = "chat_conn\<lparr>inputBuffer := page_stream\<rparr>"
  let ?sh = "chat_shared\<lparr>staticCache := \<lparr>sc_once = True, sc_fd = 9, sc_size = 6\<rparr>\<rparr>"
  have c: "wf_out page_file ?c" "pending page_file ?c = []" "cache_ok page_file (staticCache ?sh)"
    using chat_conn_fields(3,4) [of page_file]
    by (simp_all add: wf_out_def pending_def file_part_def cache_ok_def page_file_def)
  have "length page_stream < 2 ^ 63"
    by (simp add: page_stream_def page_messages_def http_message_def crlf_def crlf2_def)
  then have "length (inputBuffer ?c) < 2 ^ 63" "list_all (\<lambda>q. inline_route (snd q)) (requests_of (inputBuffer ?c))"
    using page_answers(1) by (simp_all add: page_stream_requests)
  from pipelined_pages_delivered [OF page_serving page_taking c this, of "\<lambda>_. None" "chat_world []"]
  obtain out sc w' where r: "processRequests page_kernel (\<lambda>_. None) ?c ?sh (chat_world []) =
      Some (out, ?sh\<lparr>staticCache := sc\<rparr>, w')" "out = Destroyed" "cache_kept (staticCache ?sh) sc"
      "chat_sent w' 5 = concat (map (page_of page_file sc) page_requests)"
    by (auto simp: page_stream_requests page_answers(2,3) chat_world_def)
  from r(3) have "sc_fd sc = 9" by (simp add: cache_kept_def)
  from page_answers(4) [OF this] r show ?thesis by auto
qed

end
