(* ===== verification/Segmentation.thy ===== *)
theory Segmentation
  imports ConnLoop
begin

section \<open>Requests that arrive in pieces\<close>

text \<open>
  TCP delivers a byte stream: \<open>handleMessage\<close> appends what has arrived to \<open>inputBuffer_\<close> and
  calls \<open>processRequests\<close>, which serves the requests that are complete and keeps the rest for
  the next event. Here this repeated call is compared with one call on the whole stream. The
  answers only agree for messages within the limits: \<open>processRequests\<close> answers 400, clears the
  buffer and closes as soon as it holds more than \<open>kMaxHeaderBytes\<close> bytes without an empty
  line, so a longer header block is refused when it arrives in pieces and served when it
  arrives at once.
\<close>

subsection \<open>Sending does not depend on the input buffer\<close>

context retry_loop
begin

text \<open>A change of the state that the loop does not look at stays what it was.\<close>

lemma run_map:
  assumes unsent: "\<And>c. unsent (g c) = unsent c" and attempt: "\<And>c. attempt (g c) = attempt c"
    and adv: "\<And>c n. advance (g c) n = g (advance c n)"
  shows "run (g c) w = map_option (\<lambda>(d, c', w'). (d, g c', w')) (run c w)"
proof -
  let ?m = "\<lambda>(d, c', w'). (d, g c', w')"
  have fwd: "run (g c) w = Some (?m r)" if "run c w = Some r" for c w r
  proof (rule run_induct [OF _ that, where P = "\<lambda>c w r. run (g c) w = Some (?m r)"])
    fix f c w r
    assume IH: "\<And>c w r. f c w = Some r \<Longrightarrow> run (g c) w = Some (?m r)"
      and eq: "retry_body unsent attempt advance f c w = Some r"
    show "run (g c) w = Some (?m r)"
      using eq by (subst run_eq) (auto simp: retry_body_def unsent attempt adv IH
          split: if_splits prod.splits sysret.splits)
  qed
  have bwd: "run c w \<noteq> None" if "run (g c) w = Some r" for c w r
  proof -
    have "\<forall>c'. g c = g c' \<longrightarrow> run c' w \<noteq> None"
    proof (rule run_induct [OF _ that, where P = "\<lambda>x w r. \<forall>c'. x = g c' \<longrightarrow> run c' w \<noteq> None"], intro allI impI)
      fix f x w r c'
      assume IH: "\<And>x w r. f x w = Some r \<Longrightarrow> \<forall>c'. x = g c' \<longrightarrow> run c' w \<noteq> None"
        and eq: "retry_body unsent attempt advance f x w = Some r" and x: "x = g c'"
      have "f (g c'') v = Some r \<Longrightarrow> run c'' v \<noteq> None" for c'' v using IH by blast
      with eq show "run c' w \<noteq> None"
        by (subst run_eq) (auto simp: x retry_body_def unsent attempt adv split: if_splits prod.splits sysret.splits)
    qed
    then show ?thesis by blast
  qed
  show ?thesis
  proof (cases "run c w")
    case None
    with bwd [of c w] show ?thesis by (cases "run (g c) w") auto
  qed (simp add: fwd)
qed

end

definition with_input :: "bytes \<Rightarrow> outcome \<Rightarrow> outcome" where
  "with_input b out =
     (case out of
        Alive c \<Rightarrow> Alive (c\<lparr>inputBuffer := b\<rparr>)
      | Threw c \<Rightarrow> Threw (c\<lparr>inputBuffer := b\<rparr>)
      | _ \<Rightarrow> out)"

lemma drain_buf_with_input:
  "drain_buf K (c\<lparr>inputBuffer := b\<rparr>) w = map_option (\<lambda>(d, c', w'). (d, c'\<lparr>inputBuffer := b\<rparr>, w')) (drain_buf K c w)"
  by (rule bufloop.run_map [where g = "\<lambda>c. c\<lparr>inputBuffer := b\<rparr>"]) simp_all

lemma drain_file_with_input:
  "drain_file K (c\<lparr>inputBuffer := b\<rparr>) w = map_option (\<lambda>(d, c', w'). (d, c'\<lparr>inputBuffer := b\<rparr>, w')) (drain_file K c w)"
  by (rule fileloop.run_map [where g = "\<lambda>c. c\<lparr>inputBuffer := b\<rparr>"]) simp_all

lemma writeFromBuffer_with_input:
  "writeFromBuffer K (c\<lparr>inputBuffer := b\<rparr>) w =
   map_option (\<lambda>(out, w'). (with_input b out, w')) (writeFromBuffer K c w)"
  by (auto simp: writeFromBuffer_def drain_buf_with_input drain_file_with_input conn_enableWriting_def with_input_def
      split: option.splits drain.splits prod.splits)

lemma sendResponse_with_input:
  "sendResponse K (c\<lparr>inputBuffer := b\<rparr>) st ct body ka w =
   map_option (\<lambda>(out, w'). (with_input b out, w')) (sendResponse K c st ct body ka w)"
proof -
  let ?send = "\<lambda>c. c\<lparr>writeBuf := buildHttpResponse st ct body ka, writeIndex := 0, closeAfterWrite := \<not> ka\<rparr>"
  have "?send (c\<lparr>inputBuffer := b\<rparr>) = (?send c)\<lparr>inputBuffer := b\<rparr>" by simp
  then show ?thesis unfolding sendResponse_def by (simp only: writeFromBuffer_with_input)
qed

lemma sendFile_with_input:
  "sendFile K (c\<lparr>inputBuffer := b\<rparr>) st ct path ka sc w =
   map_option (\<lambda>(res, sc', w'). (map_option (with_input b) res, sc', w')) (sendFile K c st ct path ka sc w)"
proof -
  let ?send = "\<lambda>c fd sz. c\<lparr>writeBuf := fileHeader st ct sz ka, writeIndex := 0, closeAfterWrite := \<not> ka,
      fileFd := fd, fileOffset := 0, fileRemaining := sz\<rparr>"
  have "?send (c\<lparr>inputBuffer := b\<rparr>) fd sz = (?send c fd sz)\<lparr>inputBuffer := b\<rparr>" for fd sz by simp
  then show ?thesis unfolding sendFile_def
    by (auto simp only: writeFromBuffer_with_input split: prod.split option.split) auto
qed

lemma serveRequest_with_input:
  "serveRequest K getenv h r (c\<lparr>inputBuffer := b\<rparr>) sh w =
   map_option (\<lambda>(out, sh', w'). (with_input b out, sh', w')) (serveRequest K getenv h r c sh w)"
  by (auto simp: serveRequest_def serveInline_def servePage_def Let_def sendResponse_with_input sendFile_with_input
      with_input_def [of _ "Alive _"] with_input_def [of _ "Threw _"] option.map_comp comp_def case_prod_beta
      split: option.splits prod.splits sum.splits)

text \<open>While the DB pool runs, serving a request throws nothing and leaves the pool running.\<close>

context db_handler
begin

lemma handler_running:
  assumes "handle K request fd ka pool w = Some (res, w')" and "\<not> stop pool"
  shows "\<exists>pool'. res = Inr pool' \<and> \<not> stop pool'"
proof (cases "refuse request")
  case None
  with assms show ?thesis by (auto simp: handle_submit pool_add_def)
next
  case (Some rf)
  with assms handle_refuse [of request "fst rf" "snd rf" K fd ka pool w]
  have "map_option (\<lambda>w'. (Inr pool, w')) (sendJson K fd (fst rf) (snd rf) ka w) = Some (res, w')" by simp
  with assms(2) show ?thesis by auto
qed

end

lemma serveRequest_running:
  assumes "\<not> stop (dbPool sh)" and "serveRequest K getenv h r c sh w = Some (out, sh', w')"
  shows "\<not> stop (dbPool sh') \<and> (\<forall>c'. out \<noteq> Threw c')"
proof -
  have hnd: "\<exists>p'. res = Inr p' \<and> \<not> stop p'"
    if "dbHandler m u = Some H" "H K r fd ka p v = Some (res, v')" "\<not> stop p" for m u H fd ka p v res v'
    using that registerh.handler_running loginh.handler_running profileh.handler_running logouth.handler_running
    unfolding dbHandler_def by (metis option.distinct(1) option.inject)
  have wr: "writeFromBuffer K x v \<noteq> Some (Threw c', v')" for c' x v v'
    by (auto simp: writeFromBuffer_def conn_enableWriting_def split: option.splits drain.splits prod.splits if_splits)
  then have rs: "sendResponse K x st ct b ka v = Some (Threw c', v') \<Longrightarrow> False"
    and fl: "sendFile K x st ct q ka sc v = Some (Some (Threw c'), sc', v') \<Longrightarrow> False" for x st ct b ka v c' v' q sc sc'
    by (simp_all add: sendResponse_def sendFile_def split: option.splits prod.splits)
  from assms show ?thesis
    by (auto simp: serveRequest_def serveInline_def servePage_def Let_def split: option.splits prod.splits sum.splits if_splits
        dest: rs fl dest!: hnd)
qed

subsection \<open>Feeding a stream in pieces\<close>

text \<open>
  What a sequence of read events does: each chunk is appended to the input buffer and the
  requests are processed; it ends with the first event that does not leave the connection
  alive.
\<close>

fun feed ::
    "'w kernel \<Rightarrow> environ \<Rightarrow> bytes list \<Rightarrow> connection \<Rightarrow> reactor_shared \<Rightarrow> 'w
     \<Rightarrow> (outcome \<times> reactor_shared \<times> 'w) option" where
  "feed K getenv [] c sh w = Some (Alive c, sh, w)"
| "feed K getenv (d # ds) c sh w =
     (case processRequests K getenv (c\<lparr>inputBuffer := inputBuffer c @ d\<rparr>) sh w of
        Some (Alive c1, sh1, w1) \<Rightarrow> feed K getenv ds c1 sh1 w1
      | r \<Rightarrow> r)"

abbreviation kept_open :: "bytes \<times> bytes \<Rightarrow> bool" where
  "kept_open hr \<equiv> wantKeepAlive (snd hr) (fst hr)"

text \<open>Serving some requests, then the rest once more bytes have arrived.\<close>

lemma serve_in_order_resume:
  assumes "list_all kept_open rs" and "inputBuffer c = concat (map snd rs) @ l" and "next_frame l = NeedMore"
    and "\<not> stop (dbPool sh)"
  shows "serve_in_order K getenv (rs @ rs') (c\<lparr>inputBuffer := inputBuffer c @ b\<rparr>) sh w =
    (case serve_in_order K getenv rs c sh w of
       Some (Alive c1, sh1, w1) \<Rightarrow> serve_in_order K getenv rs' (c1\<lparr>inputBuffer := l @ b\<rparr>) sh1 w1
     | r \<Rightarrow> r)
    \<and> (\<forall>c1 sh1 w1. serve_in_order K getenv rs c sh w = Some (Alive c1, sh1, w1) \<longrightarrow>
         inputBuffer c1 = l \<and> \<not> stop (dbPool sh1))"
  using assms
proof (induction rs arbitrary: c sh w)
  case Nil
  then show ?case by (simp add: end_of_input_def)
next
  case (Cons hr rs)
  obtain h r where hr: "hr = (h, r)" by (cases hr)
  let ?c = "c\<lparr>inputBuffer := concat (map snd rs) @ l\<rparr>"
  have c: "drop (length r) (inputBuffer c) = concat (map snd rs) @ l"
    "drop (length r) (inputBuffer c @ b) = (concat (map snd rs) @ l) @ b"
    using Cons.prems(2) by (simp_all add: hr)
  have more: "serveRequest K getenv h r (c\<lparr>inputBuffer := (concat (map snd rs) @ l) @ b\<rparr>) sh w =
      map_option (\<lambda>(out, sh', w'). (with_input ((concat (map snd rs) @ l) @ b) out, sh', w'))
        (serveRequest K getenv h r ?c sh w)"
    using serveRequest_with_input [of K getenv h r "(concat (map snd rs) @ l) @ b" ?c sh w] by simp
  show ?case
  proof (cases "serveRequest K getenv h r ?c sh w")
    case None
    with c more show ?thesis by (simp add: hr)
  next
    case (Some res)
    obtain out sh1 w1 where res: "res = (out, sh1, w1)" by (cases res)
    note run = serveRequest_running [OF Cons.prems(4) Some [unfolded res]]
    show ?thesis
    proof (cases out)
      case (Alive c1)
      have c1: "inputBuffer c1 = concat (map snd rs) @ l"
        using serveRequest_input [OF Some [unfolded res Alive]] by (simp add: same_input_def)
      have ka: "wantKeepAlive r h" using Cons.prems(1) by (simp add: hr)
      have "serve_in_order K getenv ((hr # rs) @ rs') (c\<lparr>inputBuffer := inputBuffer c @ b\<rparr>) sh w =
          serve_in_order K getenv (rs @ rs') (c1\<lparr>inputBuffer := inputBuffer c1 @ b\<rparr>) sh1 w1"
        using c(2) more Some res Alive ka by (simp add: hr with_input_def c1)
      moreover have "serve_in_order K getenv (hr # rs) c sh w = serve_in_order K getenv rs c1 sh1 w1"
        using c(1) Some res Alive ka by (simp add: hr)
      moreover have "list_all kept_open rs" "\<not> stop (dbPool sh1)" using Cons.prems(1) run by simp_all
      ultimately show ?thesis using Cons.IH [OF _ c1 Cons.prems(3), of sh1 w1] by presburger
    qed (use c more Some res run Cons.prems(1) in \<open>simp_all add: hr with_input_def del: append_assoc\<close>)
  qed
qed

subsection \<open>Messages within the limits\<close>

text \<open>
  A message that respects the limits while it arrives: a well-formed message that keeps the
  connection open, whose header block ends before the guard of the unfinished header applies.
\<close>

definition limited_message :: "bytes list \<times> bytes \<Rightarrow> bool" where
  "limited_message m \<longleftrightarrow>
     sized_message m \<and> length (join_crlf (fst m)) + 3 \<le> kMaxHeaderBytes
     \<and> wantKeepAlive (http_message (fst m) (snd m)) (join_crlf (fst m))"

abbreviation message_bytes :: "bytes list \<times> bytes \<Rightarrow> bytes" where
  "message_bytes m \<equiv> http_message (fst m) (snd m)"

abbreviation message_request :: "bytes list \<times> bytes \<Rightarrow> bytes \<times> bytes" where
  "message_request m \<equiv> (join_crlf (fst m), http_message (fst m) (snd m))"

lemma limited_frame:
  "limited_message m \<Longrightarrow>
   next_frame (message_bytes m @ rest) = Framed (join_crlf (fst m)) (message_bytes m) rest"
  by (rule next_frame_message) (auto simp: limited_message_def sized_message_def split: prod.splits)

lemma next_frame_partial:
  assumes "limited_message m" and "i < length (message_bytes m)"
  shows "next_frame (take i (message_bytes m)) = NeedMore"
proof -
  define p where "p = take i (message_bytes m)"
  define j where "j = join_crlf (fst m)"
  have m: "list_all good_line (fst m)" "fst m \<noteq> []" "requestContentLength j = length (snd m)"
    "length (snd m) \<le> kMaxBodyBytes" "length j + 3 \<le> kMaxHeaderBytes"
    using assms(1) by (auto simp: limited_message_def sized_message_def j_def split: prod.splits)
  have b: "message_bytes m = j @ crlf2 @ snd m" by (simp add: http_message_def j_def)
  have at: "str_find crlf2 (j @ crlf2 @ x) = Some (length j)" for x
    unfolding j_def by (rule find_crlf2_join) (use m(1,2) in simp_all)
  show ?thesis
  proof (cases "length j + 4 \<le> i")
    case True
    then have p: "p = j @ crlf2 @ take (i - (length j + 4)) (snd m)" by (simp add: p_def b)
    have "(length j + 4 + length (snd m)) mod 2 ^ 64 = length j + 4 + length (snd m)"
      using m(4,5) by (intro mod_less) (simp add: kMaxBodyBytes_def kMaxHeaderBytes_def)
    moreover have "length p < length j + 4 + length (snd m)" using assms(2) by (simp add: p_def b)
    ultimately have "next_frame p = NeedMore"
      using at [of "take (i - (length j + 4)) (snd m)"] m(3,4) by (simp add: next_frame_def Let_def substr_def p)
    then show ?thesis by (simp add: p_def)
  next
    case False
    have "str_find crlf2 p = None"
    proof (cases "str_find crlf2 p")
      case (Some k)
      from str_find_append_Some [OF Some, of "drop i (message_bytes m)"]
      have "k = length j" using at [of "snd m"] by (simp add: p_def b [symmetric])
      with str_find_le [OF Some] False show ?thesis by (simp add: p_def)
    qed
    moreover have "length p \<le> kMaxHeaderBytes" using False m(5) by (simp add: p_def)
    ultimately show ?thesis by (auto simp: next_frame_def p_def)
  qed
qed

text \<open>A beginning of a stream of such messages: whole messages, then one that is incomplete.\<close>

lemma stream_prefix:
  assumes "list_all limited_message ms" and "p @ later = concat (map message_bytes ms)"
  shows "\<exists>ms1 ms2 l. ms = ms1 @ ms2 \<and> p = concat (map message_bytes ms1) @ l
    \<and> requests_of p = map message_request ms1 \<and> next_frame l = NeedMore
    \<and> l @ later = concat (map message_bytes ms2)"
  using assms
proof (induction ms arbitrary: p)
  case Nil
  then show ?case by (intro exI [of _ "[]"]) (simp add: requests_of_Nil next_frame_def crlf2_def crlf_def)
next
  case (Cons m ms)
  show ?case
  proof (cases "length (message_bytes m) \<le> length p")
    case True
    have split: "p @ later = message_bytes m @ concat (map message_bytes ms)" using Cons.prems(2) by simp
    then have "prefix (message_bytes m) (p @ later)" by simp
    with True obtain q where q: "p = message_bytes m @ q"
      by (metis prefixE prefixI prefix_length_prefix)
    with split have q: "p = message_bytes m @ q" "q @ later = concat (map message_bytes ms)" by simp_all
    from Cons.IH [OF _ q(2)] Cons.prems(1) obtain ms1 ms2 l where
      IH: "ms = ms1 @ ms2" "q = concat (map message_bytes ms1) @ l" "requests_of q = map message_request ms1"
      "next_frame l = NeedMore" "l @ later = concat (map message_bytes ms2)" by auto
    have ne: "message_bytes m \<noteq> []" by (simp add: http_message_def crlf2_def crlf_def)
    have "requests_of p = message_request m # requests_of q"
      unfolding q(1) using limited_frame Cons.prems(1) ne by (intro requests_of_Framed) simp_all
    with IH q(1) show ?thesis by (intro exI [of _ "m # ms1"] exI [of _ ms2] exI [of _ l]) simp
  next
    case False
    then have p: "p = take (length p) (message_bytes m)"
      using arg_cong [OF Cons.prems(2), of "take (length p)"] by simp
    then have n: "next_frame p = NeedMore" using next_frame_partial [of m "length p"] Cons.prems(1) False by simp
    with Cons.prems(2) show ?thesis
      by (intro exI [of _ "[]"] exI [of _ "m # ms"] exI [of _ p]) (simp add: requests_of_none)
  qed
qed

lemma feed_at_once:
  assumes "list_all limited_message ms" and "inputBuffer c @ concat chunks @ later = concat (map message_bytes ms)"
    and "length (concat (map message_bytes ms)) < 2 ^ 63" and "next_frame (inputBuffer c) = NeedMore"
    and "\<not> stop (dbPool sh)"
  shows "feed K getenv chunks c sh w = processRequests K getenv (c\<lparr>inputBuffer := inputBuffer c @ concat chunks\<rparr>) sh w"
  using assms
proof (induction chunks arbitrary: c sh w ms)
  case Nil
  then show ?case by (simp add: processRequests_step [of _ _ c] end_of_input_def)
next
  case (Cons d ds)
  let ?a = "inputBuffer c @ d"
  have eq: "?a @ (concat ds @ later) = concat (map message_bytes ms)" using Cons.prems(2) by simp
  from stream_prefix [OF Cons.prems(1) this] obtain ms1 ms2 l where
    p: "ms = ms1 @ ms2" "?a = concat (map message_bytes ms1) @ l" "requests_of ?a = map message_request ms1"
    "next_frame l = NeedMore" "l @ concat ds @ later = concat (map message_bytes ms2)" by blast
  have len: "length ?a + length (concat ds) < 2 ^ 63" using arg_cong [OF eq, of length] Cons.prems(3) by simp
  have ka: "list_all kept_open (map message_request ms1)"
    using Cons.prems(1) p(1) by (simp add: limited_message_def list.pred_map comp_def list_all_iff)
  have all: "requests_of (?a @ concat ds) = map message_request ms1 @ requests_of (l @ concat ds)"
    using requests_of_append [of ?a "concat ds"] p(2,3) by (simp add: leftover_def comp_def)
  let ?c = "c\<lparr>inputBuffer := ?a\<rparr>"
  have in_c: "inputBuffer ?c = concat (map snd (map message_request ms1)) @ l" using p(2) by (simp add: comp_def)
  note resume = serve_in_order_resume [OF ka in_c p(4) Cons.prems(5), of K getenv "requests_of (l @ concat ds)" "concat ds" w]
  have first: "processRequests K getenv ?c sh w = serve_in_order K getenv (map message_request ms1) ?c sh w"
    using processRequests_serves [of ?c] len p(3) by simp
  have whole: "processRequests K getenv (c\<lparr>inputBuffer := inputBuffer c @ concat (d # ds)\<rparr>) sh w =
      serve_in_order K getenv (map message_request ms1 @ requests_of (l @ concat ds))
        (?c\<lparr>inputBuffer := inputBuffer ?c @ concat ds\<rparr>) sh w"
    using processRequests_serves [of "c\<lparr>inputBuffer := ?a @ concat ds\<rparr>"] len all by simp
  have rest: "feed K getenv ds c1 sh1 w1 = serve_in_order K getenv (requests_of (l @ concat ds)) (c1\<lparr>inputBuffer := l @ concat ds\<rparr>) sh1 w1"
    if "serve_in_order K getenv (map message_request ms1) ?c sh w = Some (Alive c1, sh1, w1)" for c1 sh1 w1
  proof -
    have c1: "inputBuffer c1 = l" "\<not> stop (dbPool sh1)" using resume that by auto
    have "feed K getenv ds c1 sh1 w1 = processRequests K getenv (c1\<lparr>inputBuffer := inputBuffer c1 @ concat ds\<rparr>) sh1 w1"
      by (rule Cons.IH [of ms2]) (use Cons.prems p c1 in simp_all)
    also have "length (l @ concat ds) < 2 ^ 63" using len arg_cong [OF p(2), of length] by simp
    ultimately show ?thesis using processRequests_serves [of "c1\<lparr>inputBuffer := l @ concat ds\<rparr>"] c1 by simp
  qed
  show ?case
  proof (cases "serve_in_order K getenv (map message_request ms1) ?c sh w")
    case None
    with resume show ?thesis unfolding feed.simps first whole by simp
  next
    case (Some res)
    obtain out sh1 w1 where res: "res = (out, sh1, w1)" by (cases res)
    show ?thesis
      unfolding feed.simps first whole using conjunct1 [OF resume] rest Some res by (cases out) simp_all
  qed
qed

subsection \<open>Properties\<close>

text \<open>
  C26: how the stream is cut into reads does not matter. For messages that keep the
  connection open and whose header blocks and bodies are within the limits, arriving on a
  connection with an empty input buffer in any chunks, the last message possibly incomplete:
  appending each chunk and processing the requests has the same result, output and final
  state as one call on the whole stream; and when all of it has arrived, exactly the
  messages have been served, each whole, in order.
\<close>

theorem segmentation_independent:
  assumes "list_all limited_message ms" and "concat chunks @ later = concat (map message_bytes ms)"
    and "length (concat (map message_bytes ms)) < 2 ^ 63" and "inputBuffer c = []" and "\<not> stop (dbPool sh)"
  shows "feed K getenv chunks c sh w = processRequests K getenv (c\<lparr>inputBuffer := concat chunks\<rparr>) sh w
    \<and> (later = [] \<longrightarrow> feed K getenv chunks c sh w =
         serve_in_order K getenv (map message_request ms) (c\<lparr>inputBuffer := concat chunks\<rparr>) sh w)"
proof -
  have empty: "next_frame [] = NeedMore" by (simp add: next_frame_def crlf2_def crlf_def)
  have f: "feed K getenv chunks c sh w = processRequests K getenv (c\<lparr>inputBuffer := concat chunks\<rparr>) sh w"
    using feed_at_once [OF assms(1) _ assms(3), of c chunks later sh K getenv w] assms(2,4,5) empty by simp
  moreover have "requests_of (concat chunks) = map message_request ms" if "later = []"
    using requests_of_messages [of ms "[]"] assms(1,2) that requests_of_Nil
    by (simp add: limited_message_def list_all_iff case_prod_unfold)
  moreover have "length (concat chunks) < 2 ^ 63" using arg_cong [OF assms(2), of length] assms(3) by simp
  ultimately show ?thesis using processRequests_serves [of "c\<lparr>inputBuffer := concat chunks\<rparr>" K getenv sh w] by simp
qed

lemma chat_limited: "list_all limited_message [hello_message, login_message]"
proof -
  have l: "lines_of (join_crlf [''POST /login HTTP/1.1'', ''Content-Length: 2'']) =
      [''POST /login HTTP/1.1'', ''Content-Length: 2'']"
    by (rule lines_of_join) (simp add: good_line_def)
  have "findHeader (join_crlf [''POST /login HTTP/1.1'', ''Content-Length: 2'']) ''connection'' = []"
    by (simp only: findHeader_lookup l) (simp add: str_simps)
  then have "wantKeepAlive (message_bytes login_message) (join_crlf (fst login_message))"
    by (simp add: wantKeepAlive_def login_message_def http_message_def crlf_def crlf2_def)
  moreover have "wantKeepAlive (message_bytes hello_message) (join_crlf (fst hello_message))"
    using hello_request_parsed(3) by (simp add: hello_message_def hello_request_def hello_headers_def)
  moreover have "length (join_crlf (fst m)) + 3 \<le> kMaxHeaderBytes" if "m \<in> {hello_message, login_message}" for m
    using that by (auto simp: hello_message_def login_message_def kMaxHeaderBytes_def crlf_def)
  ultimately show ?thesis using chat_messages by (simp add: limited_message_def)
qed

theorem segmentation_independent_witness:
  "feed chat_kernel (\<lambda>_. None) [take 10 chat_stream, drop 10 chat_stream] chat_conn chat_shared (chat_world []) =
   serve_in_order chat_kernel (\<lambda>_. None) (map message_request [hello_message, login_message])
     (chat_conn\<lparr>inputBuffer := chat_stream\<rparr>) chat_shared (chat_world [])"
proof -
  have s: "chat_stream = concat (map message_bytes [hello_message, login_message])"
    by (simp add: chat_stream_def case_prod_unfold)
  have c: "concat [take 10 chat_stream, drop 10 chat_stream] = chat_stream"
    by (simp only: concat.simps append_Nil2 append_take_drop_id)
  then have e: "concat [take 10 chat_stream, drop 10 chat_stream] @ [] = concat (map message_bytes [hello_message, login_message])"
    by (simp only: append_Nil2 s)
  have n: "length (concat (map message_bytes [hello_message, login_message])) < 2 ^ 63"
    using chat_stream_short unfolding s .
  have "\<not> stop (dbPool chat_shared)" by (simp add: chat_shared_def pool_new_def)
  from segmentation_independent [OF chat_limited e n chat_conn_fields(1) this, THEN conjunct2, THEN mp, OF refl]
  show ?thesis unfolding c .
qed

end
