(* ===== verification/Spec2Isabelle.thy ===== *)
theory Spec2Isabelle
  imports ConnDelivery Answers Client MainProgram DbFinish RedisThreads Limiter Edge Pipeline Segmentation
begin

text \<open>
  A verification library for MyFirstCPPServer, an HTTP server in C++ with one accepting and
  several serving reactors, a thread pool for blocking database work, and pools of MySQL
  and Redis connections.

  \<^bold>\<open>The program.\<close> The main reactor (\<^verbatim>\<open>test/server.cpp\<close>, \<^verbatim>\<open>src/EventLoop.cpp\<close>) polls the listening
  socket; \<^verbatim>\<open>src/Acceptor.cpp\<close> accepts clients and hands the sockets to \<^verbatim>\<open>src/Server.cpp\<close>, which
  creates a \<^verbatim>\<open>Connection\<close> for each on one of the sub reactors. A sub reactor reads requests,
  frames them (pipelined or cut into pieces), answers the static routes itself and submits
  the database routes to the DB thread pool, whose tasks answer on the socket directly.
  Once a second the main reactor shuts idle connections down, and stops everything when a
  signal arrived.

  \<^bold>\<open>Theories and code.\<close>
  \<^item> \<^verbatim>\<open>Prelude\<close>: C strings, \<^verbatim>\<open>std::string\<close> searches, \<^verbatim>\<open>strtol\<close>, system call results, reachability
    and the locale \<open>inductive_invariant\<close> that the concurrent components interpret.
  \<^item> \<^verbatim>\<open>Kernel\<close>: the system calls as a record of functions over an abstract world, and the POSIX
    behaviour the code relies on as named predicates.
  \<^item> \<^verbatim>\<open>Config\<close> (\<^verbatim>\<open>Config.h\<close>), \<^verbatim>\<open>Buffer\<close> (\<^verbatim>\<open>Buffer.cpp\<close>), \<^verbatim>\<open>Log\<close> (\<^verbatim>\<open>Log.cpp\<close>), \<^verbatim>\<open>Client\<close>
    (\<^verbatim>\<open>test/client.cpp\<close>).
  \<^item> \<^verbatim>\<open>HttpParse\<close>, \<^verbatim>\<open>HttpResponse\<close>: parsing, framing, escaping and building of messages, the rate
    limiter (\<^verbatim>\<open>Connection.cpp\<close> 50--248, 699--722, 765--797). \<^verbatim>\<open>Limiter\<close>: the limiter as the
    reactor threads share it, one clock reading or atomic operation at a time.
  \<^item> \<^verbatim>\<open>Reactor\<close>: \<^verbatim>\<open>Channel.cpp\<close>, \<^verbatim>\<open>Epoll.cpp\<close>, \<^verbatim>\<open>EventLoop.cpp\<close>; event masks are 32-bit words.
  \<^item> \<^verbatim>\<open>ConnWrite\<close>, \<^verbatim>\<open>ConnDelivery\<close>: the record of a connection and everything that sends
    (\<^verbatim>\<open>Connection.cpp\<close> 250--458); the locale \<open>retry_loop\<close> is the contract of the three write loops.
  \<^item> \<^verbatim>\<open>ThreadPool\<close>: the queue under its mutex, one step per critical section.
  \<^item> \<^verbatim>\<open>ConnPools\<close>: \<^verbatim>\<open>MysqlPool\<close> and \<^verbatim>\<open>RedisPool\<close>; the locale \<open>connection_pool\<close> is their contract.
  \<^item> \<^verbatim>\<open>DbHandlers\<close>: the four handlers and the tasks they submit (\<^verbatim>\<open>Connection.cpp\<close> 288--326,
    462--695). \<^verbatim>\<open>DbContract\<close>, \<^verbatim>\<open>DbCorrect\<close>, \<^verbatim>\<open>DbWorking\<close> and \<^verbatim>\<open>DbProperties\<close> state what is relied on
    of the databases and prove the tasks correct; the locale \<open>db_handler\<close> is what the request
    loop relies on of a handler.
  \<^item> \<^verbatim>\<open>ConnRequest\<close>, \<^verbatim>\<open>ConnLoop\<close>: the constructor, the read loop and the request loop
    (\<^verbatim>\<open>Connection.cpp\<close> 28--40, 724--847). \<^verbatim>\<open>Segmentation\<close>: a stream that arrives in pieces.
    \<^verbatim>\<open>ConnFrame\<close>: what a callback leaves alone.
  \<^item> \<^verbatim>\<open>EndToEnd\<close>: the messages of a browser through the request loop, the queue and a database
    thread; the property of a whole session is at the end of this theory. \<^verbatim>\<open>Pipeline\<close>: pipelined
    requests for pages, from the input buffer to the bytes on the wire.
  \<^item> \<^verbatim>\<open>Net\<close>: \<^verbatim>\<open>Socket.cpp\<close>, \<^verbatim>\<open>InetAddress.cpp\<close>, \<^verbatim>\<open>util.cpp\<close>, \<^verbatim>\<open>Acceptor.cpp\<close>.
  \<^item> \<^verbatim>\<open>Server\<close>: \<^verbatim>\<open>Server.cpp\<close> and the main program; \<^verbatim>\<open>ServerInv\<close>, \<^verbatim>\<open>ServerProperties\<close>: its invariant
    and properties; the locale \<open>std_map\<close> is the contract of the connection table.
  \<^item> \<^verbatim>\<open>Threads\<close>: programs of atomic actions on a shared state, their interleavings and
    rely-guarantee safety; the locales \<open>interference\<close> and \<open>safe_threads\<close>.
  \<^item> \<^verbatim>\<open>DbThreads\<close>: the database tasks as such programs, one action per library call, critical
    section or answer, and that a thread alone does what \<open>runDbTask\<close> says. \<^verbatim>\<open>DbConcurrent\<close>: any
    interleaving of them. \<^verbatim>\<open>RedisThreads\<close>: the books of the Redis contexts under any interleaving.
    \<^verbatim>\<open>Finish\<close>, \<^verbatim>\<open>DbFinish\<close>: that such programs, and these, come to an end.
  \<^item> \<^verbatim>\<open>ConnSubmit\<close>: the tasks a callback submits. \<^verbatim>\<open>SystemWork\<close>: the whole server, reactor
    callbacks and database threads interleaved on one state, simulated by its components;
    \<^verbatim>\<open>SystemSite\<close>: a concrete site to run it on; \<^verbatim>\<open>System\<close>, \<^verbatim>\<open>Answers\<close>: its properties.
  \<^item> \<^verbatim>\<open>Dispatch\<close>: the loops of the sub reactors and their batches of channel pointers, one event
    at a time (\<^verbatim>\<open>EventLoop.cpp\<close>, \<^verbatim>\<open>Epoll.cpp\<close>). \<^verbatim>\<open>Edge\<close>: the same loops over edge-triggered polling. \<^verbatim>\<open>MainProgram\<close>: \<^verbatim>\<open>main\<close> of \<^verbatim>\<open>test/server.cpp\<close> with its
    signals and start-up lines, from start to exit.

  \<^bold>\<open>State.\<close> Objects are records, the world (sockets, files, databases, clock) is a type
  parameter threaded through every operation. An operation that may not return has an
  \<open>option\<close> result whose \<^const>\<open>None\<close> means exactly that; destruction of \<^verbatim>\<open>this\<close>, its use after
  destruction and exceptions are constructors of \<open>outcome\<close> and \<open>db_result\<close>; \<open>errif\<close> is \<open>Inl\<close> with
  its message. Loops of the code that need not end are partial functions, never fuel; that
  they end is proved from explicit bounds on interruptions (\<open>finite_eintr\<close>) and waiting clients
  (\<open>finite_backlog\<close>). \<open>requests_of\<close> only names the requests that are complete in a buffer; what the
  limits refuse is answered by \<open>end_of_input\<close>. Interleaving is explicit in the step relations \<open>pool_step\<close>, \<open>redis_use\<close>,
  \<open>mysql_use\<close>, \<open>db_step\<close>, \<open>server_step\<close> and \<open>dispatch_step\<close>, where a step is a critical section, a DB task or a
  reactor callback as a whole, in \<open>edge_step\<close>, which adds what the kernel reports and remembers,
  and in \<open>threads_step\<close>, \<open>work_step\<close> (no new tasks), \<open>limiter_step\<close> and \<open>system_step\<close>, where a thread
  takes one action at a time. \<open>redis_use\<close> and \<open>mysql_use\<close> are the protocol of a client of the pools,
  used for their destructors; that the tasks keep to it is proved of their code
  (\<open>redis_contexts_exclusive\<close>, \<open>mysql_connections_owned\<close>). The reader of JSON objects in \<open>Answers\<close> takes the length of the
  text as its fuel, which every member shortens.

  \<^bold>\<open>What is proved.\<close>
  \<^item> Delivery: responses and files reach the socket complete and in order across partial
    writes; a connection is closed only after its response; the write path returns.
  \<^item> Requests: the request loop serves the framed requests in order and returns whatever the
    peer does, is memory safe while the peer does not reset, and for messages within the limits
    does the same however the stream is cut into reads; while
    the socket has room the pages of pipelined requests are on the wire in order.
  \<^item> Database tasks: every task answers once on its own socket, with the whole response unless
    the kernel refuses the rest; authentication is sound for usernames without a NUL byte, also
    through the cache; sessions live from login to logout; registration is correct for
    every status; the escape buffers never overrun.
  \<^item> Threads: all of this under any interleaving of single actions; each MySQL connection is
    held by one thread in the middle of a task, and results are never mixed up. No thread is
    ever stuck, and every schedule of the tasks that were started ends with the pool full. With
    \<open>n\<close> reactors the limiter admits at most \<open>(n + 1)^2\<close> times its limit in a second.
  \<^item> The whole server: no input from the network overruns a buffer; table, databases and
    answers are right together; every answer is a JSON object with the members its status
    promises.
  \<^item> Pools: no connection is shared, leaked or used after it was freed; tasks are started
    first in first out and none is lost; shutdown terminates.
  \<^item> Server: the connection table holds exactly the open sockets, the interest lists of epoll
    point to live connections only, the events a reactor still has to handle never dangle,
    no input of an edge-triggered socket is missed, accepting is complete, idle connections
    are collected, SIGINT and SIGTERM stop every reactor, and the program then exits with
    everything closed, if no callback of the other threads throws meanwhile; it listens on the
    configured address.
  \<^item> Formats: header lookup equals its reference definition; escaping, tokens, credentials,
    responses and the port round trip; the client prints the non-empty lines that an echo
    server returns.

  \<^bold>\<open>Where the code departs from its comments.\<close> Lemmas at the end of the component theories show
  these: \<open>reset_during_keep_alive_is_use_after_free\<close>, \<open>closing_db_request_left_open\<close>,
  \<open>sendResponse_discards_pending\<close>, \<open>nul_username_takes_over_account\<close>, \<open>empty_redis_pool_stays_empty\<close>,
  \<open>failed_add_marks_registered\<close>, \<open>oversized_header_accepted\<close>, \<open>http10_body_forces_keep_alive\<close>,
  \<open>bearer_token_keeps_leading_blank\<close>, \<open>port_65536_binds_port_0\<close>, \<open>envOrInt_wraps_to_zero\<close>,
  \<open>read_error_spins\<close>; and, where threads meet, \<open>simultaneous_registrations\<close>,
  \<open>pipelined_answers_reordered\<close>, \<open>answer_splits_response\<close>, \<open>limiter_race_admits_five\<close>,
  \<open>answer_reaches_other_client\<close>, \<open>early_end_of_stream_lost\<close> and \<open>request_during_shutdown_throws\<close>.

  \<^bold>\<open>Assumptions that narrow the claims.\<close> The contract \<open>no_ctl_failure\<close> (part of \<open>fd_kernel\<close>) says that
  \<^verbatim>\<open>epoll_ctl\<close> on an open descriptor does not run out of memory or watches; what the code makes of
  such a failure is \<open>failed_add_marks_registered\<close>. A callback that throws or touches a freed
  connection has no step in \<open>server_step\<close>, \<open>dispatch_step\<close>, \<open>edge_step\<close> and \<open>system_step\<close>, since the process
  ends or nothing is defined any more: the invariants hold up to that point, and
  \<open>processRequests_safe\<close> says that without a failing write to the peer and with a running DB pool
  it does not come to that. \<open>main_exits_clean\<close> takes what the other threads do while the main
  thread waits or joins them to be such steps, so the throw of \<open>request_during_shutdown_throws\<close>
  is excluded there. The claims about authentication, sessions and the cache need usernames
  without a NUL byte.

  \<^bold>\<open>Not modelled.\<close> The C++ memory model: shared variables are read and written as a whole, under
  their mutex or as atomics. A reactor callback is one step; the one window inside a callback
  that other threads can see, between the registration of a new connection and its entry in
  the table, is shown apart (\<open>newConnection_parts\<close>). Freed memory as such: a destroyed
  connection is the outcome \<open>Destroyed\<close> or \<open>UseAfterFree\<close>, a stopped pool refuses tasks. The
  internals of spdlog, MySQL, hiredis and the random generator (they are parameters, with
  the contracts stated), the future that \<^verbatim>\<open>ThreadPool::add\<close> returns and nobody uses, the
  descriptors of the epoll instances (an instance is known by the number of its loop), the
  static page, and the branches of a build without \<^verbatim>\<open>USE_REDIS\<close>.
\<close>

section \<open>A session over HTTP\<close>

text \<open>
  C5: a session over HTTP. On a server with working databases and an idle database thread, a
  client that sends the page's requests as HTTP messages registers a new name, logs in,
  reads the token out of the JSON answer, gets its own name from the profile page with that
  token, logs out, and is refused from then on. Every message passes through framing,
  routing and parsing in the reactor, the task queue, a database thread, both databases and
  back; the reactor's shared state is the same after each exchange.
\<close>

theorem session_over_http:
  assumes "working S same sent rows kv fuel" and "ready s" and "same u u"
    and "u \<noteq> []" and "q \<noteq> []" and "CHR 0x00 \<notin> set u" and "CHR 0x00 \<notin> set q"
    and "CHR 0x22 \<notin> set u" and "CHR 0x22 \<notin> set q"
    and "length u \<le> kMaxUsernameLen" and "length q \<le> kMaxPasswordLen"
    and "row_for same (rows (world s)) u = []" and "kv (world s) (user_key u) = None"
    and "idle_worker i (dbPool sh)"
  shows "\<exists>answer s1 s2 s3 s4 s5.
      exchange S getenv i c (post_message ''/register'' (credentials_json u q)) sh s =
        Some (Answered 200 (json_message ''register success''), sh, s1)
    \<and> exchange S getenv i c (post_message ''/login'' (credentials_json u q)) sh s1 = Some (Answered 200 answer, sh, s2)
    \<and> exchange S getenv i c (token_message ''GET'' ''/profile'' (getJsonValue answer ''token'')) sh s2 =
        Some (Answered 200 (json_username u), sh, s3)
    \<and> exchange S getenv i c (token_message ''POST'' ''/logout'' (getJsonValue answer ''token'')) sh s3 =
        Some (Answered 200 (json_message ''logout success''), sh, s4)
    \<and> exchange S getenv i c (token_message ''GET'' ''/profile'' (getJsonValue answer ''token'')) sh s4 =
        Some (Answered 401 (json_error ''invalid or expired token''), sh, s5)"
proof -
  obtain tok s1 s2 s3 s4 s5 where run:
      "runDbTask S (RegisterTask (sock_fd c) True u q) s = Some (Answered 200 (json_message ''register success''), s1)"
      "runDbTask S (LoginTask (sock_fd c) True u q) s1 = Some (Answered 200 (json_token tok), s2)"
      "runDbTask S (ProfileTask (sock_fd c) True tok) s2 = Some (Answered 200 (json_username u), s3)"
      "runDbTask S (LogoutTask (sock_fd c) True tok) s3 = Some (Answered 200 (json_message ''logout success''), s4)"
      "runDbTask S (ProfileTask (sock_fd c) True tok) s4 = Some (Answered 401 (json_error ''invalid or expired token''), s5)"
    and tok: "length tok = kTokenLen" "set tok \<subseteq> set token_charset"
    using lifecycle_runs [OF assms(1-4,6,7,10-13), of "sock_fd c" True] by blast
  have "CHR 0x22 \<notin> set tok" using tok(2) by (auto simp: token_charset_def)
  then have t: "getJsonValue (json_token tok) ''token'' = tok" by (rule getJsonValue_token)
  have on: "\<not> stop (dbPool sh)" using assms(14) by (simp add: idle_worker_def)
  note cred = exchange_runs [OF credentials_submitted [OF assms(8,9,4,5,10,11) on] assms(14)]
    and bear = exchange_runs [OF token_submitted [OF tok(2,1) on] assms(14)]
  note runs = cred [where task1 = RegisterTask, OF _ run(1), of "''/register''"]
    cred [where task1 = LoginTask, OF _ run(2), of "''/login''"]
    bear [where task1 = ProfileTask, OF _ run(3), of "''GET''" "''/profile''"]
    bear [where task1 = LogoutTask, OF _ run(4), of "''POST''" "''/logout''"]
    bear [where task1 = ProfileTask, OF _ run(5), of "''GET''" "''/profile''"]
  show ?thesis
    by (intro exI [of _ "json_token tok"] exI conjI, unfold t) (rule runs, simp)+
qed

theorem session_over_http_witness:
  "\<exists>answer s1 s2 s3.
      exchange toy_services (\<lambda>_. None) 0 chat_conn (post_message ''/register'' (credentials_json ''bob'' ''hunter2'')) chat_shared toy_start =
        Some (Answered 200 (json_message ''register success''), chat_shared, s1)
    \<and> exchange toy_services (\<lambda>_. None) 0 chat_conn (post_message ''/login'' (credentials_json ''bob'' ''hunter2'')) chat_shared s1 =
        Some (Answered 200 answer, chat_shared, s2)
    \<and> exchange toy_services (\<lambda>_. None) 0 chat_conn (token_message ''GET'' ''/profile'' (getJsonValue answer ''token'')) chat_shared s2 =
        Some (Answered 200 (json_username ''bob''), chat_shared, s3)"
proof -
  have "idle_worker 0 (dbPool chat_shared)" by (simp add: idle_worker_def chat_shared_def pool_new_def)
  moreover have "row_for (=) (toy_rows (world toy_start)) ''bob'' = []" "toy_kv (world toy_start) (user_key ''bob'') = None"
    by (simp_all add: toy_start_def row_for_def)
  moreover have "length ''bob'' \<le> kMaxUsernameLen" "length ''hunter2'' \<le> kMaxPasswordLen"
    by (simp_all add: kMaxUsernameLen_def kMaxPasswordLen_def)
  ultimately show ?thesis
    using session_over_http [OF toy_working toy_ready, of "''bob''" "''hunter2''" 0 chat_shared "\<lambda>_. None" chat_conn]
    by fastforce
qed

end
